(* ===== verification/Prelude.thy ===== *)
theory Prelude
  imports Main "HOL-Library.Word"
begin

text \<open>
  Shared types and lemmas of the liboffs development: the fixed-width integers of the C code as
  words, byte strings, the little- and big-endian byte codecs the on-disk formats use, and the
  list facts the component theories share.

  Conventions. A C \<open>uint8_t\<close>, \<open>uint16_t\<close>, \<open>uint32_t\<close> or
  \<open>uint64_t\<close> whose wrap-around is visible is a word of that width. A \<open>size_t\<close>
  that indexes or measures an array is a \<open>nat\<close>. A pointer result that may be
  \<open>NULL\<close> is an \<open>option\<close>. Reads outside an array are undefined behaviour in C: the
  definitions that can reach one return \<open>None\<close> there.
\<close>

type_synonym u8 = "8 word"
type_synonym u16 = "16 word"
type_synonym u32 = "32 word"
type_synonym u64 = "64 word"
type_synonym bytes = "u8 list"

text \<open>The length of a BLAKE3 digest, the address of a block.\<close>

definition BLAKE3_OUT_LEN :: nat where
  "BLAKE3_OUT_LEN = 32"

named_theorems offs_simps \<open>equations of the model used by the component proofs\<close>
named_theorems offs_wf \<open>invariant preservation lemmas\<close>

section \<open>Byte codecs\<close>

text \<open>
  \<open>le_bytes n x\<close> writes the \<open>n\<close> low bytes of \<open>x\<close> least significant first, as
  the \<open>(x >> 8 * k) & 0xFF\<close> sequences of the C code do; \<open>be_bytes\<close> is network order.
\<close>

primrec le_bytes :: "nat \<Rightarrow> nat \<Rightarrow> bytes" where
  "le_bytes 0 x = []"
| "le_bytes (Suc n) x = of_nat (x mod 256) # le_bytes n (x div 256)"

primrec le_nat :: "bytes \<Rightarrow> nat" where
  "le_nat [] = 0"
| "le_nat (b # bs) = unat b + 256 * le_nat bs"

definition be_bytes :: "nat \<Rightarrow> nat \<Rightarrow> bytes" where
  "be_bytes n x = rev (le_bytes n x)"

definition be_nat :: "bytes \<Rightarrow> nat" where
  "be_nat bs = le_nat (rev bs)"

lemma length_le_bytes [simp]: "length (le_bytes n x) = n"
  by (induction n arbitrary: x) auto

lemma length_be_bytes [simp]: "length (be_bytes n x) = n"
  by (simp add: be_bytes_def)

lemma unat_of_nat_u8 [simp]: "unat (of_nat (x mod 256) :: u8) = x mod 256"
  by (simp add: unat_of_nat)

lemma le_nat_le_bytes: "le_nat (le_bytes n x) = x mod 256 ^ n"
proof (induction n arbitrary: x)
  case 0
  then show ?case by simp
next
  case (Suc n)
  have "le_nat (le_bytes (Suc n) x) = x mod 256 + 256 * (x div 256 mod 256 ^ n)"
    by (simp only: le_bytes.simps le_nat.simps unat_of_nat_u8 Suc.IH)
  also have "\<dots> = x mod (256 * 256 ^ n)"
    by (simp add: mod_mult2_eq)
  finally show ?case by simp
qed

lemma le_nat_le_bytes_id [simp]: "x < 256 ^ n \<Longrightarrow> le_nat (le_bytes n x) = x"
  by (simp add: le_nat_le_bytes)

lemma be_nat_be_bytes_id [simp]: "x < 256 ^ n \<Longrightarrow> be_nat (be_bytes n x) = x"
  by (simp add: be_nat_def be_bytes_def)

lemma le_bytes_inj: "x < 256 ^ n \<Longrightarrow> y < 256 ^ n \<Longrightarrow> le_bytes n x = le_bytes n y \<longleftrightarrow> x = y"
  by (metis le_nat_le_bytes_id)

lemma be_bytes_inj: "x < 256 ^ n \<Longrightarrow> y < 256 ^ n \<Longrightarrow> be_bytes n x = be_bytes n y \<longleftrightarrow> x = y"
  by (simp add: be_bytes_def le_bytes_inj)

lemma unat_u32_bound [simp]: "unat (w :: u32) < 4294967296"
  using unsigned_less [of w] by simp

lemma unat_u64_bound [simp]: "unat (w :: u64) < 18446744073709551616"
  using unsigned_less [of w] by simp

lemma unat_u16_bound [simp]: "unat (w :: u16) < 65536"
  using unsigned_less [of w] by simp

lemma unat_u8_bound [simp]: "unat (w :: u8) < 256"
  using unsigned_less [of w] by simp

text \<open>Widening and narrowing back.\<close>

lemma ucast_u64_back [simp]:
  "ucast (ucast (x8 :: u8) :: u64) = x8"
  "ucast (ucast (x16 :: u16) :: u64) = x16"
  "ucast (ucast (x32 :: u32) :: u64) = x32"
  by (rule bit_eqI, auto simp: bit_simps)+

lemma unat_ucast_u64 [simp]:
  "unat (ucast (x8 :: u8) :: u64) = unat x8"
  "unat (ucast (x16 :: u16) :: u64) = unat x16"
  "unat (ucast (x32 :: u32) :: u64) = unat x32"
proof -
  have "unat x8 < 2 ^ 64" "unat x16 < 2 ^ 64" "unat x32 < 2 ^ 64"
    by (rule less_trans, rule unat_u8_bound unat_u16_bound unat_u32_bound, simp)+
  then show "unat (ucast x8 :: u64) = unat x8" "unat (ucast x16 :: u64) = unat x16"
      "unat (ucast x32 :: u64) = unat x32"
    by (simp_all add: unsigned_ucast_eq take_bit_nat_eq_self)
qed

section \<open>Lists\<close>

lemma nth_eq_take_drop: "i < length xs \<Longrightarrow> xs = take i xs @ xs ! i # drop (Suc i) xs"
  by (simp add: id_take_nth_drop)

lemma find_Some_iff_mem: "find P xs = Some x \<Longrightarrow> x \<in> set xs \<and> P x"
  by (induction xs) (auto split: if_splits)

lemma find_None_iff_all: "find P xs = None \<longleftrightarrow> (\<forall>x \<in> set xs. \<not> P x)"
  by (induction xs) auto

lemma find_cong_map:
  "(\<And>x. x \<in> set xs \<Longrightarrow> P (f x) \<longleftrightarrow> P x) \<Longrightarrow> find P (map f xs) = map_option f (find P xs)"
  by (induction xs) auto

text \<open>Removing the first element that satisfies a predicate, as the C code's search-and-splice
  loops do.\<close>

primrec remove_first :: "('a \<Rightarrow> bool) \<Rightarrow> 'a list \<Rightarrow> 'a list" where
  "remove_first P [] = []"
| "remove_first P (x # xs) = (if P x then xs else x # remove_first P xs)"

lemma remove_first_none [simp]: "(\<forall>x \<in> set xs. \<not> P x) \<Longrightarrow> remove_first P xs = xs"
  by (induction xs) auto

lemma set_remove_first_subset: "set (remove_first P xs) \<subseteq> set xs"
  by (induction xs) auto

lemma length_remove_first:
  "length (remove_first P xs) = (if \<exists>x \<in> set xs. P x then length xs - 1 else length xs)"
proof (induction xs)
  case (Cons x xs)
  show ?case
  proof (cases "P x")
    case False
    show ?thesis
    proof (cases "\<exists>y \<in> set xs. P y")
      case True
      then have "0 < length xs" by (cases xs) auto
      with True False Cons show ?thesis by auto
    qed (use False Cons in auto)
  qed auto
qed simp

lemma remove_first_filter:
  assumes "distinct (map f xs)"
  shows "remove_first (\<lambda>x. f x = k) xs = filter (\<lambda>x. f x \<noteq> k) xs"
  using assms
proof (induction xs)
  case (Cons x xs)
  show ?case
  proof (cases "f x = k")
    case True
    with Cons.prems have "\<forall>y \<in> set xs. f y \<noteq> k"
      by (auto simp: image_iff)
    with True show ?thesis by (simp add: filter_True)
  qed (use Cons in auto)
qed simp

text \<open>Changing the first element that satisfies a predicate, as a search loop that mutates the
  element it finds does.\<close>

primrec update_first :: "('a \<Rightarrow> bool) \<Rightarrow> ('a \<Rightarrow> 'a) \<Rightarrow> 'a list \<Rightarrow> 'a list" where
  "update_first P f [] = []"
| "update_first P f (x # xs) = (if P x then f x # xs else x # update_first P f xs)"

lemma length_update_first [simp]: "length (update_first P f xs) = length xs"
  by (induction xs) auto

lemma update_first_none [simp]: "(\<forall>x \<in> set xs. \<not> P x) \<Longrightarrow> update_first P f xs = xs"
  by (induction xs) auto

lemma map_update_first_key:
  "(\<And>x. P x \<Longrightarrow> k (f x) = k x) \<Longrightarrow> map k (update_first P f xs) = map k xs"
  by (induction xs) auto

lemma update_first_map:
  assumes "distinct (map k xs)"
  shows "update_first (\<lambda>x. k x = a) f xs = map (\<lambda>x. if k x = a then f x else x) xs"
  using assms
proof (induction xs)
  case (Cons x xs)
  show ?case
  proof (cases "k x = a")
    case True
    with Cons.prems have "\<forall>y \<in> set xs. k y \<noteq> a" by (auto simp: image_iff)
    with True show ?thesis by (auto intro!: map_idI [symmetric])
  qed (use Cons in auto)
qed simp

text \<open>A C loop \<open>for (i = a; i < b; i++) r[i] = h(i)\<close> replaces the cells from
  \<open>a\<close> up to \<open>b\<close>.\<close>

lemma fold_update_upt:
  assumes "a \<le> b" and "b \<le> length r"
  shows "fold (\<lambda>i r. r[i := h i]) [a..<b] r = take a r @ map h [a..<b] @ drop b r"
  using assms
proof (induction b)
  case (Suc b)
  show ?case
  proof (cases "a = Suc b")
    case False
    with Suc have le: "a \<le> b" "b < length r" by auto
    then have "fold (\<lambda>i r. r[i := h i]) [a..<Suc b] r
        = (take a r @ map h [a..<b] @ drop b r)[b := h b]"
      using Suc.IH by simp
    also have "\<dots> = take a r @ map h [a..<Suc b] @ drop (Suc b) r"
      using le by (simp add: list_update_append Cons_nth_drop_Suc [symmetric])
    finally show ?thesis .
  qed (use Suc in simp)
qed simp

lemma length_fold_update [simp]: "length (fold (\<lambda>i r. r[i := h i]) is r) = length r"
  by (induction "is" arbitrary: r) auto

text \<open>Arrays of equally wide fields in a byte string.\<close>

lemma length_concat_chunks:
  "(\<And>x. x \<in> set xs \<Longrightarrow> length (f x) = k) \<Longrightarrow> length (concat (map f xs)) = k * length xs"
  by (induction xs) auto

lemma chunk_nth:
  assumes "\<And>x. x \<in> set xs \<Longrightarrow> length (f x) = k" and "i < length xs"
  shows "take k (drop (k * i) (concat (map f xs) @ ys)) = f (xs ! i)"
  using assms
proof (induction xs arbitrary: i)
  case (Cons x xs)
  then show ?case
    by (cases i) (simp_all add: drop_append add.commute)
qed simp

end
