(* ===== verification/Cbor.thy ===== *)
theory Cbor
  imports Prelude
begin

text \<open>
  The interface to libcbor, the third-party library behind every persistent and wire format of
  liboffs. libcbor is not part of the sources, so its functions are the fields of a record
  \<open>cbor_api\<close> that the definitions using them take as an argument; the locale
  \<open>libcbor\<close> states what the sources rely on. The contract is written against the CBOR
  data model of RFC 8949 (\<open>cval\<close>, with the integer width libcbor keeps) and its byte
  encoding \<open>cbor_encode\<close>. The theory ends with an interpretation of the contract by an
  executable RFC 8949 codec, whose encoder and decoder are proved inverse.
\<close>

section \<open>The data model and its encoding\<close>

text \<open>\<open>CUint w x\<close> is an unsigned integer of width \<open>w\<close> bytes (libcbor's
  \<open>CBOR_INT_8\<close> to \<open>CBOR_INT_64\<close>); \<open>CArray\<close> is a definite-length array,
  \<open>CIndef\<close> an indefinite-length one.\<close>

datatype cval =
    CUint nat u64
  | CBytes bytes
  | CArray "cval list"
  | CIndef "cval list"

text \<open>The shortest head for a length argument (RFC 8949, section 3).\<close>

definition cbor_head :: "nat \<Rightarrow> nat \<Rightarrow> bytes" where
  "cbor_head major n =
     (if n < 24 then [of_nat (32 * major + n)]
      else if n < 2 ^ 8 then of_nat (32 * major + 24) # be_bytes 1 n
      else if n < 2 ^ 16 then of_nat (32 * major + 25) # be_bytes 2 n
      else if n < 2 ^ 32 then of_nat (32 * major + 26) # be_bytes 4 n
      else of_nat (32 * major + 27) # be_bytes 8 n)"

text \<open>libcbor keeps the width an integer was built with; only an 8-bit value below 24 is
  embedded in its head byte.\<close>

definition cbor_uint_bytes :: "nat \<Rightarrow> u64 \<Rightarrow> bytes" where
  "cbor_uint_bytes w x =
     (if w = 1 then (if unat x < 24 then [of_nat (unat x)] else 24 # be_bytes 1 (unat x))
      else if w = 2 then 25 # be_bytes 2 (unat x)
      else if w = 4 then 26 # be_bytes 4 (unat x)
      else 27 # be_bytes 8 (unat x))"

fun cbor_encode :: "cval \<Rightarrow> bytes" where
  "cbor_encode (CUint w x) = cbor_uint_bytes w x"
| "cbor_encode (CBytes b) = cbor_head 2 (length b) @ b"
| "cbor_encode (CArray xs) = cbor_head 4 (length xs) @ concat (map cbor_encode xs)"
| "cbor_encode (CIndef xs) = 0x9F # concat (map cbor_encode xs) @ [0xFF]"

fun wf_cval :: "cval \<Rightarrow> bool" where
  "wf_cval (CUint w x) = (w \<in> {1, 2, 4, 8} \<and> unat x < 256 ^ w)"
| "wf_cval (CBytes b) = (length b < 2 ^ 64)"
| "wf_cval (CArray xs) = (length xs < 2 ^ 64 \<and> (\<forall>x \<in> set xs. wf_cval x))"
| "wf_cval (CIndef xs) = (\<forall>x \<in> set xs. wf_cval x)"

lemma length_cbor_head_le: "length (cbor_head m n) \<le> 9"
  by (simp add: cbor_head_def)

lemma length_cbor_uint [simp]:
  "length (cbor_uint_bytes 2 x) = 3"
  "length (cbor_uint_bytes 4 x) = 5"
  "length (cbor_uint_bytes 8 x) = 9"
  by (simp_all add: cbor_uint_bytes_def)

section \<open>The interface\<close>

record 'i cbor_api =
  cbor_build_uint8 :: "u8 \<Rightarrow> 'i"
  cbor_build_uint16 :: "u16 \<Rightarrow> 'i"
  cbor_build_uint32 :: "u32 \<Rightarrow> 'i"
  cbor_build_uint64 :: "u64 \<Rightarrow> 'i"
  cbor_build_bytestring :: "bytes \<Rightarrow> 'i"
  cbor_new_definite_array :: "nat \<Rightarrow> 'i"
  cbor_new_indefinite_array :: "'i"
  cbor_array_push :: "'i \<Rightarrow> 'i \<Rightarrow> bool \<times> 'i"
  cbor_array_allocated :: "'i \<Rightarrow> nat"
  cbor_isa_uint :: "'i \<Rightarrow> bool"
  cbor_isa_bytestring :: "'i \<Rightarrow> bool"
  cbor_isa_array :: "'i \<Rightarrow> bool"
  cbor_get_uint32 :: "'i \<Rightarrow> u32"
  cbor_get_int :: "'i \<Rightarrow> u64"
  cbor_bytestring_handle :: "'i \<Rightarrow> bytes"
  cbor_array_size :: "'i \<Rightarrow> nat"
  cbor_array_get :: "'i \<Rightarrow> nat \<Rightarrow> 'i"
  cbor_serialize :: "'i \<Rightarrow> bytes"
  cbor_load :: "bytes \<Rightarrow> 'i option"

definition cbor_bytestring_length :: "('i, 'm) cbor_api_scheme \<Rightarrow> 'i \<Rightarrow> nat" where
  "cbor_bytestring_length C i = length (cbor_bytestring_handle C i)"

text \<open>The idiom \<open>success &= cbor_array_push(array, item)\<close> over a list of items, and
  the array built by it: \<open>NULL\<close> (\<open>None\<close>) when a push failed.\<close>

primrec cbor_push_all :: "('i, 'm) cbor_api_scheme \<Rightarrow> bool \<times> 'i \<Rightarrow> 'i list \<Rightarrow> bool \<times> 'i" where
  "cbor_push_all C s [] = s"
| "cbor_push_all C s (x # xs) =
     cbor_push_all C (case cbor_array_push C (snd s) x of (ok, a) \<Rightarrow> (fst s \<and> ok, a)) xs"

definition cbor_build_array :: "('i, 'm) cbor_api_scheme \<Rightarrow> nat \<Rightarrow> 'i list \<Rightarrow> 'i option" where
  "cbor_build_array C n xs =
     (case cbor_push_all C (True, cbor_new_definite_array C n) xs of
        (ok, a) \<Rightarrow> if ok then Some a else None)"

locale libcbor =
  fixes C :: "('i, 'm) cbor_api_scheme"
    and cv :: "'i \<Rightarrow> cval"
  assumes cv_uint8: "cv (cbor_build_uint8 C x8) = CUint 1 (ucast x8)"
    and cv_uint16: "cv (cbor_build_uint16 C x16) = CUint 2 (ucast x16)"
    and cv_uint32: "cv (cbor_build_uint32 C x32) = CUint 4 (ucast x32)"
    and cv_uint64: "cv (cbor_build_uint64 C x64) = CUint 8 x64"
    and cv_bytestring: "cv (cbor_build_bytestring C b) = CBytes b"
    and cv_definite: "cv (cbor_new_definite_array C n) = CArray []"
    and cv_indefinite: "cv (cbor_new_indefinite_array C) = CIndef []"
    and allocated_definite: "cbor_array_allocated C (cbor_new_definite_array C n) = n"
    and push_definite: "cv a = CArray xs \<Longrightarrow> length xs < cbor_array_allocated C a \<Longrightarrow>
          \<exists>a'. cbor_array_push C a x = (True, a') \<and> cv a' = CArray (xs @ [cv x]) \<and>
               cbor_array_allocated C a' = cbor_array_allocated C a"
    and push_full: "cv a = CArray xs \<Longrightarrow> cbor_array_allocated C a \<le> length xs \<Longrightarrow>
          cbor_array_push C a x = (False, a)"
    and push_indefinite: "cv a = CIndef xs \<Longrightarrow>
          \<exists>a'. cbor_array_push C a x = (True, a') \<and> cv a' = CIndef (xs @ [cv x])"
    and isa_uint: "cbor_isa_uint C i \<longleftrightarrow> (\<exists>w v. cv i = CUint w v)"
    and isa_bytestring: "cbor_isa_bytestring C i \<longleftrightarrow> (\<exists>b. cv i = CBytes b)"
    and isa_array: "cbor_isa_array C i \<longleftrightarrow> (\<exists>xs. cv i = CArray xs \<or> cv i = CIndef xs)"
    and get_uint32: "cv i = CUint 4 v \<Longrightarrow> cbor_get_uint32 C i = ucast v"
    and get_int: "cv i = CUint w v \<Longrightarrow> cbor_get_int C i = v"
    and bytestring_handle: "cv i = CBytes b \<Longrightarrow> cbor_bytestring_handle C i = b"
    and array_size: "cv i = CArray xs \<or> cv i = CIndef xs \<Longrightarrow> cbor_array_size C i = length xs"
    and array_get: "cv i = CArray xs \<or> cv i = CIndef xs \<Longrightarrow> k < length xs \<Longrightarrow>
          cv (cbor_array_get C i k) = xs ! k"
    and serialize: "cbor_serialize C i = cbor_encode (cv i)"
    and load: "wf_cval c \<Longrightarrow> \<exists>j. cbor_load C (cbor_encode c) = Some j \<and> cv j = c"
begin

lemmas cv_build = cv_uint8 cv_uint16 cv_uint32 cv_uint64 cv_bytestring cv_definite cv_indefinite

lemma push_all_definite:
  assumes "cv a = CArray ys" and "length ys + length xs \<le> cbor_array_allocated C a"
  shows "\<exists>a'. cbor_push_all C (True, a) xs = (True, a') \<and> cv a' = CArray (ys @ map cv xs)"
  using assms
proof (induction xs arbitrary: a ys)
  case Nil
  then show ?case by simp
next
  case (Cons x xs)
  then obtain a1 where a1: "cbor_array_push C a x = (True, a1)" "cv a1 = CArray (ys @ [cv x])"
      "cbor_array_allocated C a1 = cbor_array_allocated C a"
    using push_definite [of a ys x] by auto
  then obtain a' where "cbor_push_all C (True, a1) xs = (True, a')"
      "cv a' = CArray ((ys @ [cv x]) @ map cv xs)"
    using Cons.IH [of a1 "ys @ [cv x]"] Cons.prems(2) by auto
  with a1 show ?case by simp
qed

lemma build_array:
  assumes "length xs \<le> n"
  shows "\<exists>a. cbor_build_array C n xs = Some a \<and> cv a = CArray (map cv xs)"
proof -
  obtain a where "cbor_push_all C (True, cbor_new_definite_array C n) xs = (True, a)"
      "cv a = CArray ([] @ map cv xs)"
    using push_all_definite [of "cbor_new_definite_array C n" "[]" xs] assms
    by (auto simp: allocated_definite cv_definite)
  then show ?thesis by (simp add: cbor_build_array_def)
qed

lemma push_all_indefinite:
  assumes "cv a = CIndef ys"
  shows "\<exists>a'. cbor_push_all C (True, a) xs = (True, a') \<and> cv a' = CIndef (ys @ map cv xs)"
  using assms
proof (induction xs arbitrary: a ys)
  case (Cons x xs)
  then obtain a1 where a1: "cbor_array_push C a x = (True, a1)" "cv a1 = CIndef (ys @ [cv x])"
    using push_indefinite [of a ys x] by auto
  with Cons.IH [of a1 "ys @ [cv x]"] show ?case by auto
qed simp

lemma bytestring_length: "cv i = CBytes b \<Longrightarrow> cbor_bytestring_length C i = length b"
  by (simp add: cbor_bytestring_length_def bytestring_handle)

lemmas observe = isa_uint isa_bytestring isa_array get_uint32 get_int bytestring_handle
  bytestring_length array_size array_get

lemma load_serialize: "wf_cval (cv i) \<Longrightarrow> \<exists>j. cbor_load C (cbor_serialize C i) = Some j \<and> cv j = cv i"
  using load [of "cv i"] by (simp add: serialize)

end

section \<open>An RFC 8949 codec that meets the contract\<close>

definition take_be :: "nat \<Rightarrow> bytes \<Rightarrow> (nat \<times> bytes) option" where
  "take_be n bs = (if length bs < n then None else Some (be_nat (take n bs), drop n bs))"

definition cbor_arg :: "nat \<Rightarrow> bytes \<Rightarrow> (nat \<times> bytes) option" where
  "cbor_arg ai bs =
     (if ai < 24 then Some (ai, bs) else if ai = 24 then take_be 1 bs
      else if ai = 25 then take_be 2 bs else if ai = 26 then take_be 4 bs
      else if ai = 27 then take_be 8 bs else None)"

definition cbor_width :: "nat \<Rightarrow> nat" where
  "cbor_width ai = (if ai = 25 then 2 else if ai = 26 then 4 else if ai = 27 then 8 else 1)"

fun cbor_decode :: "nat \<Rightarrow> bytes \<Rightarrow> (cval \<times> bytes) option"
  and cbor_decode_n :: "nat \<Rightarrow> nat \<Rightarrow> bytes \<Rightarrow> (cval list \<times> bytes) option"
  and cbor_decode_until :: "nat \<Rightarrow> bytes \<Rightarrow> (cval list \<times> bytes) option"
  where
  "cbor_decode 0 bs = None"
| "cbor_decode (Suc f) [] = None"
| "cbor_decode (Suc f) (b # bs) =
     (let m = unat b div 32; ai = unat b mod 32 in
      if m = 0 then map_option (\<lambda>(v, r). (CUint (cbor_width ai) (of_nat v), r)) (cbor_arg ai bs)
      else if m = 2 then Option.bind (cbor_arg ai bs)
        (\<lambda>(n, r). if length r < n then None else Some (CBytes (take n r), drop n r))
      else if m = 4 \<and> ai = 31 then map_option (\<lambda>(xs, r). (CIndef xs, r)) (cbor_decode_until f bs)
      else if m = 4 then Option.bind (cbor_arg ai bs)
        (\<lambda>(n, r). map_option (\<lambda>(xs, r'). (CArray xs, r')) (cbor_decode_n f n r))
      else None)"
| "cbor_decode_n f 0 bs = Some ([], bs)"
| "cbor_decode_n 0 (Suc n) bs = None"
| "cbor_decode_n (Suc f) (Suc n) bs = Option.bind (cbor_decode f bs)
     (\<lambda>(x, r). map_option (\<lambda>(xs, r'). (x # xs, r')) (cbor_decode_n f n r))"
| "cbor_decode_until 0 bs = None"
| "cbor_decode_until (Suc f) bs =
     (if bs \<noteq> [] \<and> hd bs = 0xFF then Some ([], tl bs)
      else Option.bind (cbor_decode f bs)
        (\<lambda>(x, r). map_option (\<lambda>(xs, r'). (x # xs, r')) (cbor_decode_until f r)))"

lemma take_be_be_bytes [simp]: "x < 256 ^ n \<Longrightarrow> take_be n (be_bytes n x @ r) = Some (x, r)"
  by (simp add: take_be_def)

lemma unat_head_byte:
  "m < 8 \<Longrightarrow> a < 32 \<Longrightarrow> unat (of_nat (32 * m + a) :: u8) = 32 * m + a"
  unfolding unat_of_nat by simp

lemma head_byte_split: "(a::nat) < 32 \<Longrightarrow> (32 * m + a) div 32 = m \<and> (32 * m + a) mod 32 = a"
  by simp

text \<open>A head decodes to its major type and argument.\<close>

lemma cbor_head_shape:
  assumes "n < 2 ^ 64" "m < 8"
  shows "\<exists>b r ai. cbor_head m n = b # r \<and> unat b = 32 * m + ai \<and> ai < 28 \<and>
           (\<forall>rest. cbor_arg ai (r @ rest) = Some (n, rest))"
proof -
  have small: "n < 24 \<or> 24 \<le> n \<and> n < 2 ^ 8 \<or> 2 ^ 8 \<le> n \<and> n < 2 ^ 16 \<or>
      2 ^ 16 \<le> n \<and> n < 2 ^ 32 \<or> 2 ^ 32 \<le> n \<and> n < 2 ^ 64"
    using assms(1) by linarith
  note u = unat_head_byte [OF assms(2)]
  from small show ?thesis
  proof (elim disjE conjE)
    assume "n < 24"
    then show ?thesis using u [of n] by (simp add: cbor_head_def cbor_arg_def)
  next
    assume "24 \<le> n" "n < 2 ^ 8"
    then show ?thesis using u [of 24] by (simp add: cbor_head_def cbor_arg_def)
  next
    assume "2 ^ 8 \<le> n" "n < 2 ^ 16"
    then show ?thesis using u [of 25] by (simp add: cbor_head_def cbor_arg_def)
  next
    assume "2 ^ 16 \<le> n" "n < 2 ^ 32"
    then show ?thesis using u [of 26] by (simp add: cbor_head_def cbor_arg_def)
  next
    assume "2 ^ 32 \<le> n" "n < 2 ^ 64"
    then show ?thesis using u [of 27] by (simp add: cbor_head_def cbor_arg_def)
  qed
qed

lemma cbor_uint_shape:
  assumes "wf_cval (CUint w x)"
  shows "\<exists>b r. cbor_uint_bytes w x = b # r \<and> unat b < 28 \<and> cbor_width (unat b) = w \<and>
           (\<forall>rest. cbor_arg (unat b) (r @ rest) = Some (unat x, rest))"
proof (cases "w = 1 \<and> unat x < 24")
  case True
  then have "unat (of_nat (unat x) :: u8) = unat x" unfolding unat_of_nat by simp
  with True show ?thesis by (simp add: cbor_uint_bytes_def cbor_width_def cbor_arg_def)
next
  case False
  with assms show ?thesis by (auto simp: cbor_uint_bytes_def cbor_width_def cbor_arg_def)
qed

lemma cbor_encode_first:
  assumes "wf_cval v"
  shows "\<exists>b r. cbor_encode v = b # r \<and> b \<noteq> 0xFF"
proof (cases v)
  case (CUint w x)
  with assms cbor_uint_shape [of w x] obtain b r where
    "cbor_uint_bytes w x = b # r" "unat b < 28" by auto
  with CUint show ?thesis by auto
next
  case (CBytes b)
  with assms cbor_head_shape [of "length b" 2] show ?thesis by fastforce
next
  case (CArray xs)
  with assms cbor_head_shape [of "length xs" 4] show ?thesis by fastforce
next
  case (CIndef xs)
  then show ?thesis by simp
qed

lemma cbor_decode_encode:
  "wf_cval v \<Longrightarrow> 2 * length (cbor_encode v) \<le> f \<Longrightarrow>
     cbor_decode f (cbor_encode v @ rest) = Some (v, rest)"
proof (induction v arbitrary: f rest)
  case (CUint w x)
  then obtain b r where sh: "cbor_uint_bytes w x = b # r" "unat b < 28"
      "cbor_width (unat b) = w" "cbor_arg (unat b) (r @ rest) = Some (unat x, rest)"
    using cbor_uint_shape [of w x] by auto
  with CUint.prems obtain f' where "f = Suc f'" by (cases f) auto
  with sh show ?case by (simp add: Let_def)
next
  case (CBytes bs)
  then obtain b r ai where sh: "cbor_head 2 (length bs) = b # r" "unat b = 64 + ai" "ai < 28"
      "cbor_arg ai (r @ bs @ rest) = Some (length bs, bs @ rest)"
    using cbor_head_shape [of "length bs" 2] by fastforce
  with CBytes.prems obtain f' where "f = Suc f'" by (cases f) auto
  moreover have "(64 + ai) div 32 = 2" "(64 + ai) mod 32 = ai"
    using sh(3) head_byte_split [of ai 2] by simp_all
  ultimately show ?case using sh by (simp add: Let_def)
next
  case (CArray xs)
  have list: "\<forall>x \<in> set ys. wf_cval x \<Longrightarrow> set ys \<subseteq> set xs \<Longrightarrow>
      2 * length (concat (map cbor_encode ys)) + 1 \<le> g \<Longrightarrow>
      cbor_decode_n g (length ys) (concat (map cbor_encode ys) @ rest) = Some (ys, rest)" for ys g
  proof (induction ys arbitrary: g)
    case (Cons y ys)
    then obtain g' where g: "g = Suc g'" by (cases g) auto
    from Cons.prems cbor_encode_first [of y] obtain b r where "cbor_encode y = b # r" by auto
    with Cons.prems(3) g have "2 * length (concat (map cbor_encode ys)) + 1 \<le> g'" by simp
    with Cons g CArray.IH [of y g' "concat (map cbor_encode ys) @ rest"] show ?case by simp
  qed simp
  obtain b r ai where sh: "cbor_head 4 (length xs) = b # r" "unat b = 128 + ai" "ai < 28"
      "cbor_arg ai (r @ concat (map cbor_encode xs) @ rest) =
         Some (length xs, concat (map cbor_encode xs) @ rest)"
    using cbor_head_shape [of "length xs" 4] CArray.prems by fastforce
  with CArray.prems obtain f' where f: "f = Suc f'" by (cases f) auto
  moreover have "(128 + ai) div 32 = 4" "(128 + ai) mod 32 = ai"
    using sh(3) head_byte_split [of ai 4] by simp_all
  moreover have "cbor_decode_n f' (length xs) (concat (map cbor_encode xs) @ rest) = Some (xs, rest)"
    using list [of xs f'] CArray.prems f sh(1) by simp
  ultimately show ?case using sh by (simp add: Let_def)
next
  case (CIndef xs)
  have list: "\<forall>x \<in> set ys. wf_cval x \<Longrightarrow> set ys \<subseteq> set xs \<Longrightarrow>
      2 * length (concat (map cbor_encode ys)) + 1 \<le> g \<Longrightarrow>
      cbor_decode_until g (concat (map cbor_encode ys) @ 0xFF # rest) = Some (ys, rest)" for ys g
  proof (induction ys arbitrary: g)
    case Nil
    then obtain g' where "g = Suc g'" by (cases g) auto
    then show ?case by simp
  next
    case (Cons y ys)
    then obtain g' where g: "g = Suc g'" by (cases g) auto
    from Cons.prems cbor_encode_first [of y] obtain b r where
      "cbor_encode y = b # r" "b \<noteq> 0xFF" by auto
    with Cons g CIndef.IH [of y g' "concat (map cbor_encode ys) @ 0xFF # rest"] show ?case by simp
  qed
  from CIndef.prems obtain f' where f: "f = Suc f'" by (cases f) auto
  have "cbor_decode_until f' (concat (map cbor_encode xs) @ 0xFF # rest) = Some (xs, rest)"
    using list [of xs f'] CIndef.prems f by simp
  with f show ?case by (simp add: Let_def)
qed

text \<open>Items of the codec: the allocation of a definite array with its value.\<close>

definition rfc8949_api :: "(nat \<times> cval) cbor_api" where
  "rfc8949_api = \<lparr>
     cbor_build_uint8 = (\<lambda>x. (0, CUint 1 (ucast x))),
     cbor_build_uint16 = (\<lambda>x. (0, CUint 2 (ucast x))),
     cbor_build_uint32 = (\<lambda>x. (0, CUint 4 (ucast x))),
     cbor_build_uint64 = (\<lambda>x. (0, CUint 8 x)),
     cbor_build_bytestring = (\<lambda>b. (0, CBytes b)),
     cbor_new_definite_array = (\<lambda>n. (n, CArray [])),
     cbor_new_indefinite_array = (0, CIndef []),
     cbor_array_push = (\<lambda>(n, a) (_, x). case a of
         CArray xs \<Rightarrow> if length xs < n then (True, (n, CArray (xs @ [x]))) else (False, (n, a))
       | CIndef xs \<Rightarrow> (True, (n, CIndef (xs @ [x])))
       | _ \<Rightarrow> (False, (n, a))),
     cbor_array_allocated = fst,
     cbor_isa_uint = (\<lambda>(_, v). case v of CUint _ _ \<Rightarrow> True | _ \<Rightarrow> False),
     cbor_isa_bytestring = (\<lambda>(_, v). case v of CBytes _ \<Rightarrow> True | _ \<Rightarrow> False),
     cbor_isa_array = (\<lambda>(_, v). case v of CArray _ \<Rightarrow> True | CIndef _ \<Rightarrow> True | _ \<Rightarrow> False),
     cbor_get_uint32 = (\<lambda>(_, v). case v of CUint _ x \<Rightarrow> ucast x | _ \<Rightarrow> 0),
     cbor_get_int = (\<lambda>(_, v). case v of CUint _ x \<Rightarrow> x | _ \<Rightarrow> 0),
     cbor_bytestring_handle = (\<lambda>(_, v). case v of CBytes b \<Rightarrow> b | _ \<Rightarrow> []),
     cbor_array_size = (\<lambda>(_, v). case v of CArray xs \<Rightarrow> length xs | CIndef xs \<Rightarrow> length xs | _ \<Rightarrow> 0),
     cbor_array_get = (\<lambda>(_, v) k. (0, case v of CArray xs \<Rightarrow> xs ! k | CIndef xs \<Rightarrow> xs ! k | _ \<Rightarrow> v)),
     cbor_serialize = (\<lambda>(_, v). cbor_encode v),
     cbor_load = (\<lambda>bs. map_option (\<lambda>(v, _). (0, v)) (cbor_decode (2 * length bs) bs))\<rparr>"

interpretation rfc8949: libcbor rfc8949_api snd
proof (unfold_locales, goal_cases)
  case (21 c)
  then show ?case
    using cbor_decode_encode [of c "2 * length (cbor_encode c)" "[]"]
    by (auto simp: rfc8949_api_def)
qed (auto simp: rfc8949_api_def split: cval.splits prod.splits)

end
