(* ===== verification/Buffer.thy ===== *)
theory Buffer
  imports Cbor "HOL-Library.Multiset"
begin

unbundle bit_operations_syntax

text \<open>
  \<open>Buffer/buffer.c\<close>: the byte buffers that carry hashes, blocks and serialized records. A
  buffer is its allocation, the number of bytes in use and the recorded capacity; its content
  \<open>buffer_bytes\<close> is what the other components see. Reference counting is not modelled: a
  buffer is a value.
\<close>

section \<open>State and operations\<close>

record buffer_t =
  buf_data :: bytes
  buf_size :: nat
  buf_capacity :: nat

definition buffer_bytes :: "buffer_t \<Rightarrow> bytes" where
  "buffer_bytes b = take (buf_size b) (buf_data b)"

definition buffer_wf :: "buffer_t \<Rightarrow> bool" where
  "buffer_wf b \<longleftrightarrow> length (buf_data b) = buf_capacity b \<and> buf_size b \<le> buf_capacity b"

definition buffer_create :: "nat \<Rightarrow> buffer_t" where
  "buffer_create n = \<lparr>buf_data = replicate n 0, buf_size = n, buf_capacity = n\<rparr>"

definition buffer_create_with_capacity :: "nat \<Rightarrow> nat \<Rightarrow> buffer_t" where
  "buffer_create_with_capacity n c = \<lparr>buf_data = replicate c 0, buf_size = n, buf_capacity = c\<rparr>"

text \<open>The doubling loop of \<open>buffer_ensure_capacity\<close>, on 64-bit \<open>size_t\<close> arithmetic:
  the product wraps, so the loop need not end.\<close>

partial_function (option) grow_capacity :: "nat \<Rightarrow> nat \<Rightarrow> nat option" where
  [code]: "grow_capacity c needed =
     (if c < needed then grow_capacity (c * 2 mod 2 ^ 64) needed else Some c)"

text \<open>\<open>realloc\<close> keeps the old bytes and leaves the new ones indeterminate
  (\<open>junk\<close>); an allocation failure aborts the process and has no result.\<close>

definition buffer_ensure_capacity :: "(nat \<Rightarrow> u8) \<Rightarrow> buffer_t \<Rightarrow> nat \<Rightarrow> buffer_t option" where
  "buffer_ensure_capacity junk b needed =
     (if needed \<le> buf_capacity b then Some b
      else map_option
        (\<lambda>c. b\<lparr>buf_data := buf_data b @ map junk [length (buf_data b)..<c], buf_capacity := c\<rparr>)
        (grow_capacity (if buf_capacity b = 0 then needed else buf_capacity b) needed))"

definition buffer_copy_from_pointer :: "buffer_t \<Rightarrow> bytes \<Rightarrow> nat \<Rightarrow> buffer_t" where
  "buffer_copy_from_pointer b src n =
     (let m = (if n < buf_size b then n else buf_size b) in b\<lparr>buf_data := take m src @ drop m (buf_data b)\<rparr>)"

definition buffer_create_from_pointer_copy :: "(nat \<Rightarrow> u8) \<Rightarrow> bytes \<Rightarrow> nat \<Rightarrow> buffer_t" where
  "buffer_create_from_pointer_copy junk src n =
     buffer_copy_from_pointer \<lparr>buf_data = map junk [0..<n], buf_size = n, buf_capacity = n\<rparr> src n"

definition buffer_create_from_existing_memory :: "bytes \<Rightarrow> nat \<Rightarrow> buffer_t" where
  "buffer_create_from_existing_memory src n = \<lparr>buf_data = src, buf_size = n, buf_capacity = n\<rparr>"

definition buffer_copy :: "(nat \<Rightarrow> u8) \<Rightarrow> buffer_t option \<Rightarrow> buffer_t option" where
  "buffer_copy junk ob = (case ob of None \<Rightarrow> None
     | Some b \<Rightarrow> Some (buffer_create_from_pointer_copy junk (buf_data b) (buf_size b)))"

definition memcpy_at :: "bytes \<Rightarrow> nat \<Rightarrow> bytes \<Rightarrow> nat \<Rightarrow> bytes" where
  "memcpy_at dst off src n = take off dst @ take n src @ drop (off + n) dst"

definition buffer_concat :: "buffer_t \<Rightarrow> buffer_t \<Rightarrow> buffer_t" where
  "buffer_concat b1 b2 =
     (let b = buffer_create (buf_size b1 + buf_size b2);
          d1 = memcpy_at (buf_data b) 0 (buf_data b1) (buf_size b1)
      in b\<lparr>buf_data := memcpy_at d1 (buf_size b1) (buf_data b2) (buf_size b2)\<rparr>)"

text \<open>Indexing has no bounds check; outside the allocation the result is undefined.\<close>

definition buffer_get_index :: "buffer_t \<Rightarrow> nat \<Rightarrow> u8 option" where
  "buffer_get_index b i = (if i < length (buf_data b) then Some (buf_data b ! i) else None)"

definition buffer_set_index :: "buffer_t \<Rightarrow> nat \<Rightarrow> u8 \<Rightarrow> buffer_t option" where
  "buffer_set_index b i v =
     (if i < length (buf_data b) then Some (b\<lparr>buf_data := (buf_data b)[i := v]\<rparr>) else None)"

definition buffer_slice :: "(nat \<Rightarrow> u8) \<Rightarrow> buffer_t \<Rightarrow> nat \<Rightarrow> nat \<Rightarrow> buffer_t option" where
  "buffer_slice junk b start stop =
     (if stop < start then None
      else if buf_size b < stop then None
      else if buf_size b < start then None
      else Some (buffer_create_from_pointer_copy junk (drop start (buf_data b)) (stop - start)))"

text \<open>The three binary operations share one loop pair: the common prefix is combined bytewise,
  the rest of the longer operand with zero.\<close>

definition buffer_bitop :: "(u8 \<Rightarrow> u8 \<Rightarrow> u8) \<Rightarrow> buffer_t \<Rightarrow> buffer_t \<Rightarrow> buffer_t" where
  "buffer_bitop f b1 b2 =
     (let n = (if buf_size b1 < buf_size b2 then buf_size b2 else buf_size b1);
          mn = (if buf_size b2 < buf_size b1 then buf_size b2 else buf_size b1);
          largest = (if buf_size b2 < buf_size b1 then b1 else b2);
          r = buffer_create n;
          d1 = fold (\<lambda>i d. d[i := f (buf_data b1 ! i) (buf_data b2 ! i)]) [0..<mn] (buf_data r);
          d2 = fold (\<lambda>i d. d[i := f (buf_data largest ! i) 0]) [mn..<buf_size largest] d1
      in r\<lparr>buf_data := d2\<rparr>)"

definition buffer_xor :: "buffer_t \<Rightarrow> buffer_t \<Rightarrow> buffer_t" where
  "buffer_xor = buffer_bitop (XOR)"

definition buffer_or :: "buffer_t \<Rightarrow> buffer_t \<Rightarrow> buffer_t" where
  "buffer_or = buffer_bitop (OR)"

definition buffer_and :: "buffer_t \<Rightarrow> buffer_t \<Rightarrow> buffer_t" where
  "buffer_and = buffer_bitop (AND)"

definition buffer_not :: "buffer_t \<Rightarrow> buffer_t" where
  "buffer_not b =
     (let r = buffer_create (buf_size b)
      in r\<lparr>buf_data := fold (\<lambda>i d. d[i := NOT (buf_data b ! i)]) [0..<buf_size b] (buf_data r)\<rparr>)"

primrec compare_loop :: "bytes \<Rightarrow> bytes \<Rightarrow> int \<Rightarrow> nat list \<Rightarrow> int" where
  "compare_loop d1 d2 k [] = k"
| "compare_loop d1 d2 k (i # is) =
     (if d1 ! i < d2 ! i then - 1 else if d2 ! i < d1 ! i then 1 else compare_loop d1 d2 k is)"

definition buffer_compare :: "buffer_t \<Rightarrow> buffer_t \<Rightarrow> int" where
  "buffer_compare b1 b2 =
     (let min_length = (if buf_size b1 < buf_size b2 then buf_size b1 else buf_size b2)
      in compare_loop (buf_data b1) (buf_data b2)
           (if buf_size b1 < buf_size b2 then - 1 else if buf_size b2 < buf_size b1 then 1 else 0)
           [0..<min_length])"

definition buffer_to_cbor :: "('i, 'm) cbor_api_scheme \<Rightarrow> buffer_t \<Rightarrow> 'i" where
  "buffer_to_cbor C b = cbor_build_bytestring C (take (buf_size b) (buf_data b))"

definition cbor_to_buffer :: "('i, 'm) cbor_api_scheme \<Rightarrow> (nat \<Rightarrow> u8) \<Rightarrow> 'i \<Rightarrow> buffer_t" where
  "cbor_to_buffer C junk c =
     buffer_create_from_pointer_copy junk (cbor_bytestring_handle C c) (cbor_bytestring_length C c)"

section \<open>Well-formedness and contents\<close>

lemma length_buffer_bytes [simp]: "buffer_wf b \<Longrightarrow> length (buffer_bytes b) = buf_size b"
  by (simp add: buffer_wf_def buffer_bytes_def)

lemma buffer_create_wf [offs_wf, simp]: "buffer_wf (buffer_create n)"
  by (simp add: buffer_wf_def buffer_create_def)

lemma buffer_create_from_pointer_copy_wf [offs_wf]:
  "n \<le> length src \<Longrightarrow> buffer_wf (buffer_create_from_pointer_copy junk src n)"
  by (simp add: buffer_wf_def buffer_create_from_pointer_copy_def buffer_copy_from_pointer_def)

lemma bytes_create_from_pointer_copy [offs_simps]:
  "n \<le> length src \<Longrightarrow> buffer_bytes (buffer_create_from_pointer_copy junk src n) = take n src"
  by (simp add: buffer_bytes_def buffer_create_from_pointer_copy_def buffer_copy_from_pointer_def)

lemma data_buffer_bitop:
  assumes "buffer_wf a" and "buffer_wf b"
  shows "buf_data (buffer_bitop f a b) =
    (let mn = min (buf_size a) (buf_size b); l = (if buf_size b < buf_size a then a else b) in
     map (\<lambda>i. f (buf_data a ! i) (buf_data b ! i)) [0..<mn] @
     map (\<lambda>i. f (buf_data l ! i) 0) [mn..<buf_size l])"
  using assms
  by (auto simp: buffer_bitop_def buffer_create_def fold_update_upt Let_def min_def)

lemma size_buffer_bitop [simp]: "buf_size (buffer_bitop f a b) = max (buf_size a) (buf_size b)"
  by (simp add: buffer_bitop_def buffer_create_def Let_def)

lemma buffer_bitop_wf [offs_wf]:
  assumes "buffer_wf a" and "buffer_wf b"
  shows "buffer_wf (buffer_bitop f a b)"
proof -
  have "buf_capacity (buffer_bitop f a b) = max (buf_size a) (buf_size b)"
    by (simp add: buffer_bitop_def buffer_create_def Let_def)
  with assms show ?thesis
    by (auto simp: buffer_wf_def data_buffer_bitop Let_def min_def max_def)
qed

text \<open>The content of a buffer padded with zeros to any length: the reading under which the
  operations on buffers of different sizes are the bytewise ones.\<close>

definition byte_at :: "bytes \<Rightarrow> nat \<Rightarrow> u8" where
  "byte_at xs i = (if i < length xs then xs ! i else 0)"

lemma byte_at_ext: "length xs = length ys \<Longrightarrow> (\<And>i. byte_at xs i = byte_at ys i) \<Longrightarrow> xs = ys"
  by (rule nth_equalityI, simp) (metis byte_at_def)

lemma byte_at_buffer: "buffer_wf b \<Longrightarrow> byte_at (buffer_bytes b) i = (if i < buf_size b then buf_data b ! i else 0)"
  by (simp add: byte_at_def) (simp add: buffer_bytes_def)

lemma nth_data_buffer_bitop:
  assumes "buffer_wf a" and "buffer_wf b" and "i < max (buf_size a) (buf_size b)"
  shows "buf_data (buffer_bitop f a b) ! i =
    (if i < buf_size a then if i < buf_size b then f (buf_data a ! i) (buf_data b ! i) else f (buf_data a ! i) 0
     else f (buf_data b ! i) 0)"
  using assms(3) unfolding data_buffer_bitop [OF assms(1,2)] Let_def
  by (cases "buf_size b < buf_size a") (auto simp: nth_append min_def)

lemma byte_at_bitop:
  assumes "buffer_wf a" and "buffer_wf b" and "\<And>x. f 0 x = f x 0" and "f 0 0 = 0"
  shows "byte_at (buffer_bytes (buffer_bitop f a b)) i =
    f (byte_at (buffer_bytes a) i) (byte_at (buffer_bytes b) i)"
  using nth_data_buffer_bitop [OF assms(1,2), of i f] assms(3) [of "buf_data b ! i"] assms(4)
  by (simp add: byte_at_buffer assms(1,2) buffer_bitop_wf less_max_iff_disj)

section \<open>Exclusive or over a tuple of buffers\<close>

lemma buffer_xor_wf [offs_wf]: "buffer_wf a \<Longrightarrow> buffer_wf b \<Longrightarrow> buffer_wf (buffer_xor a b)"
  by (simp add: buffer_xor_def buffer_bitop_wf)

lemma size_buffer_xor [simp]: "buf_size (buffer_xor a b) = max (buf_size a) (buf_size b)"
  by (simp add: buffer_xor_def)

lemma byte_at_xor:
  "buffer_wf a \<Longrightarrow> buffer_wf b \<Longrightarrow>
   byte_at (buffer_bytes (buffer_xor a b)) i = byte_at (buffer_bytes a) i XOR byte_at (buffer_bytes b) i"
  by (simp add: buffer_xor_def byte_at_bitop)

text \<open>XORing the buffers of a list into \<open>a\<close>, one after the other, is the XOR of their
  bytes at every position.\<close>

definition xor_bytes_at :: "nat \<Rightarrow> buffer_t list \<Rightarrow> u8 \<Rightarrow> u8" where
  "xor_bytes_at i bs x = fold (\<lambda>b y. y XOR byte_at (buffer_bytes b) i) bs x"

lemma xor_bytes_at_xor: "xor_bytes_at i bs (x XOR y) = xor_bytes_at i bs x XOR y"
proof (induction bs arbitrary: x)
  case (Cons b bs)
  have "xor_bytes_at i (b # bs) (x XOR y) = xor_bytes_at i bs ((x XOR byte_at (buffer_bytes b) i) XOR y)"
    by (simp add: xor_bytes_at_def ac_simps)
  then show ?case by (simp add: Cons.IH) (simp add: xor_bytes_at_def)
qed (simp add: xor_bytes_at_def)

lemma xor_bytes_at_twice: "xor_bytes_at i bs (xor_bytes_at i bs x) = x"
proof (induction bs arbitrary: x)
  case (Cons b bs)
  have "xor_bytes_at i (b # bs) (xor_bytes_at i (b # bs) x)
      = xor_bytes_at i bs (xor_bytes_at i bs (x XOR byte_at (buffer_bytes b) i)
          XOR byte_at (buffer_bytes b) i)"
    by (simp add: xor_bytes_at_def)
  also have "\<dots> = x"
    by (simp add: xor_bytes_at_xor Cons.IH ac_simps)
  finally show ?case .
qed (simp add: xor_bytes_at_def)

lemma xor_bytes_at_perm: "mset bs = mset cs \<Longrightarrow> xor_bytes_at i bs = xor_bytes_at i cs"
  unfolding xor_bytes_at_def by (rule ext, rule fun_cong, rule fold_multiset_equiv) (auto simp: fun_eq_iff ac_simps)

lemma fold_buffer_xor:
  assumes "buffer_wf a" and "\<forall>b \<in> set bs. buffer_wf b"
  defines "r \<equiv> fold (\<lambda>b a. buffer_xor a b) bs a"
  shows "buffer_wf r" and "buf_size a \<le> buf_size r"
    and "(\<forall>b \<in> set bs. buf_size b \<le> buf_size a) \<Longrightarrow> buf_size r = buf_size a"
    and "byte_at (buffer_bytes r) i = xor_bytes_at i bs (byte_at (buffer_bytes a) i)"
proof -
  have "buffer_wf r \<and> buf_size a \<le> buf_size r \<and> ((\<forall>b \<in> set bs. buf_size b \<le> buf_size a) \<longrightarrow> buf_size r = buf_size a) \<and>
      byte_at (buffer_bytes r) i = xor_bytes_at i bs (byte_at (buffer_bytes a) i)"
    using assms(1,2) unfolding r_def
  proof (induction bs arbitrary: a)
    case (Cons b bs)
    have "buffer_wf (buffer_xor a b)" using Cons.prems by (simp add: buffer_xor_wf)
    note IH = Cons.IH [OF this]
    from IH Cons.prems have "buf_size a \<le> buf_size (fold (\<lambda>b a. buffer_xor a b) (b # bs) a)"
      by simp
    with IH Cons.prems show ?case
      by (auto simp: xor_bytes_at_def byte_at_xor max_absorb1)
  qed (simp add: xor_bytes_at_def)
  then show "buffer_wf r" "buf_size a \<le> buf_size r"
      "(\<forall>b \<in> set bs. buf_size b \<le> buf_size a) \<Longrightarrow> buf_size r = buf_size a"
      "byte_at (buffer_bytes r) i = xor_bytes_at i bs (byte_at (buffer_bytes a) i)"
    by blast+
qed

text \<open>C23. Recovery from a tuple: XORing a list of randomizer buffers into a source buffer, and
  then the same randomizers again in any order, gives the source bytes back.\<close>

theorem buffer_xor_tuple_recovers:
  assumes "buffer_wf a" and "\<forall>b \<in> set bs. buffer_wf b \<and> buf_size b \<le> buf_size a" and "mset cs = mset bs"
  shows "buffer_bytes (fold (\<lambda>b a. buffer_xor a b) cs (fold (\<lambda>b a. buffer_xor a b) bs a))
       = buffer_bytes a"
proof -
  let ?r = "fold (\<lambda>b a. buffer_xor a b) bs a"
  have bs: "\<forall>b \<in> set bs. buffer_wf b" "\<forall>b \<in> set bs. buf_size b \<le> buf_size a" using assms(2) by auto
  have cs: "\<forall>b \<in> set cs. buffer_wf b" "\<forall>b \<in> set cs. buf_size b \<le> buf_size a"
    using bs mset_eq_setD [OF assms(3)] by auto
  note r = fold_buffer_xor [OF assms(1) bs(1)]
  have "buf_size ?r = buf_size a" by (rule r(3) [OF bs(2)])
  moreover note q = fold_buffer_xor [OF r(1) cs(1)]
  ultimately have "buf_size (fold (\<lambda>b a. buffer_xor a b) cs ?r) = buf_size a"
    using q(3) cs(2) by simp
  then show ?thesis
    using assms(1) q(1)
    by (intro byte_at_ext) (simp_all add: q(4) r(4) xor_bytes_at_perm [OF assms(3)] xor_bytes_at_twice)
qed

theorem buffer_xor_tuple_recovers_witness:
  "let a = buffer_create_from_existing_memory [1, 2, 3] 3;
       b = buffer_create_from_existing_memory [7, 9] 2;
       c = buffer_create_from_existing_memory [255, 0, 4] 3
   in buffer_bytes (fold (\<lambda>b a. buffer_xor a b) [c, b] (fold (\<lambda>b a. buffer_xor a b) [b, c] a))
        = [1, 2, 3]"
  using buffer_xor_tuple_recovers
    [of "buffer_create_from_existing_memory [1, 2, 3] 3"
        "[buffer_create_from_existing_memory [7, 9] 2, buffer_create_from_existing_memory [255, 0, 4] 3]"
        "[buffer_create_from_existing_memory [255, 0, 4] 3, buffer_create_from_existing_memory [7, 9] 2]"]
  by (simp add: buffer_create_from_existing_memory_def buffer_wf_def buffer_bytes_def add_mset_commute)

section \<open>Comparison\<close>

lemma compare_loop_lex:
  assumes "length d1 = length d2 \<Longrightarrow> k = 0" and "length d1 < length d2 \<Longrightarrow> k = - 1"
    and "length d2 < length d1 \<Longrightarrow> k = 1"
  shows "i \<le> min (length d1) (length d2) \<Longrightarrow>
    compare_loop d1 d2 k [i..<min (length d1) (length d2)] =
      (if drop i d1 = drop i d2 then 0 else if ord_class.lexordp (drop i d1) (drop i d2) then - 1 else 1)"
proof (induction "min (length d1) (length d2) - i" arbitrary: i)
  case 0
  then have i: "i = min (length d1) (length d2)" by simp
  show ?case
    using assms unfolding i min_def
    by (cases "length d1 < length d2"; cases "length d2 < length d1")
      (auto simp: neq_Nil_conv [of "drop _ _"] ord_class.lexordp_simps dest: sym)
next
  case (Suc n)
  then have i: "i < length d1" "i < length d2" by auto
  from Suc.hyps(2) have "n = min (length d1) (length d2) - Suc i" by simp
  from Suc.hyps(1) [OF this] i have IH: "compare_loop d1 d2 k [Suc i..<min (length d1) (length d2)] =
      (if drop (Suc i) d1 = drop (Suc i) d2 then 0
       else if ord_class.lexordp (drop (Suc i) d1) (drop (Suc i) d2) then - 1 else 1)" by simp
  have "[i..<min (length d1) (length d2)] = i # [Suc i..<min (length d1) (length d2)]"
    using i by (simp add: upt_conv_Cons)
  with IH i show ?case
    by (auto simp: Cons_nth_drop_Suc [symmetric] ord_class.lexordp_simps)
qed

lemma compare_loop_take:
  "\<forall>i \<in> set is. i < m \<and> i < n \<Longrightarrow> compare_loop (take m d1) (take n d2) k is = compare_loop d1 d2 k is"
  by (induction "is") auto

text \<open>C37. \<open>buffer_compare\<close> decides the lexicographic order of the contents: it is 0 exactly on
  equal contents, -1 when the first is smaller (a proper prefix included) and 1 otherwise.\<close>

theorem buffer_compare_lexicographic:
  assumes "buffer_wf a" and "buffer_wf b"
  shows "buffer_compare a b =
    (if buffer_bytes a = buffer_bytes b then 0
     else if ord_class.lexordp (buffer_bytes a) (buffer_bytes b) then - 1 else 1)"
proof -
  let ?k = "if buf_size a < buf_size b then - 1 else if buf_size b < buf_size a then 1 else 0 :: int"
  have len: "length (buffer_bytes a) = buf_size a" "length (buffer_bytes b) = buf_size b"
    using assms by simp_all
  have "buffer_compare a b = compare_loop (buf_data a) (buf_data b) ?k [0..<min (buf_size a) (buf_size b)]"
    by (simp add: buffer_compare_def min_def Let_def)
  also have "\<dots> = compare_loop (buffer_bytes a) (buffer_bytes b) ?k [0..<min (buf_size a) (buf_size b)]"
    unfolding buffer_bytes_def by (rule compare_loop_take [symmetric]) simp
  finally show ?thesis
    using compare_loop_lex [of "buffer_bytes a" "buffer_bytes b" ?k 0] by (simp add: len)
qed

theorem buffer_compare_lexicographic_witness:
  "buffer_compare (buffer_create_from_existing_memory [1, 2] 2)
     (buffer_create_from_existing_memory [1, 2, 0] 3) = - 1"
  using buffer_compare_lexicographic
    [of "buffer_create_from_existing_memory [1, 2] 2" "buffer_create_from_existing_memory [1, 2, 0] 3"]
  by (simp add: buffer_create_from_existing_memory_def buffer_wf_def buffer_bytes_def
      ord_class.lexordp_simps)

section \<open>Growing\<close>

lemma grow_capacity_returns:
  assumes "0 < c" and "c < 2 ^ 64" and "needed \<le> 2 ^ 63"
  shows "\<exists>r. grow_capacity c needed = Some r \<and> needed \<le> r \<and> c \<le> r \<and> r < 2 ^ 64"
  using assms(1,2)
proof (induction "needed - c" arbitrary: c rule: less_induct)
  case less
  show ?case
  proof (cases "c < needed")
    case True
    with assms(3) have m: "c * 2 mod 2 ^ 64 = c * 2" by simp
    have "needed - c * 2 < needed - c" using less.prems True by linarith
    moreover have "0 < c * 2" using less.prems by simp
    moreover have "c * 2 < 2 ^ 64" using True assms(3) by simp
    ultimately obtain r where "grow_capacity (c * 2) needed = Some r" "needed \<le> r" "c * 2 \<le> r" "r < 2 ^ 64"
      using less.hyps [of "c * 2"] by blast
    with True m show ?thesis by (subst grow_capacity.simps) auto
  next
    case False
    with less.prems show ?thesis by (subst grow_capacity.simps) auto
  qed
qed

text \<open>From a capacity of zero the loop never returns, and doubling a power of two past
  \<open>2\<^sup>6\<^sup>4\<close> gives zero.\<close>

lemma grow_capacity_zero:
  assumes "grow_capacity c needed = Some r"
  shows "c = 0 \<longrightarrow> needed = 0"
  by (rule grow_capacity.raw_induct [OF _ assms]) (auto split: if_splits)

lemma grow_capacity_zero_diverges: "0 < needed \<Longrightarrow> grow_capacity 0 needed = None"
  using grow_capacity_zero [of 0 needed] by (cases "grow_capacity 0 needed") auto

text \<open>C38. Growing a buffer returns for every request up to \<open>2\<^sup>6\<^sup>3\<close> bytes: the
  result is well formed, has at least the requested capacity and keeps the content.\<close>

theorem buffer_ensure_capacity_returns:
  assumes "buffer_wf b" and "buf_capacity b < 2 ^ 64" and "needed \<le> 2 ^ 63"
  shows "\<exists>b'. buffer_ensure_capacity junk b needed = Some b' \<and> buffer_wf b' \<and>
    needed \<le> buf_capacity b' \<and> buf_size b' = buf_size b \<and> buffer_bytes b' = buffer_bytes b"
proof (cases "needed \<le> buf_capacity b")
  case True
  with assms show ?thesis by (simp add: buffer_ensure_capacity_def)
next
  case False
  let ?c = "if buf_capacity b = 0 then needed else buf_capacity b"
  have "0 < ?c" "?c < 2 ^ 64" using assms(2,3) False by (auto split: if_splits)
  from grow_capacity_returns [OF this assms(3)]
  obtain r where "grow_capacity ?c needed = Some r" "needed \<le> r" "?c \<le> r"
    by blast
  with False assms(1) show ?thesis
    by (auto simp: buffer_ensure_capacity_def buffer_wf_def buffer_bytes_def split: if_splits)
qed

theorem buffer_ensure_capacity_returns_witness:
  "\<exists>b'. buffer_ensure_capacity (\<lambda>i. of_nat i) (buffer_create 3) 10 = Some b' \<and> buffer_wf b' \<and>
    10 \<le> buf_capacity b' \<and> buf_size b' = 3 \<and> buffer_bytes b' = replicate 3 0"
  using buffer_ensure_capacity_returns [of "buffer_create 3" 10 "\<lambda>i. of_nat i"]
  by (simp add: buffer_create_def buffer_wf_def buffer_bytes_def)

section \<open>Copies and serialization\<close>

lemma buffer_slice_bytes:
  assumes "buffer_wf b" and "start \<le> stop" and "stop \<le> buf_size b"
  shows "\<exists>r. buffer_slice junk b start stop = Some r \<and> buffer_wf r \<and>
    buffer_bytes r = take (stop - start) (drop start (buffer_bytes b))"
  using assms
  by (auto simp: buffer_slice_def buffer_bytes_def buffer_wf_def buffer_create_from_pointer_copy_def
      buffer_copy_from_pointer_def drop_take Let_def)

lemma buffer_slice_out_of_range:
  "stop < start \<or> buf_size b < stop \<Longrightarrow> buffer_slice junk b start stop = None"
  by (auto simp: buffer_slice_def)

lemma buffer_concat_bytes:
  assumes "buffer_wf a" and "buffer_wf b"
  shows "buffer_wf (buffer_concat a b) \<and> buffer_bytes (buffer_concat a b) = buffer_bytes a @ buffer_bytes b"
  using assms
  by (simp add: buffer_concat_def memcpy_at_def buffer_create_def buffer_wf_def buffer_bytes_def Let_def)

lemma buffer_slice_concat:
  assumes "buffer_wf a" and "buffer_wf b"
  shows "\<exists>r. buffer_slice junk (buffer_concat a b) (buf_size a) (buf_size a + buf_size b) = Some r \<and>
    buffer_bytes r = buffer_bytes b"
proof -
  have "buf_size (buffer_concat a b) = buf_size a + buf_size b"
    by (simp add: buffer_concat_def buffer_create_def Let_def)
  with buffer_slice_bytes [of "buffer_concat a b" "buf_size a" "buf_size a + buf_size b" junk]
    buffer_concat_bytes [OF assms] assms
  show ?thesis by auto
qed

lemma buffer_copy_bytes:
  "buffer_wf b \<Longrightarrow> \<exists>c. buffer_copy junk (Some b) = Some c \<and> buffer_wf c \<and> buffer_bytes c = buffer_bytes b"
  by (simp add: buffer_copy_def buffer_wf_def buffer_bytes_def buffer_create_from_pointer_copy_def
      buffer_copy_from_pointer_def Let_def)

lemma buffer_set_get_index:
  assumes "buffer_set_index b i v = Some b'"
  shows "buffer_get_index b' j = (if j = i then Some v else buffer_get_index b j)"
  using assms by (auto simp: buffer_set_index_def buffer_get_index_def split: if_splits)

context libcbor
begin

lemma cbor_buffer_roundtrip:
  assumes "buffer_wf b"
  shows "buffer_bytes (cbor_to_buffer C junk (buffer_to_cbor C b)) = buffer_bytes b"
proof -
  have "cv (buffer_to_cbor C b) = CBytes (buffer_bytes b)"
    by (simp add: buffer_to_cbor_def buffer_bytes_def cv_build)
  then show ?thesis
    by (simp add: cbor_to_buffer_def observe bytes_create_from_pointer_copy)
qed

end

end
