(* ===== verification/Fibonacci.thy ===== *)
theory Fibonacci
  imports Cbor
begin

text \<open>
  \<open>BlockCache/fibonacci.c\<close>: the hit counter of an index entry. A counter at level
  \<open>fib\<close> is promoted when its count exceeds \<open>fibonacci(fib)\<close>. All fields are
  \<open>uint32_t\<close>, so the sequence wraps from \<open>fibonacci(48)\<close> on. The abstract value of a
  counter is the number of hits it has absorbed.
\<close>

section \<open>The sequence\<close>

text \<open>One pass of the loop of \<open>fibonacci\<close>, on \<open>(current, parent, grandparent)\<close>; the
  loop runs for \<open>i = 2, \<dots>, num\<close> with the bound \<open>num + 1\<close> computed in 32 bits.\<close>

primrec fibonacci_loop :: "nat \<Rightarrow> u32 \<times> u32 \<times> u32 \<Rightarrow> u32 \<times> u32 \<times> u32" where
  "fibonacci_loop 0 s = s"
| "fibonacci_loop (Suc n) s =
     fibonacci_loop n (case s of (current, parent, grandparent) \<Rightarrow>
       (parent + grandparent, parent + grandparent, parent))"

definition fibonacci :: "u32 \<Rightarrow> u32" where
  "fibonacci num =
     (if num = 1 \<or> num = 0 then num
      else fst (fibonacci_loop (unat (num + 1) - 2) (0, 1, 0)))"

text \<open>The mathematical sequence.\<close>

fun fib :: "nat \<Rightarrow> nat" where
  "fib 0 = 0"
| "fib (Suc 0) = 1"
| "fib (Suc (Suc n)) = fib (Suc n) + fib n"

lemma fibonacci_loop_fib:
  "fibonacci_loop n (x, of_nat (fib (Suc k)), of_nat (fib k)) =
     (if n = 0 then x else of_nat (fib (Suc (k + n))), of_nat (fib (Suc (k + n))), of_nat (fib (k + n)))"
proof (induction n arbitrary: x k)
  case (Suc n)
  have "fibonacci_loop (Suc n) (x, of_nat (fib (Suc k)), of_nat (fib k))
      = fibonacci_loop n (of_nat (fib (Suc (Suc k))), of_nat (fib (Suc (Suc k))), of_nat (fib (Suc k)))"
    by simp
  also have "\<dots> = (of_nat (fib (Suc (Suc k + n))), of_nat (fib (Suc (Suc k + n))), of_nat (fib (Suc k + n)))"
    unfolding Suc.IH [of _ "Suc k"] by simp
  finally show ?case by simp
qed simp

lemma unat_inc_u32: "unat (w :: u32) < 4294967295 \<Longrightarrow> unat (w + 1) = Suc (unat w)"
  by (simp add: unat_word_ariths)

lemma unat_not_max_u32: "(w :: u32) \<noteq> - 1 \<Longrightarrow> unat w < 4294967295"
proof -
  assume w: "w \<noteq> - 1"
  have "unat (- 1 :: u32) = 4294967295"
    by (simp add: unsigned_minus_1_eq_mask mask_eq_exp_minus_1)
  with w have "unat w \<noteq> 4294967295" by (simp add: unat_arith_simps(3))
  then show ?thesis using unat_u32_bound [of w] by linarith
qed

lemma fibonacci_eq_fib:
  assumes "num \<noteq> - 1"
  shows "fibonacci num = of_nat (fib (unat num))"
proof (cases "num = 1 \<or> num = 0")
  case False
  then have "unat num \<noteq> 0" "unat num \<noteq> 1"
    by (simp_all add: unat_arith_simps(3))
  then obtain n where n: "unat num = Suc (Suc n)"
    by (metis One_nat_def not0_implies_Suc)
  have "fibonacci_loop (Suc n) (0, of_nat (fib (Suc 0)), of_nat (fib 0))
      = (of_nat (fib (unat num)), of_nat (fib (unat num)), of_nat (fib (Suc n)))"
    unfolding fibonacci_loop_fib [of "Suc n" 0 0] n by simp
  moreover have "unat (num + 1) - 2 = Suc n"
    using unat_inc_u32 [OF unat_not_max_u32 [OF assms]] n by simp
  ultimately show ?thesis
    using False by (simp add: fibonacci_def)
qed (auto simp: fibonacci_def)

lemma fibonacci_max: "fibonacci (- 1) = 0"
  by (simp add: fibonacci_def)

lemma fib_mono: "m \<le> n \<Longrightarrow> fib m \<le> fib n"
proof (induction n rule: dec_induct)
  case (step n)
  then show ?case by (cases n) auto
qed simp

lemma fib_pair: "(int (fib (Suc n)), int (fib n)) = (((\<lambda>(a, b). (a + b, a)) ^^ n) (1, 0))"
proof (induction n)
  case (Suc n)
  have "((\<lambda>(a, b). (a + b, a)) ^^ Suc n) (1, 0) = (\<lambda>(a, b). (a + b, a)) (int (fib (Suc n)), int (fib n))"
    unfolding Suc.IH by simp
  then show ?case by simp
qed simp

lemma fib_47_48: "(int (fib (Suc 47)), int (fib 47)) = (4807526976, 2971215073)"
  unfolding fib_pair by code_simp

section \<open>The counter\<close>

record fibonacci_hit_counter_t =
  fib_level :: u32
  hit_count :: u32
  threshold :: u32

definition fibonacci_hit_counter_create :: fibonacci_hit_counter_t where
  "fibonacci_hit_counter_create =
     \<lparr>fib_level = 0, hit_count = 0, threshold = fibonacci 0\<rparr>"

definition fibonacci_hit_counter_from :: "u64 \<Rightarrow> u64 \<Rightarrow> fibonacci_hit_counter_t" where
  "fibonacci_hit_counter_from f c =
     \<lparr>fib_level = ucast f, hit_count = ucast c, threshold = fibonacci (ucast f)\<rparr>"

text \<open>The flag is the C return value: the counter changed level.\<close>

definition fibonacci_hit_counter_increment ::
  "fibonacci_hit_counter_t \<Rightarrow> bool \<times> fibonacci_hit_counter_t" where
  "fibonacci_hit_counter_increment c =
     (let c = c\<lparr>hit_count := hit_count c + 1\<rparr> in
      if threshold c < hit_count c
      then let f = fib_level c + 1
           in (True, c\<lparr>fib_level := f, hit_count := 0, threshold := fibonacci f\<rparr>)
      else (False, c))"

definition fibonacci_hit_counter_decrement ::
  "fibonacci_hit_counter_t \<Rightarrow> bool \<times> fibonacci_hit_counter_t" where
  "fibonacci_hit_counter_decrement c =
     (if fib_level c = 0
      then if hit_count c = 0 then (False, c)
           else (False, c\<lparr>hit_count := hit_count c - 1\<rparr>)
      else if hit_count c = 0
      then let f = fib_level c - 1; t = fibonacci f
           in (True, c\<lparr>fib_level := f, threshold := t, hit_count := t\<rparr>)
      else (False, c\<lparr>hit_count := hit_count c - 1\<rparr>))"

definition fibonacci_hit_counter_compare ::
  "fibonacci_hit_counter_t \<Rightarrow> fibonacci_hit_counter_t \<Rightarrow> int" where
  "fibonacci_hit_counter_compare c1 c2 =
     (if fib_level c2 < fib_level c1 then 1
      else if fib_level c1 < fib_level c2 then - 1
      else if hit_count c2 < hit_count c1 then 1
      else if hit_count c1 < hit_count c2 then - 1
      else 0)"

definition fibonacci_hit_counter_to_cbor ::
  "('i, 'm) cbor_api_scheme \<Rightarrow> fibonacci_hit_counter_t \<Rightarrow> 'i option" where
  "fibonacci_hit_counter_to_cbor C c =
     cbor_build_array C 3 [cbor_build_uint32 C (fib_level c), cbor_build_uint32 C (hit_count c),
       cbor_build_uint32 C (threshold c)]"

definition cbor_to_fibonacci_hit_counter ::
  "('i, 'm) cbor_api_scheme \<Rightarrow> 'i \<Rightarrow> fibonacci_hit_counter_t" where
  "cbor_to_fibonacci_hit_counter C i =
     \<lparr>fib_level = cbor_get_uint32 C (cbor_array_get C i 0),
      hit_count = cbor_get_uint32 C (cbor_array_get C i 1),
      threshold = cbor_get_uint32 C (cbor_array_get C i 2)\<rparr>"

section \<open>What a counter counts\<close>

text \<open>The number of hits absorbed: every completed level \<open>k\<close> took
  \<open>fib k + 1\<close> hits, and the current one \<open>hit_count\<close>.\<close>

definition level_hits :: "nat \<Rightarrow> nat" where
  "level_hits n = (\<Sum>k < n. fib k + 1)"

definition hits :: "fibonacci_hit_counter_t \<Rightarrow> nat" where
  "hits c = level_hits (unat (fib_level c)) + unat (hit_count c)"

text \<open>The invariant of a counter: the threshold is the one of its level, not yet exceeded, and
  the level is one whose Fibonacci number fits 32 bits.\<close>

definition counter_wf :: "fibonacci_hit_counter_t \<Rightarrow> bool" where
  "counter_wf c \<longleftrightarrow> threshold c = fibonacci (fib_level c) \<and> hit_count c \<le> threshold c \<and>
     unat (fib_level c) \<le> 47"

lemma unat_fibonacci: "unat n \<le> 47 \<Longrightarrow> unat (fibonacci n) = fib (unat n)"
proof -
  assume n: "unat n \<le> 47"
  have "unat (- 1 :: u32) = 4294967295"
    by (simp add: unsigned_minus_1_eq_mask mask_eq_exp_minus_1)
  with n have "n \<noteq> - 1" by auto
  moreover have "fib (unat n) \<le> fib 47" using n by (rule fib_mono)
  moreover have "fib 47 = 2971215073" using fib_47_48 by simp
  ultimately show ?thesis by (simp add: fibonacci_eq_fib unat_of_nat)
qed

lemma unat_threshold: "counter_wf c \<Longrightarrow> unat (threshold c) = fib (unat (fib_level c))"
  by (simp add: counter_wf_def unat_fibonacci)

lemma threshold_small: "counter_wf c \<Longrightarrow> unat (threshold c) \<le> 2971215073"
proof -
  assume w: "counter_wf c"
  then have "fib (unat (fib_level c)) \<le> fib 47" by (intro fib_mono) (simp add: counter_wf_def)
  then show ?thesis using fib_47_48 by (simp add: unat_threshold [OF w])
qed

lemma count_not_max: "counter_wf c \<Longrightarrow> unat (hit_count c + 1) = Suc (unat (hit_count c))"
proof -
  assume w: "counter_wf c"
  then have "unat (hit_count c) \<le> unat (threshold c)" by (auto simp: counter_wf_def word_le_nat_alt)
  also have "\<dots> \<le> 2971215073" by (rule threshold_small [OF w])
  finally show ?thesis by (intro unat_inc_u32) simp
qed

lemma level_not_max: "unat (fib_level c) \<le> 47 \<Longrightarrow> unat (fib_level c + 1) = Suc (unat (fib_level c))"
  by (intro unat_inc_u32) simp

lemma fibonacci_hit_counter_create_wf [offs_wf]: "counter_wf fibonacci_hit_counter_create"
  by (simp add: counter_wf_def fibonacci_hit_counter_create_def fibonacci_def)

lemma increment_stay:
  assumes "counter_wf c" and "hit_count c < threshold c"
  shows "fibonacci_hit_counter_increment c = (False, c\<lparr>hit_count := hit_count c + 1\<rparr>)"
  using assms count_not_max [OF assms(1)]
  by (simp add: fibonacci_hit_counter_increment_def Let_def word_less_nat_alt)

lemma increment_promote:
  assumes "counter_wf c" and "hit_count c = threshold c"
  shows "fibonacci_hit_counter_increment c =
    (True, c\<lparr>fib_level := fib_level c + 1, hit_count := 0, threshold := fibonacci (fib_level c + 1)\<rparr>)"
  using assms count_not_max [OF assms(1)]
  by (simp add: fibonacci_hit_counter_increment_def Let_def word_less_nat_alt)

lemmas increment_cases = increment_stay increment_promote

text \<open>C31. One increment absorbs one hit: a well-formed counter below level 47 stays well formed,
  its hits grow by one, and the returned flag says that the level went up.\<close>

theorem fibonacci_increment_counts:
  assumes "counter_wf c" and "unat (fib_level c) < 47"
  shows "case fibonacci_hit_counter_increment c of (promoted, c') \<Rightarrow>
    counter_wf c' \<and> hits c' = hits c + 1 \<and>
    unat (fib_level c') = unat (fib_level c) + (if promoted then 1 else 0)"
proof (cases "hit_count c = threshold c")
  case True
  then have "unat (hit_count c) = fib (unat (fib_level c))"
    using unat_threshold [OF assms(1)] by simp
  with assms True level_not_max [of c] show ?thesis
    by (simp add: increment_promote counter_wf_def hits_def level_hits_def)
next
  case False
  with assms(1) have lt: "hit_count c < threshold c" by (auto simp: counter_wf_def)
  with assms(1) count_not_max [OF assms(1)] show ?thesis
    by (simp add: increment_stay) (simp add: counter_wf_def hits_def word_le_nat_alt word_less_nat_alt)
qed

theorem fibonacci_increment_counts_witness:
  "case fibonacci_hit_counter_increment (fibonacci_hit_counter_from 5 5) of (promoted, c') \<Rightarrow>
    counter_wf c' \<and> hits c' = hits (fibonacci_hit_counter_from 5 5) + 1 \<and>
    unat (fib_level c') = 5 + (if promoted then 1 else 0)"
proof -
  have "counter_wf (fibonacci_hit_counter_from 5 5)" "fib_level (fibonacci_hit_counter_from 5 5) = 5"
    by code_simp+
  with fibonacci_increment_counts [of "fibonacci_hit_counter_from 5 5"] show ?thesis by simp
qed

lemma decrement_after_increment:
  assumes "counter_wf c" and "unat (fib_level c) < 47"
  shows "snd (fibonacci_hit_counter_decrement (snd (fibonacci_hit_counter_increment c))) = c"
proof (cases "hit_count c = threshold c")
  case True
  have "fib_level c + 1 \<noteq> 0"
    using level_not_max [of c] assms(2) by (metis less_imp_le nat.simps(3) unat_0)
  with assms True show ?thesis
    by (simp add: increment_promote fibonacci_hit_counter_decrement_def Let_def counter_wf_def)
next
  case False
  with assms(1) have lt: "hit_count c < threshold c" by (auto simp: counter_wf_def)
  have "hit_count c + 1 \<noteq> 0"
    using count_not_max [OF assms(1)] by (metis nat.simps(3) unat_0)
  with assms lt show ?thesis
    by (simp add: increment_stay fibonacci_hit_counter_decrement_def)
qed

text \<open>C32. A decrement takes one hit back: it undoes an increment exactly, level and threshold
  included, and on a well-formed counter it lowers the hits by one, stopping at zero.\<close>

theorem fibonacci_decrement_uncounts:
  assumes "counter_wf c"
  shows "counter_wf (snd (fibonacci_hit_counter_decrement c)) \<and>
    hits (snd (fibonacci_hit_counter_decrement c)) = hits c - 1 \<and>
    (unat (fib_level c) < 47 \<longrightarrow>
      snd (fibonacci_hit_counter_decrement (snd (fibonacci_hit_counter_increment c))) = c)"
proof -
  have dec: "unat (hit_count c - 1) = unat (hit_count c) - 1" if "hit_count c \<noteq> 0"
    using that by (rule unat_minus_one)
  have "counter_wf (snd (fibonacci_hit_counter_decrement c)) \<and>
    hits (snd (fibonacci_hit_counter_decrement c)) = hits c - 1"
  proof (cases "fib_level c = 0 \<or> hit_count c \<noteq> 0")
    case True
    with assms dec show ?thesis
      by (auto simp: fibonacci_hit_counter_decrement_def counter_wf_def hits_def word_le_nat_alt
          level_hits_def unat_gt_0 Suc_leI)
  next
    case False
    then have l: "unat (fib_level c - 1) = unat (fib_level c) - 1" "0 < unat (fib_level c)"
      by (auto simp: unat_minus_one unat_gt_0)
    then obtain n where n: "unat (fib_level c) = Suc n" by (metis gr0_implies_Suc)
    with l assms have "unat (fibonacci (fib_level c - 1)) = fib n"
      by (subst unat_fibonacci) (auto simp: counter_wf_def)
    with False l n assms show ?thesis
      by (simp add: fibonacci_hit_counter_decrement_def Let_def counter_wf_def hits_def level_hits_def)
  qed
  with decrement_after_increment [OF assms] show ?thesis by blast
qed

theorem fibonacci_decrement_uncounts_witness:
  "counter_wf (fibonacci_hit_counter_from 6 0) \<and>
   hits (snd (fibonacci_hit_counter_decrement (fibonacci_hit_counter_from 6 0)))
     = hits (fibonacci_hit_counter_from 6 0) - 1"
proof -
  have "counter_wf (fibonacci_hit_counter_from 6 0)" by code_simp
  with fibonacci_decrement_uncounts [of "fibonacci_hit_counter_from 6 0"] show ?thesis by simp
qed

lemma level_hits_mono: "m \<le> n \<Longrightarrow> level_hits m \<le> level_hits n"
  unfolding level_hits_def by (intro sum_mono2) auto

lemma hits_bounds:
  assumes "counter_wf c"
  shows "level_hits (unat (fib_level c)) \<le> hits c" and "hits c < level_hits (Suc (unat (fib_level c)))"
  using assms unat_threshold [OF assms]
  by (auto simp: hits_def level_hits_def counter_wf_def word_le_nat_alt)

lemma fib_level_less_hits:
  assumes "counter_wf c" and "counter_wf d" and "fib_level c < fib_level d"
  shows "hits c < hits d"
  using hits_bounds(2) [OF assms(1)] hits_bounds(1) [OF assms(2)]
    level_hits_mono [of "Suc (unat (fib_level c))" "unat (fib_level d)"] assms(3)
  by (simp add: word_less_nat_alt)

text \<open>C33. Comparing two counters compares the hits they have absorbed, so the ranking the
  cache evicts by is the ranking by number of hits.\<close>

theorem fibonacci_compare_hits:
  assumes "counter_wf c" and "counter_wf d"
  shows "fibonacci_hit_counter_compare c d = sgn (int (hits c) - int (hits d))"
proof -
  consider "fib_level d < fib_level c" | "fib_level c < fib_level d" | "fib_level c = fib_level d"
    by (metis linorder_neqE)
  then show ?thesis
  proof cases
    case 1
    with fib_level_less_hits [OF assms(2,1)] show ?thesis
      by (simp add: fibonacci_hit_counter_compare_def)
  next
    case 2
    with fib_level_less_hits [OF assms] show ?thesis
      by (auto simp: fibonacci_hit_counter_compare_def sgn_if)
  next
    case 3
    then show ?thesis
      by (cases "hit_count c" "hit_count d" rule: linorder_cases)
        (auto simp: fibonacci_hit_counter_compare_def hits_def word_less_def sgn_if)
  qed
qed

theorem fibonacci_compare_hits_witness:
  "fibonacci_hit_counter_compare (fibonacci_hit_counter_from 5 3) (fibonacci_hit_counter_from 4 3)
     = sgn (int (hits (fibonacci_hit_counter_from 5 3)) - int (hits (fibonacci_hit_counter_from 4 3)))"
proof -
  have "counter_wf (fibonacci_hit_counter_from 5 3)" "counter_wf (fibonacci_hit_counter_from 4 3)"
    by code_simp+
  then show ?thesis by (rule fibonacci_compare_hits)
qed

section \<open>Serialization\<close>

context libcbor
begin

lemma cv_fibonacci_hit_counter:
  "\<exists>i. fibonacci_hit_counter_to_cbor C c = Some i \<and>
     cv i = CArray [CUint 4 (ucast (fib_level c)), CUint 4 (ucast (hit_count c)), CUint 4 (ucast (threshold c))]"
  using build_array [of "[cbor_build_uint32 C (fib_level c), cbor_build_uint32 C (hit_count c),
       cbor_build_uint32 C (threshold c)]" 3]
  by (auto simp: fibonacci_hit_counter_to_cbor_def cv_build)

lemma cbor_to_fibonacci_hit_counter_of_cv:
  assumes "cv i = CArray [CUint 4 (ucast (fib_level c)), CUint 4 (ucast (hit_count c)), CUint 4 (ucast (threshold c))]"
  shows "cbor_to_fibonacci_hit_counter C i = c"
proof -
  have "cv (cbor_array_get C i 0) = CUint 4 (ucast (fib_level c))"
    "cv (cbor_array_get C i 1) = CUint 4 (ucast (hit_count c))"
    "cv (cbor_array_get C i 2) = CUint 4 (ucast (threshold c))"
    using assms by (simp_all add: array_get)
  then show ?thesis by (simp add: cbor_to_fibonacci_hit_counter_def get_uint32)
qed

end

end
