(* ===== verification/Wal.thy ===== *)
theory Wal
  imports Prelude
begin

text \<open>
  \<open>BlockCache/wal.c\<close>: the write-ahead log of the block index. A log file is a byte string;
  \<open>wal_write\<close> appends one framed record (type byte, big-endian XXH32 of the payload, payload)
  and \<open>wal_read\<close> steps through a file, falling back to the 78-byte entry payloads of older
  binaries. XXH32 is an argument (\<open>xxh\<close>). The log directory maps the numeric file names to
  contents; opening, seeking and writing succeed, and a crash is a file cut short at any byte.
\<close>

section \<open>Data\<close>

datatype wal_type_e = addition | removal | increment | ejection | metadata

fun wal_type_byte :: "wal_type_e \<Rightarrow> u8" where
  "wal_type_byte addition = 97"
| "wal_type_byte removal = 114"
| "wal_type_byte increment = 105"
| "wal_type_byte ejection = 101"
| "wal_type_byte metadata = 109"

definition wal_type_of :: "u8 \<Rightarrow> wal_type_e option" where
  "wal_type_of b = (if b = 97 then Some addition else if b = 105 then Some increment
     else if b = 109 then Some metadata else if b = 101 then Some ejection
     else if b = 114 then Some removal else None)"

type_synonym wal_dir = "nat \<Rightarrow> bytes option"

record wal_t =
  wal_id :: nat
  wal_last :: "nat option"
  wal_next_id :: nat
  wal_log_open :: bool

text \<open>A log is named by its number; \<open>last_file\<close> exists from the second log on.\<close>

definition wal_create :: "nat \<Rightarrow> wal_t" where
  "wal_create k = \<lparr>wal_id = k, wal_last = (if 1 < k then Some (k - 1) else None),
     wal_next_id = k + 1, wal_log_open = False\<rparr>"

definition wal_load :: "nat \<Rightarrow> wal_t" where
  "wal_load k = \<lparr>wal_id = k, wal_last = (if 1 < k then Some (k - 1) else None),
     wal_next_id = k + 1, wal_log_open = False\<rparr>"

definition wal_create_next :: "nat \<Rightarrow> nat option \<Rightarrow> wal_t" where
  "wal_create_next k prev = \<lparr>wal_id = k, wal_last = prev, wal_next_id = k + 1, wal_log_open = False\<rparr>"

section \<open>Writing\<close>

definition wal_frame :: "(bytes \<Rightarrow> u32) \<Rightarrow> wal_type_e \<Rightarrow> bytes \<Rightarrow> bytes" where
  "wal_frame xxh ty d = wal_type_byte ty # be_bytes 4 (unat (xxh d)) @ d"

definition wal_contents :: "wal_dir \<Rightarrow> nat \<Rightarrow> bytes" where
  "wal_contents dir k = (case dir k of None \<Rightarrow> [] | Some f \<Rightarrow> f)"

text \<open>The first write opens (and creates) the file and seeks to its end; later writes follow.\<close>

definition wal_write ::
  "(bytes \<Rightarrow> u32) \<Rightarrow> wal_t \<Rightarrow> wal_type_e \<Rightarrow> bytes \<Rightarrow> wal_dir \<Rightarrow> wal_t \<times> wal_dir" where
  "wal_write xxh w ty d dir =
     (w\<lparr>wal_log_open := True\<rparr>,
      dir(wal_id w \<mapsto> wal_contents dir (wal_id w) @ wal_frame xxh ty d))"

section \<open>Reading\<close>

datatype wal_result = WalOk wal_type_e bytes | WalErr int

abbreviation "WAL_EOF \<equiv> WalErr (- 3)"
abbreviation "WAL_ERR_SHORT_TYPE \<equiv> WalErr 1"
abbreviation "WAL_ERR_SHORT_CRC \<equiv> WalErr 2"
abbreviation "WAL_ERR_SHORT_PAYLOAD \<equiv> WalErr 3"
abbreviation "WAL_ERR_CRC \<equiv> WalErr 4"
abbreviation "WAL_ERR_UNKNOWN_TYPE \<equiv> WalErr 5"

text \<open>The reader's side of a log: whether the handle is open, the cursor and size variables of
  the caller and the sticky legacy flag. The size is kept in an \<open>int32_t\<close> and compared as a
  \<open>uint64_t\<close>, hence the two casts.\<close>

record wal_cursor =
  cur_open :: bool
  cursor :: nat
  wal_size :: u64
  legacy_entry_size :: bool

definition wal_cursor_init :: wal_cursor where
  "wal_cursor_init = \<lparr>cur_open = False, cursor = 0, wal_size = 0, legacy_entry_size = False\<rparr>"

definition file_size_u64 :: "bytes \<Rightarrow> u64" where
  "file_size_u64 f = scast (of_nat (length f) :: u32)"

definition file_read :: "bytes \<Rightarrow> nat \<Rightarrow> nat \<Rightarrow> bytes" where
  "file_read f pos n = take n (drop pos f)"

fun wal_payload_size :: "bool \<Rightarrow> wal_type_e \<Rightarrow> nat" where
  "wal_payload_size legacy addition = (if legacy then 78 else 86)"
| "wal_payload_size legacy increment = (if legacy then 78 else 86)"
| "wal_payload_size legacy metadata = 86"
| "wal_payload_size legacy ejection = 44"
| "wal_payload_size legacy removal = 34"

definition wal_read_entry_payload ::
  "(bytes \<Rightarrow> u32) \<Rightarrow> bytes \<Rightarrow> wal_cursor \<Rightarrow> wal_type_e \<Rightarrow> bytes \<Rightarrow> nat \<Rightarrow> nat \<Rightarrow> wal_result \<times> wal_cursor" where
  "wal_read_entry_payload xxh f c ty crc record_start n =
     (let buf = file_read f (record_start + 5) n in
      if length buf \<noteq> n then (WAL_ERR_SHORT_PAYLOAD, c)
      else if crc \<noteq> be_bytes 4 (unat (xxh buf)) then (WAL_ERR_CRC, c)
      else (WalOk ty buf, c\<lparr>legacy_entry_size := True, cursor := record_start + 1 + 4 + n\<rparr>))"

text \<open>\<open>wal_read\<close> from its \<open>record_start\<close> on, the handle being open.\<close>

definition wal_read_record :: "(bytes \<Rightarrow> u32) \<Rightarrow> bytes \<Rightarrow> wal_cursor \<Rightarrow> wal_result \<times> wal_cursor" where
  "wal_read_record xxh f c =
     (let record_start = cursor c;
          tb = file_read f record_start 1;
          crc = file_read f (record_start + 1) 4 in
      if length tb \<noteq> 1 then (WAL_ERR_SHORT_TYPE, c)
      else if length crc \<noteq> 4 then (WAL_ERR_SHORT_CRC, c)
      else case wal_type_of (tb ! 0) of
        None \<Rightarrow> (WAL_ERR_UNKNOWN_TYPE, c)
      | Some ty \<Rightarrow>
          let n = wal_payload_size (legacy_entry_size c) ty;
              buf = file_read f (record_start + 5) n;
              retry = (n = 86 \<and> \<not> legacy_entry_size c \<and> (ty = addition \<or> ty = increment)) in
          if length buf \<noteq> n
          then if retry then wal_read_entry_payload xxh f c ty crc record_start 78
               else (WAL_ERR_SHORT_PAYLOAD, c)
          else if crc = be_bytes 4 (unat (xxh buf))
          then (WalOk ty buf, c\<lparr>cursor := record_start + 1 + 4 + n\<rparr>)
          else if retry then wal_read_entry_payload xxh f c ty crc record_start 78
          else (WAL_ERR_CRC, c\<lparr>cursor := record_start + 1 + 4 + n\<rparr>))"

definition wal_read :: "(bytes \<Rightarrow> u32) \<Rightarrow> bytes \<Rightarrow> wal_cursor \<Rightarrow> wal_result \<times> wal_cursor" where
  "wal_read xxh f c =
     (if \<not> cur_open c
      then wal_read_record xxh f (c\<lparr>cur_open := True, cursor := 0, wal_size := file_size_u64 f\<rparr>)
      else if unat (wal_size c) \<le> cursor c then (WAL_EOF, c)
      else wal_read_record xxh f c)"

lemma length_file_read: "length (file_read f p n) = min n (length f - p)"
  by (simp add: file_read_def)

lemma file_read_complete: "0 < n \<Longrightarrow> length (file_read f p n) = n \<longleftrightarrow> p + n \<le> length f"
  by (auto simp: length_file_read min_def)

lemma wal_payload_size_pos: "0 < wal_payload_size l t"
  by (cases t) auto

lemma wal_read_record_Ok:
  assumes "wal_read_record xxh f c = (WalOk ty d, c')"
  shows "cursor c < cursor c' \<and> cursor c' \<le> length f \<and> cur_open c' = cur_open c \<and> wal_size c' = wal_size c"
  using assms unfolding wal_read_record_def wal_read_entry_payload_def Let_def
  by (auto simp: file_read_complete wal_payload_size_pos split: if_splits option.splits)

lemma wal_read_Ok_advances:
  assumes "wal_read xxh f c = (WalOk ty d, c')"
  shows "(cur_open c \<longrightarrow> cursor c < cursor c') \<and> cursor c' \<le> length f \<and> cur_open c'"
  using assms wal_read_record_Ok [of xxh f _ ty d c']
  by (fastforce simp: wal_read_def split: if_splits)

text \<open>The loop of \<open>_index_replay_wal\<close> over \<open>wal_read\<close>, with the treatment of one
  record as an argument: it returns the code of the read that ended it.\<close>

function wal_replay ::
  "(bytes \<Rightarrow> u32) \<Rightarrow> bytes \<Rightarrow> (wal_type_e \<Rightarrow> bytes \<Rightarrow> 's \<Rightarrow> 's) \<Rightarrow> wal_cursor \<Rightarrow> 's \<Rightarrow> int \<times> wal_cursor \<times> 's"
  where
  "wal_replay xxh f step c s =
     (case wal_read xxh f c of
        (WalErr k, c') \<Rightarrow> (k, c', s)
      | (WalOk ty d, c') \<Rightarrow>
          if cursor c' \<le> unat (wal_size c') then wal_replay xxh f step c' (step ty d s)
          else (0, c', s))"
  by pat_completeness auto

termination
  apply (relation "measure (\<lambda>(xxh, f, step, c, s). if cur_open c then length f - cursor c else Suc (length f))")
   apply simp
  subgoal for xxh f step c s res c' ty d
    using wal_read_Ok_advances [of xxh f c ty d c'] by (auto simp: less_Suc_eq_le)
  done

declare wal_replay.simps [simp del]

section \<open>Framing\<close>

lemma wal_type_of_byte [simp]: "wal_type_of (wal_type_byte ty) = Some ty"
  by (cases ty) (simp_all add: wal_type_of_def)

lemma wal_type_of_inv: "wal_type_of b = Some ty \<Longrightarrow> b = wal_type_byte ty"
  by (auto simp: wal_type_of_def split: if_splits)

lemma length_wal_frame [simp]: "length (wal_frame xxh ty d) = 5 + length d"
  by (simp add: wal_frame_def)

lemma file_read_append: "file_read (pre @ xs) (length pre + k) n = file_read xs k n"
  by (simp add: file_read_def)

lemma file_read_append0: "file_read (pre @ xs) (length pre) n = take n xs"
  by (simp add: file_read_def)

text \<open>Reading depends on the file from the cursor on only.\<close>

lemma wal_read_record_frame:
  assumes "cursor c = length pre" and "\<not> legacy_entry_size c"
    and "length d = wal_payload_size False ty"
  shows "wal_read_record xxh (pre @ wal_frame xxh ty d @ post) c =
    (WalOk ty d, c\<lparr>cursor := length pre + (5 + length d)\<rparr>)"
proof -
  let ?f = "pre @ wal_frame xxh ty d @ post"
  have "file_read ?f (cursor c) 1 = [wal_type_byte ty]"
    "file_read ?f (cursor c + 1) 4 = be_bytes 4 (unat (xxh d))"
    "file_read ?f (cursor c + 5) (length d) = d"
    unfolding assms(1) file_read_append file_read_append0
    by (simp_all add: wal_frame_def file_read_def)
  with assms show ?thesis
    by (simp add: wal_read_record_def Let_def)
qed

lemma unat_file_size: "length f < 2 ^ 31 \<Longrightarrow> unat (file_size_u64 f) = length f"
proof -
  assume l: "length f < 2 ^ 31"
  then have "sint (of_nat (length f) :: u32) = int (length f)"
    by (simp add: signed_of_nat signed_take_bit_int_eq_self)
  then have "file_size_u64 f = word_of_int (int (length f))"
    by (simp add: file_size_u64_def scast_eq)
  with l show ?thesis by (simp add: unat_of_nat)
qed

section \<open>Replay\<close>

type_synonym wal_rec = "wal_type_e \<times> bytes"

definition wal_frames :: "(bytes \<Rightarrow> u32) \<Rightarrow> wal_rec list \<Rightarrow> bytes" where
  "wal_frames xxh rs = concat (map (\<lambda>(ty, d). wal_frame xxh ty d) rs)"

definition wal_rec_wf :: "wal_rec \<Rightarrow> bool" where
  "wal_rec_wf r \<longleftrightarrow> length (snd r) = wal_payload_size False (fst r)"

lemma wal_frames_simps [simp]:
  "wal_frames xxh [] = []"
  "wal_frames xxh (r # rs) = wal_frame xxh (fst r) (snd r) @ wal_frames xxh rs"
  "wal_frames xxh (rs @ qs) = wal_frames xxh rs @ wal_frames xxh qs"
  by (simp_all add: wal_frames_def case_prod_beta)

lemma wal_contents_update [simp]:
  "wal_contents (dir(k \<mapsto> f)) j = (if j = k then f else wal_contents dir j)"
  by (simp add: wal_contents_def)

lemma wal_write_contents:
  "wal_id w = k \<Longrightarrow>
   wal_contents (snd (fold (\<lambda>(ty, d) (w, dir). wal_write xxh w ty d dir) rs (w, dir))) k
     = wal_contents dir k @ wal_frames xxh rs"
  by (induction rs arbitrary: w dir) (auto simp: wal_write_def case_prod_beta)

text \<open>An opened cursor positioned in a file.\<close>

definition cursor_at :: "bytes \<Rightarrow> nat \<Rightarrow> wal_cursor" where
  "cursor_at f n = \<lparr>cur_open = True, cursor = n, wal_size = file_size_u64 f, legacy_entry_size = False\<rparr>"

lemma wal_replay_open:
  "f \<noteq> [] \<Longrightarrow> length f < 2 ^ 31 \<Longrightarrow>
   wal_replay xxh f step wal_cursor_init s = wal_replay xxh f step (cursor_at f 0) s"
  by (subst (1 2) wal_replay.simps)
    (simp add: wal_read_def wal_cursor_init_def cursor_at_def unat_file_size)

lemma wal_replay_step:
  assumes "f = pre @ wal_frame xxh ty d @ post" and "length f < 2 ^ 31"
    and "length d = wal_payload_size False ty"
  shows "wal_replay xxh f step (cursor_at f (length pre)) s =
    wal_replay xxh f step (cursor_at f (length pre + (5 + length d))) (step ty d s)"
proof -
  have "wal_read xxh f (cursor_at f (length pre)) =
      (WalOk ty d, cursor_at f (length pre + (5 + length d)))"
    using wal_read_record_frame [of "cursor_at f (length pre)" pre d ty xxh post] assms
    by (simp add: wal_read_def cursor_at_def unat_file_size)
  with assms show ?thesis
    by (subst wal_replay.simps) (simp add: cursor_at_def unat_file_size)
qed

lemma wal_replay_frames:
  assumes "f = pre @ wal_frames xxh rs @ post" and "length f < 2 ^ 31" and "\<forall>r \<in> set rs. wal_rec_wf r"
  shows "wal_replay xxh f step (cursor_at f (length pre)) s =
    wal_replay xxh f step (cursor_at f (length pre + length (wal_frames xxh rs)))
      (fold (\<lambda>(ty, d). step ty d) rs s)"
  using assms
proof (induction rs arbitrary: pre s)
  case (Cons r rs)
  obtain ty d where r: "r = (ty, d)" by (cases r)
  have "wal_replay xxh f step (cursor_at f (length pre)) s =
      wal_replay xxh f step (cursor_at f (length pre + (5 + length d))) (step ty d s)"
    using Cons.prems r by (intro wal_replay_step) (auto simp: wal_rec_wf_def)
  also have "\<dots> = wal_replay xxh f step (cursor_at f (length (pre @ wal_frame xxh ty d))) (step ty d s)"
    by simp
  also have "\<dots> = wal_replay xxh f step
      (cursor_at f (length (pre @ wal_frame xxh ty d) + length (wal_frames xxh rs)))
      (fold (\<lambda>(ty, d). step ty d) rs (step ty d s))"
    using Cons.prems r by (intro Cons.IH) auto
  finally show ?case using r by (simp add: add.assoc)
qed simp

lemma wal_replay_eof:
  "length f < 2 ^ 31 \<Longrightarrow> length f \<le> n \<Longrightarrow> wal_replay xxh f step (cursor_at f n) s = (- 3, cursor_at f n, s)"
  by (subst wal_replay.simps) (simp add: wal_read_def cursor_at_def unat_file_size)

text \<open>A record cut short never reads as a record, unless its 78-byte prefix collides with it
  under XXH32.\<close>

definition no_legacy_collision :: "(bytes \<Rightarrow> u32) \<Rightarrow> wal_rec \<Rightarrow> bool" where
  "no_legacy_collision xxh r \<longleftrightarrow>
     (fst r = addition \<or> fst r = increment \<longrightarrow> xxh (take 78 (snd r)) \<noteq> xxh (snd r))"

lemma file_read_torn:
  "k + m \<le> n \<Longrightarrow> file_read (pre @ take n xs) (length pre + k) m = take m (drop k xs)"
  by (simp add: file_read_def drop_take min_absorb1)

lemma wal_read_torn:
  assumes "f = pre @ take n (wal_frame xxh ty d)" and "0 < n" and "n < 5 + length d"
    and "length d = wal_payload_size False ty" and "no_legacy_collision xxh (ty, d)"
    and "cursor c = length pre" and "\<not> legacy_entry_size c"
  shows "\<exists>k. k \<in> {2, 3, 4} \<and> wal_read_record xxh f c = (WalErr k, c)"
proof -
  have len: "length f = length pre + n" using assms(1,3) by simp
  have tb: "file_read f (cursor c) 1 = [wal_type_byte ty]"
    using file_read_torn [of 0 1 n pre "wal_frame xxh ty d"] assms(1,2,6) by (simp add: wal_frame_def)
  have short_crc: "length (file_read f (cursor c + 1) 4) = 4 \<longleftrightarrow> 5 \<le> n"
    using assms(6) len by (simp add: file_read_complete)
  have crc: "5 \<le> n \<Longrightarrow> file_read f (cursor c + 1) 4 = be_bytes 4 (unat (xxh d))"
    using file_read_torn [of 1 4 n pre "wal_frame xxh ty d"] assms(1,6) by (simp add: wal_frame_def)
  have short: "length (file_read f (cursor c + 5) (length d)) \<noteq> length d"
    using assms(3,4,6) len wal_payload_size_pos [of False ty] by (simp add: file_read_complete)
  have short78: "length (file_read f (cursor c + 5) 78) = 78 \<longleftrightarrow> 83 \<le> n"
    using assms(6) len by (simp add: file_read_complete)
  have buf: "83 \<le> n \<Longrightarrow> file_read f (cursor c + 5) 78 = take 78 d"
    using file_read_torn [of 5 78 n pre "wal_frame xxh ty d"] assms(1,6) by (simp add: wal_frame_def)
  have coll: "ty = addition \<or> ty = increment \<Longrightarrow>
      be_bytes 4 (unat (xxh (take 78 d))) \<noteq> be_bytes 4 (unat (xxh d))"
    using assms(5) by (simp add: no_legacy_collision_def be_bytes_inj unat_arith_simps(3))
  show ?thesis
  proof (cases "5 \<le> n")
    case False
    then show ?thesis using tb short_crc by (simp add: wal_read_record_def Let_def)
  next
    case True
    note c = crc [OF True]
    show ?thesis
      using tb short_crc short assms(4,7) True coll short78 buf c
      by (cases ty; cases "83 \<le> n")
        (simp_all add: wal_read_record_def wal_read_entry_payload_def Let_def wal_type_of_def)
  qed
qed

lemma wal_replay_torn:
  assumes "f = pre @ take n (wal_frame xxh ty d)" and "0 < n" and "n < 5 + length d"
    and "length f < 2 ^ 31" and "wal_rec_wf (ty, d)" and "no_legacy_collision xxh (ty, d)"
  shows "snd (wal_replay xxh f step (cursor_at f (length pre)) s) = (cursor_at f (length pre), s)"
    and "fst (wal_replay xxh f step (cursor_at f (length pre)) s) \<in> {2, 3, 4}"
proof -
  have "length pre < length f" using assms(1,2) by (cases n) (auto simp: wal_frame_def)
  with assms(4) have "\<not> unat (file_size_u64 f) \<le> length pre" by (simp add: unat_file_size)
  moreover obtain k where "k \<in> {2, 3, 4}"
      "wal_read_record xxh f (cursor_at f (length pre)) = (WalErr k, cursor_at f (length pre))"
    using wal_read_torn [OF assms(1-3) _ assms(6), of "cursor_at f (length pre)"] assms(5)
    by (auto simp: cursor_at_def wal_rec_wf_def)
  ultimately show "snd (wal_replay xxh f step (cursor_at f (length pre)) s) = (cursor_at f (length pre), s)"
      "fst (wal_replay xxh f step (cursor_at f (length pre)) s) \<in> {2, 3, 4}"
    by (subst wal_replay.simps, simp add: wal_read_def cursor_at_def)+
qed

text \<open>How many of the records of a log are complete in its first \<open>n\<close> bytes.\<close>

fun complete_records :: "nat \<Rightarrow> wal_rec list \<Rightarrow> nat" where
  "complete_records n [] = 0"
| "complete_records n (r # rs) =
     (if 5 + length (snd r) \<le> n then Suc (complete_records (n - (5 + length (snd r))) rs) else 0)"

lemma complete_records_all: "length (wal_frames xxh rs) \<le> n \<Longrightarrow> complete_records n rs = length rs"
  by (induction rs arbitrary: n) auto

lemma complete_records_le: "complete_records n rs \<le> length rs"
  by (induction rs arbitrary: n) auto

lemma take_wal_frames:
  "take n (wal_frames xxh rs) =
     wal_frames xxh (take (complete_records n rs) rs) @
     (if complete_records n rs < length rs
      then take (n - length (wal_frames xxh (take (complete_records n rs) rs)))
             (wal_frame xxh (fst (rs ! complete_records n rs)) (snd (rs ! complete_records n rs)))
      else [])"
proof (induction rs arbitrary: n)
  case (Cons r rs)
  show ?case
  proof (cases "5 + length (snd r) \<le> n")
    case True
    with Cons.IH [of "n - (5 + length (snd r))"] show ?thesis by (simp flip: diff_diff_left)
  qed simp
qed simp

lemma torn_record_short:
  assumes "complete_records n rs < length rs"
  shows "n - length (wal_frames xxh (take (complete_records n rs) rs))
    < 5 + length (snd (rs ! complete_records n rs))"
  using assms by (induction rs arbitrary: n) (auto simp flip: diff_diff_left)

lemma wal_replay_take_frames:
  assumes "\<forall>r \<in> set rs. wal_rec_wf r \<and> no_legacy_collision xxh r"
    and "length (wal_frames xxh rs) < 2 ^ 31"
  shows "\<exists>code c. wal_replay xxh (take n (wal_frames xxh rs)) step wal_cursor_init s =
      (code, c, fold (\<lambda>(ty, d). step ty d) (take (complete_records n rs) rs) s) \<and>
    code \<in> {- 3, 1, 2, 3, 4} \<and> \<not> legacy_entry_size c"
proof -
  let ?k = "complete_records n rs"
  let ?pre = "wal_frames xxh (take ?k rs)"
  let ?s = "fold (\<lambda>(ty, d). step ty d) (take ?k rs) s"
  define f where "f = take n (wal_frames xxh rs)"
  have small: "length f < 2 ^ 31" using assms(2) by (simp add: f_def)
  have wf: "\<forall>r \<in> set (take ?k rs). wal_rec_wf r" using assms(1) by (meson in_set_takeD)
  have "\<exists>code c. wal_replay xxh f step wal_cursor_init s = (code, c, ?s) \<and>
    code \<in> {- 3, 1, 2, 3, 4} \<and> \<not> legacy_entry_size c"
  proof (cases "f = []")
    case True
    then have "?k = 0" using take_wal_frames [of n xxh rs] by (cases rs) (auto simp: f_def wal_frame_def split: if_splits)
    with True show ?thesis
      by (subst wal_replay.simps)
        (simp add: wal_read_def wal_read_record_def wal_cursor_init_def file_read_def)
  next
    case False
    define m where "m = n - length ?pre"
    have f: "f = ?pre @ (if ?k < length rs then take m (wal_frame xxh (fst (rs ! ?k)) (snd (rs ! ?k))) else [])"
      unfolding f_def m_def by (rule take_wal_frames)
    then obtain post where post: "f = [] @ ?pre @ post" by (metis append_Nil)
    have go: "wal_replay xxh f step wal_cursor_init s = wal_replay xxh f step (cursor_at f (length ?pre)) ?s"
      using wal_replay_frames [OF post small wf, of step s] wal_replay_open [OF False small, of xxh step s] by simp
    show ?thesis
    proof (cases "?k < length rs \<and> 0 < m")
      case True
      then have "f = ?pre @ take m (wal_frame xxh (fst (rs ! ?k)) (snd (rs ! ?k)))" using f by simp
      note t = wal_replay_torn [OF this _ _ small, of step ?s]
      from True have "m < 5 + length (snd (rs ! ?k))" "rs ! ?k \<in> set rs"
        using torn_record_short [of n rs xxh] by (auto simp: m_def)
      with t True assms(1) show ?thesis unfolding go
        by (cases "wal_replay xxh f step (cursor_at f (length ?pre)) ?s") (auto simp: cursor_at_def)
    next
      case False
      then have "length f \<le> length ?pre" using f by (auto split: if_splits)
      then show ?thesis unfolding go wal_replay_eof [OF small \<open>length f \<le> length ?pre\<close>] by (simp add: cursor_at_def)
    qed
  qed
  then show ?thesis unfolding f_def .
qed

text \<open>C4. A crash loses at most the record being written. For any sequence of well-formed
  records appended by \<open>wal_write\<close> to a fresh log, and the file cut at any byte \<open>n\<close>, replay
  applies exactly the records that are complete in the first \<open>n\<close> bytes, in order; it ends with
  the clean end-of-file code or one of the short-read and CRC codes. (An entry record whose
  78-byte prefix has the same XXH32 as the whole payload is excluded.)\<close>

theorem wal_replay_any_prefix:
  assumes "\<forall>r \<in> set rs. wal_rec_wf r \<and> no_legacy_collision xxh r"
    and "length (wal_frames xxh rs) < 2 ^ 31"
  shows "let log = wal_contents (snd (fold (\<lambda>(ty, d) (w, dir). wal_write xxh w ty d dir) rs
                      (wal_create k, (\<lambda>_. None)))) k;
             (code, c, s') = wal_replay xxh (take n log) step wal_cursor_init s
         in s' = fold (\<lambda>(ty, d). step ty d) (take (complete_records n rs) rs) s \<and>
            code \<in> {- 3, 1, 2, 3, 4}"
proof -
  have log: "wal_contents (snd (fold (\<lambda>(ty, d) (w, dir). wal_write xxh w ty d dir) rs
      (wal_create k, (\<lambda>_. None)))) k = wal_frames xxh rs"
    using wal_write_contents [of "wal_create k" k xxh rs "\<lambda>_. None"]
    by (simp add: wal_create_def) (simp add: wal_contents_def [of "\<lambda>_. None"])
  show ?thesis
    using wal_replay_take_frames [OF assms, of n step s] unfolding log Let_def by auto
qed

theorem wal_replay_any_prefix_witness:
  "let xxh = (\<lambda>d. of_nat (length d)); rs = [(removal, replicate 34 1), (addition, replicate 86 2)];
       log = wal_contents (snd (fold (\<lambda>(ty, d) (w, dir). wal_write xxh w ty d dir) rs
               (wal_create 7, (\<lambda>_. None)))) 7;
       (code, c, s') = wal_replay xxh (take 125 log) (\<lambda>ty d s. s @ [ty]) wal_cursor_init []
   in s' = [removal] \<and> code \<in> {- 3, 1, 2, 3, 4}"
proof -
  have "no_legacy_collision (\<lambda>d. of_nat (length d)) (addition, replicate 86 2)"
    by (simp add: no_legacy_collision_def)
  then show ?thesis
    using wal_replay_any_prefix
      [of "[(removal, replicate 34 1), (addition, replicate 86 2)]" "\<lambda>d. of_nat (length d)" 7 125
          "\<lambda>ty d s. s @ [ty]" "[]"]
    by (simp add: wal_rec_wf_def no_legacy_collision_def Let_def)
qed

end
