(* ===== verification/Index.thy ===== *)
theory Index
  imports Buffer Fibonacci Wal "HOL-Library.Monad_Syntax"
begin

text \<open>
  \<open>BlockCache/index.c\<close>, the in-memory part: index entries, the bit trie of buckets they live
  in, the rank table and the operations on them, each of which logs what it does. Hashes are byte
  strings, compared by \<open>buffer_compare\<close> in the code and by equality here (the two agree,
  theory \<open>Buffer\<close>). An operation that would read a hash past its end has no result
  (\<open>None\<close>). Third-party code is the record \<open>deps\<close>.
\<close>

section \<open>Data\<close>

record 'i deps =
  dep_cbor :: "'i cbor_api"
  dep_xxh32 :: "bytes \<Rightarrow> u32"
  dep_xxh64 :: "bytes \<Rightarrow> u64"

record index_entry_t =
  counter :: fibonacci_hit_counter_t
  hash :: bytes
  section_id :: u64
  section_index :: u64
  ejection_date :: u64
  ephemeral_count :: u16
  pin_count :: u32

text \<open>A node has a bucket, or (\<open>bucket == NULL\<close>) two children, which the code tests for
  \<open>NULL\<close> before descending.\<close>

datatype index_node_t =
    Bucket "index_entry_t list"
  | Branch "index_node_t option" "index_node_t option"

text \<open>A snapshot file is named by its id and its CRC, or \<open>crc_error\<close>. The two directories an index
  writes to, \<open>wal\<close> and \<open>index\<close>, are part of its state; \<open>current_file\<close> and
  \<open>last_file\<close> are the ids those paths end in.\<close>

type_synonym snapshot_name = "nat \<times> u64 option"
type_synonym snapshot_dir = "(snapshot_name \<times> bytes) list"

record index_t =
  root :: index_node_t
  bucket_size :: nat
  ranks :: "u32 \<Rightarrow> bytes list option"
  wal :: wal_t
  wal_files :: wal_dir
  snapshots :: snapshot_dir
  last_increment_promoted :: bool
  is_rebuilding :: bool
  current_file :: nat
  last_file :: "nat option"
  index_next_id :: nat
  max_snapshots :: nat
  max_wals :: nat

definition get_bit :: "bytes \<Rightarrow> nat \<Rightarrow> bool option" where
  "get_bit h i = (if i div 8 < length h then Some (bit (h ! (i div 8)) (i mod 8)) else None)"

section \<open>Entries\<close>

definition index_entry_create :: "bytes \<Rightarrow> index_entry_t" where
  "index_entry_create h =
     \<lparr>counter = fibonacci_hit_counter_create, hash = h, section_id = 0, section_index = 0,
      ejection_date = 0, ephemeral_count = 0, pin_count = 0\<rparr>"

lemma hash_index_entry_create [simp]: "hash (index_entry_create h) = h"
  by (simp add: index_entry_create_def)

definition index_entry_is_servable :: "index_entry_t option \<Rightarrow> bool" where
  "index_entry_is_servable oe = (case oe of None \<Rightarrow> False | Some e \<Rightarrow> ephemeral_count e = 0)"

definition index_entry_from ::
  "bytes \<Rightarrow> u64 \<Rightarrow> u64 \<Rightarrow> u64 \<Rightarrow> fibonacci_hit_counter_t \<Rightarrow> u16 \<Rightarrow> u32 \<Rightarrow> index_entry_t" where
  "index_entry_from h sid six date c ec pc =
     \<lparr>counter = c, hash = h, section_id = sid, section_index = six, ejection_date = date,
      ephemeral_count = ec, pin_count = pc\<rparr>"

definition index_entry_increment :: "index_entry_t \<Rightarrow> bool \<times> index_entry_t" where
  "index_entry_increment e =
     (case fibonacci_hit_counter_increment (counter e) of (promoted, c) \<Rightarrow> (promoted, e\<lparr>counter := c\<rparr>))"

definition index_entry_set_ejection_date :: "index_entry_t \<Rightarrow> u64 \<Rightarrow> index_entry_t" where
  "index_entry_set_ejection_date e date = e\<lparr>ejection_date := date\<rparr>"

definition index_entry_to_cbor :: "('i, 'm) cbor_api_scheme \<Rightarrow> index_entry_t \<Rightarrow> 'i option" where
  "index_entry_to_cbor C e = do {
     c \<leftarrow> fibonacci_hit_counter_to_cbor C (counter e);
     cbor_build_array C 7
       [c, cbor_build_bytestring C (hash e), cbor_build_uint64 C (section_index e),
        cbor_build_uint64 C (section_id e), cbor_build_uint64 C (ejection_date e),
        cbor_build_uint16 C (ephemeral_count e), cbor_build_uint32 C (pin_count e)]
   }"

definition cbor_to_index_entry :: "('i, 'm) cbor_api_scheme \<Rightarrow> 'i \<Rightarrow> index_entry_t option" where
  "cbor_to_index_entry C i =
     (if \<not> cbor_isa_array C i \<or> cbor_array_size C i < 5 then None
      else
        let item0 = cbor_array_get C i 0; item1 = cbor_array_get C i 1;
            item2 = cbor_array_get C i 2; item3 = cbor_array_get C i 3;
            item4 = cbor_array_get C i 4 in
        if \<not> cbor_isa_array C item0 \<or> \<not> cbor_isa_bytestring C item1 \<or>
           cbor_bytestring_length C item1 \<noteq> BLAKE3_OUT_LEN \<or> \<not> cbor_isa_uint C item2 \<or>
           \<not> cbor_isa_uint C item3 \<or> \<not> cbor_isa_uint C item4
        then None
        else
          let ec = (if 6 \<le> cbor_array_size C i \<and> cbor_isa_uint C (cbor_array_get C i 5)
                    then let v = cbor_get_int C (cbor_array_get C i 5)
                         in if 65535 < v then 65535 else ucast v
                    else 0);
              pc = (if 7 \<le> cbor_array_size C i \<and> cbor_isa_uint C (cbor_array_get C i 6)
                    then let v = cbor_get_int C (cbor_array_get C i 6)
                         in if 4294967295 < v then 4294967295 else ucast v
                    else 0)
          in Some (index_entry_from (cbor_bytestring_handle C item1) (cbor_get_int C item3)
               (cbor_get_int C item2) (cbor_get_int C item4)
               (cbor_to_fibonacci_hit_counter C item0) ec pc))"

section \<open>Logging and ranks\<close>

text \<open>Serializing a \<open>NULL\<close> item is undefined; the empty string stands for it.\<close>

definition index_entry_payload :: "('i, 'm) cbor_api_scheme \<Rightarrow> index_entry_t \<Rightarrow> bytes" where
  "index_entry_payload C e =
     (case index_entry_to_cbor C e of None \<Rightarrow> [] | Some i \<Rightarrow> cbor_serialize C i)"

definition index_log :: "('i, 'm) deps_scheme \<Rightarrow> wal_type_e \<Rightarrow> bytes \<Rightarrow> index_t \<Rightarrow> index_t" where
  "index_log D ty d ix =
     (if is_rebuilding ix then ix
      else case wal_write (dep_xxh32 D) (wal ix) ty d (wal_files ix) of
        (w, dir) \<Rightarrow> ix\<lparr>wal := w, wal_files := dir\<rparr>)"

definition rank_push :: "u32 \<Rightarrow> bytes \<Rightarrow> index_t \<Rightarrow> index_t" where
  "rank_push k h ix =
     ix\<lparr>ranks := (ranks ix)(k \<mapsto> (case ranks ix k of None \<Rightarrow> [h] | Some rank \<Rightarrow> rank @ [h]))\<rparr>"

definition rank_remove :: "u32 \<Rightarrow> bytes \<Rightarrow> index_t \<Rightarrow> index_t" where
  "rank_remove k h ix =
     (case ranks ix k of None \<Rightarrow> ix
      | Some rank \<Rightarrow> ix\<lparr>ranks := (ranks ix)(k \<mapsto> remove_first ((=) h) rank)\<rparr>)"

text \<open>\<open>_index_increment\<close>: log the entry as it was, count the hit, and move the entry to its
  new rank when it was promoted. The changed entry is returned; its holder stores it.\<close>

definition index_increment_entry ::
  "('i, 'm) deps_scheme \<Rightarrow> index_entry_t \<Rightarrow> index_t \<Rightarrow> index_entry_t \<times> index_t" where
  "index_increment_entry D e ix =
     (let ix = index_log D increment (index_entry_payload (dep_cbor D) e) ix;
          (promoted, e') = index_entry_increment e;
          ix = ix\<lparr>last_increment_promoted := promoted\<rparr> in
      if promoted
      then let key = fib_level (counter e')
           in (e', rank_push key (hash e') (rank_remove (key - 1) (hash e') ix))
      else (e', ix))"

section \<open>The trie\<close>

definition index_node_create :: index_node_t where
  "index_node_create = Bucket []"

definition index_node_create_from_leaves :: "index_node_t \<Rightarrow> index_node_t \<Rightarrow> index_node_t" where
  "index_node_create_from_leaves l r = Branch (Some l) (Some r)"

fun index_node_count :: "index_node_t \<Rightarrow> nat" where
  "index_node_count (Bucket es) = length es"
| "index_node_count (Branch l r) =
     (case l of None \<Rightarrow> 0 | Some n \<Rightarrow> index_node_count n) +
     (case r of None \<Rightarrow> 0 | Some n \<Rightarrow> index_node_count n)"

fun index_node_to_array :: "index_node_t \<Rightarrow> index_entry_t list" where
  "index_node_to_array (Bucket es) = es"
| "index_node_to_array (Branch l r) =
     (case l of None \<Rightarrow> [] | Some n \<Rightarrow> index_node_to_array n) @
     (case r of None \<Rightarrow> [] | Some n \<Rightarrow> index_node_to_array n)"

fun index_find_in_node :: "bytes \<Rightarrow> index_node_t \<Rightarrow> nat \<Rightarrow> index_entry_t option option" where
  "index_find_in_node h (Bucket es) cur = Some (find (\<lambda>e. hash e = h) es)"
| "index_find_in_node h (Branch (Some l) (Some r)) cur = do {
     b \<leftarrow> get_bit h (cur + 1);
     if b then index_find_in_node h r (cur + 1) else index_find_in_node h l (cur + 1)
   }"
| "index_find_in_node h (Branch _ _) cur = Some None"

definition index_find :: "index_t \<Rightarrow> bytes \<Rightarrow> index_entry_t option option" where
  "index_find ix h = index_find_in_node h (root ix) 0"

definition index_peek :: "index_t \<Rightarrow> bytes \<Rightarrow> index_entry_t option option" where
  "index_peek ix h = index_find_in_node h (root ix) 0"

text \<open>The entry found is incremented in place.\<close>

fun index_get_from_node ::
  "('i, 'm) deps_scheme \<Rightarrow> bytes \<Rightarrow> index_node_t \<Rightarrow> nat \<Rightarrow> index_t \<Rightarrow>
     (index_entry_t option \<times> index_node_t \<times> index_t) option" where
  "index_get_from_node D h (Bucket es) cur ix =
     (case find (\<lambda>e. hash e = h) es of
        None \<Rightarrow> Some (None, Bucket es, ix)
      | Some e \<Rightarrow> (case index_increment_entry D e ix of (e', ix') \<Rightarrow>
          Some (Some e', Bucket (update_first (\<lambda>e. hash e = h) (\<lambda>_. e') es), ix')))"
| "index_get_from_node D h (Branch (Some l) (Some r)) cur ix = do {
     b \<leftarrow> get_bit h (cur + 1);
     if b
     then do { (e, r', ix') \<leftarrow> index_get_from_node D h r (cur + 1) ix; Some (e, Branch (Some l) (Some r'), ix') }
     else do { (e, l', ix') \<leftarrow> index_get_from_node D h l (cur + 1) ix; Some (e, Branch (Some l') (Some r), ix') }
   }"
| "index_get_from_node D h (Branch l r) cur ix = Some (None, Branch l r, ix)"

definition index_get ::
  "('i, 'm) deps_scheme \<Rightarrow> index_t \<Rightarrow> bytes \<Rightarrow> (index_entry_t option \<times> index_t) option" where
  "index_get D ix h = do {
     (e, n, ix') \<leftarrow> index_get_from_node D h (root ix) 0 ix;
     Some (e, ix'\<lparr>root := n\<rparr>)
   }"

text \<open>\<open>index_add_to_node\<close> and \<open>index_split_node\<close> call each other: a full bucket
  is turned into a branch of two empty buckets, its entries are added again one by one
  (\<open>index_add_list\<close>, the loop of \<open>index_split_node\<close>), and then the new entry. The first
  argument bounds the depth of the recursion; \<open>index_fuel\<close> is enough for well-formed tries.\<close>

function (sequential) index_add_to_node ::
  "nat \<Rightarrow> ('i, 'm) deps_scheme \<Rightarrow> index_entry_t \<Rightarrow> index_node_t \<Rightarrow> nat \<Rightarrow> index_t \<Rightarrow>
     (index_node_t \<times> index_t) option"
  and index_add_list ::
  "nat \<Rightarrow> ('i, 'm) deps_scheme \<Rightarrow> index_entry_t list \<Rightarrow> index_node_t \<Rightarrow> nat \<Rightarrow> index_t \<Rightarrow>
     (index_node_t \<times> index_t) option"
  where
  "index_add_to_node 0 D e n cur ix = None"
| "index_add_to_node (Suc f) D e (Branch (Some l) (Some r)) cur ix = do {
     b \<leftarrow> get_bit (hash e) (cur + 1);
     if b
     then do { (r', ix') \<leftarrow> index_add_to_node f D e r (cur + 1) ix; Some (Branch (Some l) (Some r'), ix') }
     else do { (l', ix') \<leftarrow> index_add_to_node f D e l (cur + 1) ix; Some (Branch (Some l') (Some r), ix') }
   }"
| "index_add_to_node (Suc f) D e (Branch l r) cur ix = Some (Branch l r, ix)"
| "index_add_to_node (Suc f) D e (Bucket es) cur ix =
     (case find (\<lambda>x. hash x = hash e) es of
        Some x \<Rightarrow>
          if is_rebuilding ix then Some (Bucket es, ix)
          else (case index_increment_entry D x ix of (x', ix') \<Rightarrow>
            Some (Bucket (update_first (\<lambda>x. hash x = hash e) (\<lambda>_. x') es), ix'))
      | None \<Rightarrow>
          let ix = (if fib_level (counter e) = 0 \<and> hit_count (counter e) = 0
                    then rank_push (fib_level (counter e)) (hash e) ix else ix) in
          if length es < bucket_size ix
          then Some (Bucket (es @ [e]), index_log D addition (index_entry_payload (dep_cbor D) e) ix)
          else do {
            (n, ix) \<leftarrow> index_add_list f D es (Branch (Some index_node_create) (Some index_node_create)) cur ix;
            index_add_to_node f D e n cur ix
          })"
| "index_add_list f D [] n cur ix = Some (n, ix)"
| "index_add_list f D (e # es) n cur ix = do {
     (n, ix) \<leftarrow> index_add_to_node f D e n cur ix;
     index_add_list f D es n cur ix
   }"
  by pat_completeness auto

termination
  by (relation "measures [case_sum (\<lambda>(f, _). f) (\<lambda>(f, _). f),
        case_sum (\<lambda>_. 0) (\<lambda>(f, D, es, _). Suc (length es))]") auto

definition index_fuel :: "bytes \<Rightarrow> nat" where
  "index_fuel h = 16 * length h + 2"

definition index_add :: "('i, 'm) deps_scheme \<Rightarrow> index_t \<Rightarrow> index_entry_t \<Rightarrow> index_t option" where
  "index_add D ix e = do {
     (n, ix') \<leftarrow> index_add_to_node (index_fuel (hash e)) D e (root ix) 0 ix;
     Some (ix'\<lparr>root := n\<rparr>)
   }"

text \<open>An entry reached through a pointer is changed in the tree that holds it.\<close>

fun index_node_update :: "bytes \<Rightarrow> (index_entry_t \<Rightarrow> index_entry_t) \<Rightarrow> index_node_t \<Rightarrow> index_node_t" where
  "index_node_update h g (Bucket es) = Bucket (map (\<lambda>e. if hash e = h then g e else e) es)"
| "index_node_update h g (Branch l r) =
     Branch (map_option (index_node_update h g) l) (map_option (index_node_update h g) r)"

definition index_increment :: "('i, 'm) deps_scheme \<Rightarrow> index_t \<Rightarrow> index_entry_t \<Rightarrow> index_t" where
  "index_increment D ix e =
     (case index_increment_entry D e ix of
        (e', ix') \<Rightarrow> ix'\<lparr>root := index_node_update (hash e) (\<lambda>_. e') (root ix')\<rparr>)"

fun index_remove_from_node ::
  "('i, 'm) deps_scheme \<Rightarrow> bytes \<Rightarrow> index_node_t \<Rightarrow> nat \<Rightarrow> index_t \<Rightarrow> (index_node_t \<times> index_t) option" where
  "index_remove_from_node D h (Bucket es) cur ix =
     (case find (\<lambda>e. hash e = h) es of
        None \<Rightarrow> Some (Bucket es, ix)
      | Some e \<Rightarrow>
          let ix = index_log D removal
                (cbor_serialize (dep_cbor D) (cbor_build_bytestring (dep_cbor D) (hash e))) ix
          in Some (Bucket (remove_first (\<lambda>e. hash e = h) es),
               rank_remove (fib_level (counter e)) (hash e) ix))"
| "index_remove_from_node D h (Branch (Some l) (Some r)) cur ix = do {
     b \<leftarrow> get_bit h (cur + 1);
     if b
     then do { (r', ix') \<leftarrow> index_remove_from_node D h r (cur + 1) ix; Some (Branch (Some l) (Some r'), ix') }
     else do { (l', ix') \<leftarrow> index_remove_from_node D h l (cur + 1) ix; Some (Branch (Some l') (Some r), ix') }
   }"
| "index_remove_from_node D h (Branch l r) cur ix = Some (Branch l r, ix)"

definition index_remove :: "('i, 'm) deps_scheme \<Rightarrow> index_t \<Rightarrow> bytes \<Rightarrow> index_t option" where
  "index_remove D ix h = do {
     (n, ix') \<leftarrow> index_remove_from_node D h (root ix) 0 ix;
     Some (ix'\<lparr>root := n\<rparr>)
   }"

definition index_count :: "index_t \<Rightarrow> nat" where
  "index_count ix = index_node_count (root ix)"

definition index_to_array :: "index_t \<Rightarrow> index_entry_t list" where
  "index_to_array ix = index_node_to_array (root ix)"

definition index_set_entry_ejection ::
  "('i, 'm) deps_scheme \<Rightarrow> index_t \<Rightarrow> index_entry_t \<Rightarrow> u64 \<Rightarrow> index_t" where
  "index_set_entry_ejection D ix e date =
     (let C = dep_cbor D;
          ix = (case cbor_build_array C 2 [cbor_build_bytestring C (hash e), cbor_build_uint64 C date] of
                  None \<Rightarrow> ix | Some i \<Rightarrow> index_log D ejection (cbor_serialize C i) ix)
      in ix\<lparr>root := index_node_update (hash e) (\<lambda>e. index_entry_set_ejection_date e date) (root ix)\<rparr>)"

definition index_write_entry_metadata :: "('i, 'm) deps_scheme \<Rightarrow> index_t \<Rightarrow> index_entry_t \<Rightarrow> index_t" where
  "index_write_entry_metadata D ix e = index_log D metadata (index_entry_payload (dep_cbor D) e) ix"

text \<open>\<open>_index_new_empty\<close>, on the directories found on disk.\<close>

definition index_new_empty ::
  "nat \<Rightarrow> snapshot_dir \<times> wal_dir \<Rightarrow> nat \<Rightarrow> nat \<Rightarrow> nat \<Rightarrow> index_t" where
  "index_new_empty bsize disk most_recent_id snaps wals =
     \<lparr>root = index_node_create, bucket_size = bsize, ranks = (\<lambda>_. None),
      wal = wal_create (most_recent_id + 1), wal_files = snd disk, snapshots = fst disk,
      last_increment_promoted = False,
      is_rebuilding = False, current_file = most_recent_id + 1, last_file = None,
      index_next_id = most_recent_id + 2, max_snapshots = snaps, max_wals = wals\<rparr>"

section \<open>Eviction order\<close>

definition compare_ejection_date :: "index_entry_t \<Rightarrow> index_entry_t \<Rightarrow> int" where
  "compare_ejection_date l r =
     (if ejection_date l = 0 \<and> ejection_date r = 0 then 0
      else if ejection_date l = 0 then 1
      else if ejection_date r = 0 then - 1
      else if ejection_date l < ejection_date r then - 1
      else if ejection_date r < ejection_date l then 1
      else 0)"

end
