(* ===== verification/Index_Trie.thy ===== *)
theory Index_Trie
  imports Index
begin

text \<open>
  Correctness of the index trie. A well-formed trie keeps every entry in the bucket its hash bits
  lead to, with no hash twice; on such tries the operations are those of a finite map from hashes
  to entries, they never read a hash past its end, and adding returns for every bucket size of at
  least two. The lemmas also say what each operation appends to the log.
\<close>

section \<open>Hash bits\<close>

definition hbit :: "bytes \<Rightarrow> nat \<Rightarrow> bool" where
  "hbit h i = bit (h ! (i div 8)) (i mod 8)"

lemma get_bit_hbit: "i < 8 * length h \<Longrightarrow> get_bit h i = Some (hbit h i)"
  by (auto simp: get_bit_def hbit_def)

lemma get_bit_past_end: "8 * length h \<le> i \<Longrightarrow> get_bit h i = None"
  by (auto simp: get_bit_def)

lemma hash_eq_bits:
  assumes "length g = length h" and "\<And>i. i < 8 * length h \<Longrightarrow> hbit g i = hbit h i"
  shows "g = h"
proof (rule nth_equalityI [OF assms(1)])
  fix k assume k: "k < length g"
  show "g ! k = h ! k"
  proof (rule bit_word_eqI)
    fix j assume j: "j < LENGTH(8)"
    then have "(8 * k + j) div 8 = k" "(8 * k + j) mod 8 = j" by auto
    with j k assms(1) show "bit (g ! k) j = bit (h ! k) j"
      using assms(2) [of "8 * k + j"] by (simp add: hbit_def)
  qed
qed

text \<open>The bits a node at depth \<open>length p\<close> has consumed: bit 0 of a hash is never one.\<close>

definition on_path :: "bool list \<Rightarrow> bytes \<Rightarrow> bool" where
  "on_path p h \<longleftrightarrow> (\<forall>i < length p. hbit h (Suc i) = p ! i)"

lemma on_path_Nil [simp]: "on_path [] h"
  by (simp add: on_path_def)

lemma on_path_snoc [simp]: "on_path (p @ [b]) h \<longleftrightarrow> on_path p h \<and> hbit h (Suc (length p)) = b"
  by (auto simp: on_path_def nth_append less_Suc_eq)

lemma on_full_path_eq:
  assumes "length g = L" "length h = L" "on_path p g" "on_path p h" "8 * L \<le> length p + 1"
    and "hbit g 0 = hbit h 0"
  shows "g = h"
proof (rule hash_eq_bits)
  fix i assume "i < 8 * length h"
  with assms show "hbit g i = hbit h i" by (cases i) (auto simp: on_path_def)
qed (use assms in simp)

text \<open>Three different hashes differ before their bits run out.\<close>

lemma path_not_full:
  assumes "on_path p g1" "on_path p g2" "on_path p g3"
    and "length g1 = L" "length g2 = L" "length g3 = L"
    and "g1 \<noteq> g2" "g1 \<noteq> g3" "g2 \<noteq> g3"
  shows "length p + 1 < 8 * L"
proof (rule ccontr)
  assume "\<not> length p + 1 < 8 * L"
  then have "8 * L \<le> length p + 1" by simp
  note eq = on_full_path_eq [OF _ _ _ _ this]
  have "hbit g1 0 \<noteq> hbit g2 0" "hbit g1 0 \<noteq> hbit g3 0" "hbit g2 0 \<noteq> hbit g3 0"
    using assms eq by metis+
  then show False by blast
qed

section \<open>Well-formed tries\<close>

fun node_wf :: "nat \<Rightarrow> nat \<Rightarrow> bool list \<Rightarrow> index_node_t \<Rightarrow> bool" where
  "node_wf b L p (Bucket es) \<longleftrightarrow>
     length es \<le> b \<and> distinct (map hash es) \<and> (\<forall>e \<in> set es. length (hash e) = L \<and> on_path p (hash e))"
| "node_wf b L p (Branch (Some l) (Some r)) \<longleftrightarrow>
     length p + 1 < 8 * L \<and> node_wf b L (p @ [False]) l \<and> node_wf b L (p @ [True]) r"
| "node_wf b L p (Branch _ _) \<longleftrightarrow> False"

fun_cases node_wf_BranchE: "node_wf b L p (Branch l r)"

abbreviation "entries \<equiv> index_node_to_array"
abbreviation "entry_of h n \<equiv> find (\<lambda>e. hash e = h) (entries n)"

lemma node_wf_entries:
  "node_wf b L p n \<Longrightarrow> e \<in> set (entries n) \<Longrightarrow> length (hash e) = L \<and> on_path p (hash e)"
  by (induction b L p n rule: node_wf.induct) auto

lemma node_wf_distinct: "node_wf b L p n \<Longrightarrow> distinct (map hash (entries n))"
proof (induction b L p n rule: node_wf.induct)
  case (2 b L p l r)
  have wf: "node_wf b L (p @ [False]) l" "node_wf b L (p @ [True]) r" using "2.prems" by simp_all
  have "hash e \<noteq> hash e'" if "e \<in> set (entries l)" "e' \<in> set (entries r)" for e e'
    using node_wf_entries [OF wf(1) that(1)] node_wf_entries [OF wf(2) that(2)] by (metis on_path_snoc)
  then have "hash ` set (entries l) \<inter> hash ` set (entries r) = {}" by auto
  with "2.IH" wf show ?case by (simp add: image_Un)
qed simp_all

lemma entry_of_eq_Some:
  assumes "distinct (map hash xs)"
  shows "find (\<lambda>e. hash e = h) xs = Some e \<longleftrightarrow> e \<in> set xs \<and> hash e = h"
  using assms by (induction xs) (auto simp: image_iff)

lemma index_node_count_length: "index_node_count n = length (entries n)"
  by (induction n rule: index_node_count.induct) (auto split: option.splits)

text \<open>Looking a hash up in a branch only misses entries with the other bit.\<close>

lemma find_append: "find P (xs @ ys) = (case find P xs of None \<Rightarrow> find P ys | Some x \<Rightarrow> Some x)"
  by (induction xs) auto

lemma find_branch:
  assumes "node_wf b L p (Branch (Some l) (Some r))"
  shows "entry_of h (Branch (Some l) (Some r)) =
    (if hbit h (Suc (length p)) then entry_of h r else entry_of h l)"
proof (cases "hbit h (Suc (length p))")
  case True
  then have "\<forall>e \<in> set (entries l). hash e \<noteq> h"
    using assms node_wf_entries [of b L "p @ [False]" l] by auto
  then have "entry_of h l = None" by (simp add: find_None_iff_all)
  with True show ?thesis by (simp add: find_append)
next
  case False
  then have "\<forall>e \<in> set (entries r). hash e \<noteq> h"
    using assms node_wf_entries [of b L "p @ [True]" r] by auto
  then have "entry_of h r = None" by (simp add: find_None_iff_all)
  with False show ?thesis by (simp add: find_append split: option.split)
qed

lemma index_find_in_node_eq:
  assumes "node_wf b L p n" and "length h = L"
  shows "index_find_in_node h n (length p) = Some (entry_of h n)"
  using assms
proof (induction b L p n rule: node_wf.induct)
  case (2 b L p l r)
  have "get_bit h (length p + 1) = Some (hbit h (Suc (length p)))"
    using "2.prems" by (simp add: get_bit_hbit)
  moreover have "index_find_in_node h l (length p + 1) = Some (entry_of h l)"
    "index_find_in_node h r (length p + 1) = Some (entry_of h r)"
    using "2.IH" "2.prems" by simp_all
  ultimately show ?case
    unfolding find_branch [OF "2.prems"(1)] by simp
next
  case (1 b L p es)
  show ?case by simp
qed simp_all

section \<open>What an operation leaves alone and what it logs\<close>

definition wal_log :: "index_t \<Rightarrow> bytes" where
  "wal_log ix = wal_contents (wal_files ix) (wal_id (wal ix))"

text \<open>\<open>ix_ext D rs ix ix'\<close>: from \<open>ix\<close> to \<open>ix'\<close> only the ranks, the promotion pulse and
  the live log changed, and the log grew by the records \<open>rs\<close> (by nothing while rebuilding).\<close>

definition ix_ext :: "('i, 'm) deps_scheme \<Rightarrow> wal_rec list \<Rightarrow> index_t \<Rightarrow> index_t \<Rightarrow> bool" where
  "ix_ext D rs ix ix' \<longleftrightarrow>
     root ix' = root ix \<and> bucket_size ix' = bucket_size ix \<and> is_rebuilding ix' = is_rebuilding ix \<and>
     wal_id (wal ix') = wal_id (wal ix) \<and> snapshots ix' = snapshots ix \<and>
     wal_log ix' = wal_log ix @ (if is_rebuilding ix then [] else wal_frames (dep_xxh32 D) rs)"

lemma ix_ext_refl [simp, intro]: "ix_ext D [] ix ix"
  by (simp add: ix_ext_def)

lemma ix_ext_trans: "ix_ext D rs ix ix' \<Longrightarrow> ix_ext D qs ix' ix'' \<Longrightarrow> ix_ext D (rs @ qs) ix ix''"
  by (auto simp: ix_ext_def)

lemma ix_ext_bucket_size: "ix_ext D rs ix ix' \<Longrightarrow> bucket_size ix' = bucket_size ix"
  and ix_ext_rebuilding: "ix_ext D rs ix ix' \<Longrightarrow> is_rebuilding ix' = is_rebuilding ix"
  and ix_ext_root: "ix_ext D rs ix ix' \<Longrightarrow> root ix' = root ix"
  by (simp_all add: ix_ext_def)

lemma ix_ext_log [intro]: "ix_ext D [(ty, d)] ix (index_log D ty d ix)"
  by (simp add: ix_ext_def index_log_def wal_write_def wal_log_def)

lemma ix_ext_rank_push: "ix_ext D rs ix (rank_push k h ix') \<longleftrightarrow> ix_ext D rs ix ix'"
  by (simp add: ix_ext_def rank_push_def wal_log_def)

lemma ix_ext_rank_remove: "ix_ext D rs ix (rank_remove k h ix') \<longleftrightarrow> ix_ext D rs ix ix'"
  by (simp add: ix_ext_def rank_remove_def wal_log_def split: option.split)

lemma ix_ext_promoted: "ix_ext D rs ix (ix'\<lparr>last_increment_promoted := b\<rparr>) \<longleftrightarrow> ix_ext D rs ix ix'"
  by (simp add: ix_ext_def wal_log_def)

lemmas ix_ext_simps = ix_ext_rank_push ix_ext_rank_remove ix_ext_promoted

definition inc_rec :: "('i, 'm) deps_scheme \<Rightarrow> index_entry_t \<Rightarrow> wal_rec" where
  "inc_rec D e = (increment, index_entry_payload (dep_cbor D) e)"

definition add_rec :: "('i, 'm) deps_scheme \<Rightarrow> index_entry_t \<Rightarrow> wal_rec" where
  "add_rec D e = (addition, index_entry_payload (dep_cbor D) e)"

lemma index_increment_entry_ext:
  "fst (index_increment_entry D e ix) = snd (index_entry_increment e) \<and>
   ix_ext D [inc_rec D e] ix (snd (index_increment_entry D e ix))"
  by (auto simp: index_increment_entry_def Let_def case_prod_beta ix_ext_simps inc_rec_def)

lemma hash_index_entry_increment [simp]: "hash (snd (index_entry_increment e)) = hash e"
  by (simp add: index_entry_increment_def case_prod_beta)

section \<open>Adding\<close>

lemma index_add_to_bucket:
  assumes "entry_of (hash e) (Bucket es) = None" and "length es < bucket_size ix" and "0 < f"
  shows "\<exists>ix'. index_add_to_node f D e (Bucket es) cur ix = Some (Bucket (es @ [e]), ix') \<and>
    ix_ext D [add_rec D e] ix ix'"
proof -
  obtain g where "f = Suc g" using assms(3) by (cases f) auto
  with assms(1,2) show ?thesis
    by (auto simp: ix_ext_simps add_rec_def Let_def rank_push_def)
      (auto simp: ix_ext_def index_log_def wal_log_def wal_write_def)
qed

text \<open>Re-adding the entries of a full bucket below the new branch never splits again.\<close>

lemma index_add_list_branch:
  assumes "length xs + length ys + length es \<le> bucket_size ix" and "2 \<le> f"
    and "distinct (map hash (xs @ ys @ es))"
    and "\<forall>e \<in> set es. cur + 1 < 8 * length (hash e)"
  shows "\<exists>ix'. index_add_list f D es (Branch (Some (Bucket xs)) (Some (Bucket ys))) cur ix =
      Some (Branch (Some (Bucket (xs @ filter (\<lambda>e. \<not> hbit (hash e) (cur + 1)) es)))
                   (Some (Bucket (ys @ filter (\<lambda>e. hbit (hash e) (cur + 1)) es))), ix') \<and>
    ix_ext D (map (add_rec D) es) ix ix'"
  using assms
proof (induction es arbitrary: xs ys ix)
  case (Cons e es)
  obtain g where g: "f = Suc g" "0 < g" using Cons.prems(2) by (cases f) auto
  have bit: "get_bit (hash e) (cur + 1) = Some (hbit (hash e) (cur + 1))"
    using Cons.prems(4) by (simp add: get_bit_hbit)
  show ?case
  proof (cases "hbit (hash e) (cur + 1)")
    case True
    have "entry_of (hash e) (Bucket ys) = None" "length ys < bucket_size ix"
      using Cons.prems(1,3) by (auto simp: find_None_iff_all image_iff)
    from index_add_to_bucket [OF this g(2), of D "cur + 1"]
    obtain ix1 where ix1: "index_add_to_node g D e (Bucket ys) (cur + 1) ix = Some (Bucket (ys @ [e]), ix1)"
        "ix_ext D [add_rec D e] ix ix1" by blast
    have "\<exists>ix'. index_add_list f D es (Branch (Some (Bucket xs)) (Some (Bucket (ys @ [e])))) cur ix1 =
      Some (Branch (Some (Bucket (xs @ filter (\<lambda>e. \<not> hbit (hash e) (cur + 1)) es)))
                   (Some (Bucket ((ys @ [e]) @ filter (\<lambda>e. hbit (hash e) (cur + 1)) es))), ix') \<and>
      ix_ext D (map (add_rec D) es) ix1 ix'"
      using Cons.prems ix_ext_bucket_size [OF ix1(2)] by (intro Cons.IH) auto
    with True bit ix1 g ix_ext_trans [OF ix1(2)] show ?thesis by fastforce
  next
    case False
    have "entry_of (hash e) (Bucket xs) = None" "length xs < bucket_size ix"
      using Cons.prems(1,3) by (auto simp: find_None_iff_all image_iff)
    from index_add_to_bucket [OF this g(2), of D "cur + 1"]
    obtain ix1 where ix1: "index_add_to_node g D e (Bucket xs) (cur + 1) ix = Some (Bucket (xs @ [e]), ix1)"
        "ix_ext D [add_rec D e] ix ix1" by blast
    have "\<exists>ix'. index_add_list f D es (Branch (Some (Bucket (xs @ [e]))) (Some (Bucket ys))) cur ix1 =
      Some (Branch (Some (Bucket ((xs @ [e]) @ filter (\<lambda>e. \<not> hbit (hash e) (cur + 1)) es)))
                   (Some (Bucket (ys @ filter (\<lambda>e. hbit (hash e) (cur + 1)) es))), ix') \<and>
      ix_ext D (map (add_rec D) es) ix1 ix'"
      using Cons.prems ix_ext_bucket_size [OF ix1(2)] by (intro Cons.IH) auto
    with False bit ix1 g ix_ext_trans [OF ix1(2)] show ?thesis by fastforce
  qed
qed simp

text \<open>The outcome of adding a new entry: the trie stays well formed and gains exactly that entry,
  and the log gains addition records, the last of them for the entry and the others for entries
  that were there.\<close>

definition added ::
  "('i, 'm) deps_scheme \<Rightarrow> index_entry_t \<Rightarrow> nat \<Rightarrow> nat \<Rightarrow> bool list \<Rightarrow> index_node_t \<Rightarrow> index_t \<Rightarrow>
     (index_node_t \<times> index_t) option \<Rightarrow> bool" where
  "added D e b L p n ix res \<longleftrightarrow>
     (\<exists>n' ix' xs. res = Some (n', ix') \<and> node_wf b L p n' \<and>
        mset (entries n') = add_mset e (mset (entries n)) \<and>
        ix_ext D (map (add_rec D) (xs @ [e])) ix ix' \<and> set xs \<subseteq> set (entries n))"

lemma added_branch:
  assumes wf: "node_wf b L p (Branch (Some l) (Some r))"
    and e: "length (hash e) = L" "on_path p (hash e)" "entry_of (hash e) (Branch (Some l) (Some r)) = None"
    and child: "\<And>c. node_wf b L (p @ [hbit (hash e) (Suc (length p))]) c \<Longrightarrow> entry_of (hash e) c = None \<Longrightarrow>
      added D e b L (p @ [hbit (hash e) (Suc (length p))]) c ix (index_add_to_node f D e c (Suc (length p)) ix)"
  shows "added D e b L p (Branch (Some l) (Some r)) ix
    (index_add_to_node (Suc f) D e (Branch (Some l) (Some r)) (length p) ix)"
proof -
  have bit: "get_bit (hash e) (Suc (length p)) = Some (hbit (hash e) (Suc (length p)))"
    using wf e(1) by (simp add: get_bit_hbit)
  show ?thesis
  proof (cases "hbit (hash e) (Suc (length p))")
    case True
    have "added D e b L (p @ [True]) r ix (index_add_to_node f D e r (Suc (length p)) ix)"
      using child [of r] wf True e(3) find_branch [OF wf, of "hash e"] by simp
    then obtain n' ix' xs where r: "index_add_to_node f D e r (Suc (length p)) ix = Some (n', ix')"
        "node_wf b L (p @ [True]) n'" "mset (entries n') = add_mset e (mset (entries r))"
        "ix_ext D (map (add_rec D) (xs @ [e])) ix ix'" "set xs \<subseteq> set (entries r)"
      unfolding added_def by blast
    show ?thesis unfolding added_def
      using r wf True bit
      by (intro exI [of _ "Branch (Some l) (Some n')"] exI [of _ ix'] exI [of _ xs]) auto
  next
    case False
    have "added D e b L (p @ [False]) l ix (index_add_to_node f D e l (Suc (length p)) ix)"
      using child [of l] wf False e(3) find_branch [OF wf, of "hash e"] by simp
    then obtain n' ix' xs where l: "index_add_to_node f D e l (Suc (length p)) ix = Some (n', ix')"
        "node_wf b L (p @ [False]) n'" "mset (entries n') = add_mset e (mset (entries l))"
        "ix_ext D (map (add_rec D) (xs @ [e])) ix ix'" "set xs \<subseteq> set (entries l)"
      unfolding added_def by blast
    show ?thesis unfolding added_def
      using l wf False bit
      by (intro exI [of _ "Branch (Some n') (Some r)"] exI [of _ ix'] exI [of _ xs]) auto
  qed
qed

lemma full_bucket_has_bits:
  assumes "node_wf b L p (Bucket es)" and "2 \<le> length es"
    and "length (hash e) = L" "on_path p (hash e)" "entry_of (hash e) (Bucket es) = None"
  shows "length p + 1 < 8 * L"
proof -
  obtain x y zs where es: "es = x # y # zs" using assms(2) by (metis One_nat_def Suc_1 Suc_le_length_iff)
  with assms show ?thesis
    by (intro path_not_full [of p "hash x" "hash y" "hash e" L]) (auto split: if_splits)
qed

text \<open>A full bucket split at its depth.\<close>

definition split_bucket :: "nat \<Rightarrow> index_entry_t list \<Rightarrow> index_node_t" where
  "split_bucket cur es =
     Branch (Some (Bucket (filter (\<lambda>e. \<not> hbit (hash e) (cur + 1)) es)))
            (Some (Bucket (filter (\<lambda>e. hbit (hash e) (cur + 1)) es)))"

lemma mset_split_bucket: "mset (entries (split_bucket cur es)) = mset es"
  by (simp add: split_bucket_def)

lemma split_bucket_wf:
  assumes "node_wf b L p (Bucket es)" and "length p + 1 < 8 * L"
  shows "node_wf b L p (split_bucket (length p) es)"
  using assms
  by (auto simp: split_bucket_def distinct_map_filter intro: le_trans [OF length_filter_le])

lemma index_add_to_node_new:
  assumes "node_wf b L p n" and "length (hash e) = L" and "on_path p (hash e)"
    and "entry_of (hash e) n = None" and "bucket_size ix = b" and "2 \<le> b"
    and "2 * (8 * L - length p) + (case n of Bucket _ \<Rightarrow> 1 | Branch _ _ \<Rightarrow> 0) \<le> f"
  shows "added D e b L p n ix (index_add_to_node f D e n (length p) ix)"
  using assms
proof (induction "8 * L - length p" arbitrary: p n ix f rule: less_induct)
  case less
  have branch: "added D e b L p (Branch (Some l) (Some r)) ix
      (index_add_to_node f D e (Branch (Some l) (Some r)) (length p) ix)"
    if "node_wf b L p (Branch (Some l) (Some r))" "entry_of (hash e) (Branch (Some l) (Some r)) = None"
       "2 * (8 * L - length p) \<le> f" "bucket_size ix = b" for l r f ix
  proof -
    from that obtain g where g: "f = Suc g" by (cases f) auto
    let ?q = "p @ [hbit (hash e) (Suc (length p))]"
    have "2 * (8 * L - length ?q) + 1 \<le> g" "8 * L - length ?q < 8 * L - length p"
      using that g by auto
    note q = this
    have child: "added D e b L ?q c ix (index_add_to_node g D e c (length ?q) ix)"
      if "node_wf b L ?q c" "entry_of (hash e) c = None" for c
    proof (rule less.hyps [OF q(2) that(1) less.prems(2) _ that(2) _ less.prems(6)])
      show "on_path ?q (hash e)" using less.prems(3) by simp
      show "bucket_size ix = b" by fact
      show "2 * (8 * L - length ?q) + (case c of Bucket _ \<Rightarrow> 1 | Branch _ _ \<Rightarrow> 0) \<le> g"
        using q(1) by (cases c) simp_all
    qed
    show ?thesis unfolding g
      using added_branch [OF that(1) less.prems(2,3) that(2), of D ix g] child by simp
  qed
  show ?case
  proof (cases n)
    case (Branch l r)
    with less.prems(1) obtain l' r' where n: "n = Branch (Some l') (Some r')" by (cases l; cases r) auto
    show ?thesis using branch [of l' r' f ix] less.prems unfolding n by simp
  next
    case (Bucket es)
    then obtain g where g: "f = Suc g" "2 * (8 * L - length p) \<le> g" using less.prems(7) by (cases f) auto
    show ?thesis
    proof (cases "length es < b")
      case True
      obtain ix' where ix': "index_add_to_node f D e (Bucket es) (length p) ix = Some (Bucket (es @ [e]), ix')"
          "ix_ext D [add_rec D e] ix ix'"
        using index_add_to_bucket [of e es ix f D "length p"] less.prems(4,5) Bucket True g(1) by auto
      have "node_wf b L p (Bucket (es @ [e]))"
        using less.prems(1-4) Bucket True by (simp add: find_None_iff_all) (metis imageE)
      with ix' Bucket show ?thesis
        unfolding added_def
        by (intro exI [of _ "Bucket (es @ [e])"] exI [of _ ix'] exI [of _ "[]"]) simp
    next
      case False
      with less.prems(1,6) Bucket have es: "length es = b" "2 \<le> length es" by auto
      have more: "length p + 1 < 8 * L"
        by (rule full_bucket_has_bits [OF less.prems(1) [unfolded Bucket] es(2) less.prems(2,3)
              less.prems(4) [unfolded Bucket]])
      define ix1 where "ix1 = (if fib_level (counter e) = 0 \<and> hit_count (counter e) = 0
        then rank_push (fib_level (counter e)) (hash e) ix else ix)"
      have ix1: "ix_ext D [] ix ix1" by (simp add: ix1_def ix_ext_simps)
      have "\<exists>ix2. index_add_list g D es (Branch (Some (Bucket [])) (Some (Bucket []))) (length p) ix1 =
          Some (split_bucket (length p) es, ix2) \<and> ix_ext D (map (add_rec D) es) ix1 ix2"
        using index_add_list_branch [of "[]" "[]" es ix1 g "length p" D] es less.prems(1,5) Bucket more g(2)
          ix_ext_bucket_size [OF ix1]
        by (simp add: split_bucket_def)
      then obtain ix2 where ix2: "index_add_list g D es (Branch (Some (Bucket [])) (Some (Bucket []))) (length p) ix1 =
          Some (split_bucket (length p) es, ix2)" "ix_ext D (map (add_rec D) es) ix1 ix2" by blast
      have ext: "ix_ext D (map (add_rec D) es) ix ix2"
        using ix_ext_trans [OF ix1 ix2(2)] by simp
      have eq: "index_add_to_node f D e n (length p) ix =
          index_add_to_node g D e (split_bucket (length p) es) (length p) ix2"
        using less.prems(4,5) Bucket es(1) ix2(1) ix_ext_bucket_size [OF ix1] g(1)
        by (simp add: ix1_def index_node_create_def Let_def)
      have "entry_of (hash e) (split_bucket (length p) es) = None"
        using less.prems(4) Bucket mset_eq_setD [OF mset_split_bucket [of "length p" es]]
        by (simp add: find_None_iff_all)
      then have "added D e b L p (split_bucket (length p) es) ix2
          (index_add_to_node g D e (split_bucket (length p) es) (length p) ix2)"
        using branch [of _ _ g ix2] split_bucket_wf [of b L p es] less.prems(1,5) Bucket more g(2)
          ix_ext_bucket_size [OF ext]
        by (simp add: split_bucket_def)
      then obtain n' ix' xs where r: "index_add_to_node g D e (split_bucket (length p) es) (length p) ix2 = Some (n', ix')"
          "node_wf b L p n'" "mset (entries n') = add_mset e (mset es)"
          "ix_ext D (map (add_rec D) (xs @ [e])) ix2 ix'" "set xs \<subseteq> set es"
        unfolding added_def mset_split_bucket mset_eq_setD [OF mset_split_bucket] by blast
      show ?thesis
        unfolding added_def eq using r Bucket ix_ext_trans [OF ext r(4)]
        by (intro exI [of _ n'] exI [of _ ix'] exI [of _ "es @ xs"]) auto
    qed
  qed
qed

end
