(* ===== verification/Index_Map.thy ===== *)
theory Index_Map
  imports Index_Trie
begin

text \<open>
  The index as a finite map from hashes to entries: what adding, reading, changing and removing do
  to the map on a well-formed index, and what each of them logs.
\<close>

section \<open>Changing and removing entries\<close>

lemma entries_index_node_update:
  "entries (index_node_update h g n) = map (\<lambda>e. if hash e = h then g e else e) (entries n)"
  by (induction h g n rule: index_node_update.induct) (auto split: option.splits)

lemma index_node_update_absent:
  "node_wf b L p n \<Longrightarrow> \<forall>e \<in> set (entries n). hash e \<noteq> h \<Longrightarrow> index_node_update h g n = n"
proof (induction b L p n rule: node_wf.induct)
  case (1 b L p es)
  then show ?case by (auto intro!: map_idI)
qed (auto simp: ball_Un)

lemma index_node_update_wf:
  assumes "node_wf b L p n" and "\<And>e. hash e = h \<Longrightarrow> hash (g e) = h"
  shows "node_wf b L p (index_node_update h g n)"
  using assms(1)
proof (induction b L p n rule: node_wf.induct)
  case (1 b L p es)
  have "hash (if hash e = h then g e else e) = hash e" for e using assms(2) by simp
  with 1 show ?case by (simp add: comp_def) (auto simp: assms(2))
qed auto

text \<open>The child a hash does not lead to has no entry for it.\<close>

lemma other_child_absent:
  assumes "node_wf b L p (Branch (Some l) (Some r))"
  shows "hbit h (Suc (length p)) \<Longrightarrow> \<forall>e \<in> set (entries l). hash e \<noteq> h"
    and "\<not> hbit h (Suc (length p)) \<Longrightarrow> \<forall>e \<in> set (entries r). hash e \<noteq> h"
proof -
  have wf: "node_wf b L (p @ [False]) l" "node_wf b L (p @ [True]) r" using assms by simp_all
  show "hbit h (Suc (length p)) \<Longrightarrow> \<forall>e \<in> set (entries l). hash e \<noteq> h"
    using node_wf_entries [OF wf(1)] by (metis on_path_snoc)
  show "\<not> hbit h (Suc (length p)) \<Longrightarrow> \<forall>e \<in> set (entries r). hash e \<noteq> h"
    using node_wf_entries [OF wf(2)] by (metis on_path_snoc)
qed

lemma index_add_to_node_existing:
  assumes "node_wf b L p n" and "length (hash e) = L" and "entry_of (hash e) n = Some x"
    and "8 * L - length p < f"
  shows "\<exists>ix'. index_add_to_node f D e n (length p) ix =
      Some (if is_rebuilding ix then n
            else index_node_update (hash e) (\<lambda>_. snd (index_entry_increment x)) n, ix') \<and>
    (if is_rebuilding ix then ix' = ix else ix_ext D [inc_rec D x] ix ix')"
  using assms
proof (induction b L p n arbitrary: f rule: node_wf.induct)
  case (1 b L p es)
  obtain g where f: "f = Suc g" using "1.prems"(4) by (cases f) auto
  have "update_first (\<lambda>x. hash x = hash e) (\<lambda>_. x') es = map (\<lambda>x. if hash x = hash e then x' else x) es" for x'
    using "1.prems"(1) by (intro update_first_map) simp
  with "1.prems"(3) f index_increment_entry_ext [of D x ix] show ?case
    by (simp add: case_prod_beta)
next
  case (2 b L p l r)
  obtain g where f: "f = Suc g" using "2.prems"(4) by (cases f) auto
  have bit: "get_bit (hash e) (Suc (length p)) = Some (hbit (hash e) (Suc (length p)))"
    using "2.prems"(1,2) by (simp add: get_bit_hbit)
  have fuel: "8 * L - length (p @ [c]) < g" for c
    using "2.prems"(1,4) f by auto
  note absent = other_child_absent [OF "2.prems"(1), of "hash e"]
  show ?case
  proof (cases "hbit (hash e) (Suc (length p))")
    case True
    then have "entry_of (hash e) r = Some x"
      using "2.prems"(3) find_branch [OF "2.prems"(1), of "hash e"] by simp
    with "2.IH"(2) [OF _ "2.prems"(2) _ fuel] "2.prems"(1) True bit absent(1)
    show ?thesis
      by (auto simp: f index_node_update_absent [of b L "p @ [False]" l])
  next
    case False
    then have "entry_of (hash e) l = Some x"
      using "2.prems"(3) find_branch [OF "2.prems"(1), of "hash e"] by simp
    with "2.IH"(1) [OF _ "2.prems"(2) _ fuel] "2.prems"(1) False bit absent(2)
    show ?thesis
      by (auto simp: f index_node_update_absent [of b L "p @ [True]" r])
  qed
qed simp_all

lemma index_get_from_node_eq:
  assumes "node_wf b L p n" and "length h = L"
  shows "\<exists>ix'. index_get_from_node D h n (length p) ix =
      Some (map_option (\<lambda>x. snd (index_entry_increment x)) (entry_of h n),
            (case entry_of h n of None \<Rightarrow> n
             | Some x \<Rightarrow> index_node_update h (\<lambda>_. snd (index_entry_increment x)) n), ix') \<and>
    ix_ext D (case entry_of h n of None \<Rightarrow> [] | Some x \<Rightarrow> [inc_rec D x]) ix ix'"
  using assms
proof (induction b L p n rule: node_wf.induct)
  case (1 b L p es)
  have "update_first (\<lambda>x. hash x = h) (\<lambda>_. x') es = map (\<lambda>x. if hash x = h then x' else x) es" for x'
    using "1.prems"(1) by (intro update_first_map) simp
  with index_increment_entry_ext [of D _ ix] show ?case
    by (simp add: case_prod_beta split: option.split)
next
  case (2 b L p l r)
  have bit: "get_bit h (Suc (length p)) = Some (hbit h (Suc (length p)))"
    using "2.prems"(1,2) by (simp add: get_bit_hbit)
  note absent = other_child_absent [OF "2.prems"(1), of h]
  note branch = find_branch [OF "2.prems"(1), of h]
  show ?case
  proof (cases "hbit h (Suc (length p))")
    case True
    with "2.IH"(2) [OF _ "2.prems"(2)] "2.prems"(1) bit absent(1)
    show ?thesis unfolding branch
      by (auto simp: index_node_update_absent [of b L "p @ [False]" l] split: option.split)
  next
    case False
    with "2.IH"(1) [OF _ "2.prems"(2)] "2.prems"(1) bit absent(2)
    show ?thesis unfolding branch
      by (auto simp: index_node_update_absent [of b L "p @ [True]" r] split: option.split)
  qed
qed simp_all

definition rem_rec :: "('i, 'm) deps_scheme \<Rightarrow> bytes \<Rightarrow> wal_rec" where
  "rem_rec D h = (removal, cbor_serialize (dep_cbor D) (cbor_build_bytestring (dep_cbor D) h))"

lemma filter_absent: "\<forall>e \<in> set xs. hash e \<noteq> h \<Longrightarrow> filter (\<lambda>e. hash e \<noteq> h) xs = xs"
  by (simp add: filter_id_conv)

lemma index_remove_from_node_eq:
  assumes "node_wf b L p n" and "length h = L"
  shows "\<exists>n' ix'. index_remove_from_node D h n (length p) ix = Some (n', ix') \<and> node_wf b L p n' \<and>
    entries n' = filter (\<lambda>e. hash e \<noteq> h) (entries n) \<and>
    ix_ext D (case entry_of h n of None \<Rightarrow> [] | Some x \<Rightarrow> [rem_rec D h]) ix ix'"
  using assms
proof (induction b L p n rule: node_wf.induct)
  case (1 b L p es)
  have "remove_first (\<lambda>x. hash x = h) es = filter (\<lambda>e. hash e \<noteq> h) es"
    using "1.prems"(1) by (intro remove_first_filter) simp
  moreover have "node_wf b L p (Bucket (filter (\<lambda>e. hash e \<noteq> h) es))"
    using "1.prems"(1) by (auto simp: distinct_map_filter intro: le_trans [OF length_filter_le])
  moreover have "ix_ext D [rem_rec D h] ix (rank_remove k h (index_log D removal
      (cbor_serialize (dep_cbor D) (cbor_build_bytestring (dep_cbor D) h)) ix))" for k
    by (auto simp: ix_ext_simps rem_rec_def)
  ultimately show ?case
    by (auto simp: Let_def find_None_iff_all filter_absent dest: find_Some_iff_mem split: option.split)
next
  case (2 b L p l r)
  have bit: "get_bit h (Suc (length p)) = Some (hbit h (Suc (length p)))"
    using "2.prems"(1,2) by (simp add: get_bit_hbit)
  note absent = other_child_absent [OF "2.prems"(1), of h]
  note branch = find_branch [OF "2.prems"(1), of h]
  show ?case
  proof (cases "hbit h (Suc (length p))")
    case True
    then obtain n' ix' where "index_remove_from_node D h r (Suc (length p)) ix = Some (n', ix')"
        "node_wf b L (p @ [True]) n'" "entries n' = filter (\<lambda>e. hash e \<noteq> h) (entries r)"
        "ix_ext D (case entry_of h r of None \<Rightarrow> [] | Some x \<Rightarrow> [rem_rec D h]) ix ix'"
      using "2.IH"(2) [OF _ "2.prems"(2)] "2.prems"(1) by auto
    with True "2.prems"(1) bit absent(1) show ?thesis unfolding branch
      by (intro exI [of _ "Branch (Some l) (Some n')"] exI [of _ ix']) (simp add: filter_absent)
  next
    case False
    then obtain n' ix' where "index_remove_from_node D h l (Suc (length p)) ix = Some (n', ix')"
        "node_wf b L (p @ [False]) n'" "entries n' = filter (\<lambda>e. hash e \<noteq> h) (entries l)"
        "ix_ext D (case entry_of h l of None \<Rightarrow> [] | Some x \<Rightarrow> [rem_rec D h]) ix ix'"
      using "2.IH"(1) [OF _ "2.prems"(2)] "2.prems"(1) by auto
    with False "2.prems"(1) bit absent(2) show ?thesis unfolding branch
      by (intro exI [of _ "Branch (Some n') (Some r)"] exI [of _ ix']) (simp add: filter_absent)
  qed
qed simp_all

section \<open>The finite map\<close>

text \<open>An index is well formed when its trie is, over 32-byte hashes; a bucket size of at least two
  is what lets three different hashes be told apart before their bits run out.\<close>

definition index_wf :: "index_t \<Rightarrow> bool" where
  "index_wf ix \<longleftrightarrow> 2 \<le> bucket_size ix \<and> node_wf (bucket_size ix) BLAKE3_OUT_LEN [] (root ix)"

definition index_map :: "index_t \<Rightarrow> bytes \<Rightarrow> index_entry_t option" where
  "index_map ix h = entry_of h (root ix)"

lemma index_map_hash: "index_map ix h = Some e \<Longrightarrow> hash e = h"
  unfolding index_map_def by (auto dest: find_Some_iff_mem)

lemma index_map_length:
  assumes "index_wf ix" and "index_map ix h = Some e"
  shows "length h = BLAKE3_OUT_LEN"
  using node_wf_entries [of "bucket_size ix" BLAKE3_OUT_LEN "[]" "root ix" e] assms
    find_Some_iff_mem [of _ "entries (root ix)" e] index_map_hash [OF assms(2)]
  unfolding index_wf_def index_map_def by metis

lemma index_map_mem:
  assumes "index_wf ix"
  shows "index_map ix h = Some e \<longleftrightarrow> e \<in> set (index_to_array ix) \<and> hash e = h"
  using entry_of_eq_Some [OF node_wf_distinct, of "bucket_size ix" BLAKE3_OUT_LEN "[]" "root ix" h e] assms
  by (simp add: index_map_def index_to_array_def index_wf_def)

lemma find_update_map:
  assumes "\<And>e. hash e = h \<Longrightarrow> hash (g e) = h"
  shows "find (\<lambda>e. hash e = k) (map (\<lambda>e. if hash e = h then g e else e) xs) =
    (if k = h then map_option g (find (\<lambda>e. hash e = k) xs) else find (\<lambda>e. hash e = k) xs)"
  using assms by (induction xs) auto

lemma index_map_update:
  assumes "\<And>e. hash e = h \<Longrightarrow> hash (g e) = h"
  shows "index_map (ix\<lparr>root := index_node_update h g (root ix)\<rparr>) =
    (index_map ix)(h := map_option g (index_map ix h))"
  by (rule ext) (simp add: index_map_def entries_index_node_update find_update_map assms)

lemma index_update_wf:
  "index_wf ix \<Longrightarrow> (\<And>e. hash e = h \<Longrightarrow> hash (g e) = h) \<Longrightarrow> index_wf (ix\<lparr>root := index_node_update h g (root ix)\<rparr>)"
  by (simp add: index_wf_def index_node_update_wf)

text \<open>Replacing the root of a state that differs only by its log and ranks.\<close>

lemma ix_ext_index_map: "ix_ext D rs ix ix' \<Longrightarrow> index_map ix' = index_map ix"
  and ix_ext_index_wf: "ix_ext D rs ix ix' \<Longrightarrow> index_wf ix' = index_wf ix"
  by (auto simp: ix_ext_def index_map_def index_wf_def)

definition index_logged :: "('i, 'm) deps_scheme \<Rightarrow> wal_rec list \<Rightarrow> index_t \<Rightarrow> index_t \<Rightarrow> bool" where
  "index_logged D rs ix ix' \<longleftrightarrow> ix_ext D rs ix (ix'\<lparr>root := root ix\<rparr>)"

lemma index_logged_root: "ix_ext D rs ix ix' \<Longrightarrow> index_logged D rs ix (ix'\<lparr>root := n\<rparr>)"
  by (auto simp: index_logged_def ix_ext_def wal_log_def)

lemma index_logged_trans:
  "index_logged D rs ix ix' \<Longrightarrow> index_logged D qs ix' ix'' \<Longrightarrow> index_logged D (rs @ qs) ix ix''"
  by (auto simp: index_logged_def ix_ext_def wal_log_def)

lemma find_add_mset:
  assumes "mset ys = add_mset e (mset xs)" and "distinct (map hash ys)"
  shows "find (\<lambda>x. hash x = h) ys = (if h = hash e then Some e else find (\<lambda>x. hash x = h) xs)"
proof -
  have "mset (map hash ys) = mset (map hash (e # xs))" using assms(1) by simp
  then have d: "distinct (map hash (e # xs))" using assms(2) by (metis mset_eq_imp_distinct_iff)
  have s: "set ys = set (e # xs)" using assms(1) by (metis mset.simps(2) mset_eq_setD)
  have "find (\<lambda>x. hash x = h) ys = Some y \<longleftrightarrow> find (\<lambda>x. hash x = h) (e # xs) = Some y" for y
    by (simp only: entry_of_eq_Some [OF assms(2)] entry_of_eq_Some [OF d] s)
  then have "find (\<lambda>x. hash x = h) ys = find (\<lambda>x. hash x = h) (e # xs)"
    by (metis option.exhaust)
  then show ?thesis by auto
qed

lemma index_add_new_eq:
  assumes "index_wf ix" and "length (hash e) = BLAKE3_OUT_LEN" and "index_map ix (hash e) = None"
  shows "\<exists>ix' xs. index_add D ix e = Some ix' \<and> index_wf ix' \<and>
    index_map ix' = (index_map ix)(hash e \<mapsto> e) \<and> index_count ix' = index_count ix + 1 \<and>
    index_logged D (map (add_rec D) (xs @ [e])) ix ix' \<and> set xs \<subseteq> set (index_to_array ix)"
proof -
  let ?b = "bucket_size ix" and ?n = "root ix"
  have "added D e ?b BLAKE3_OUT_LEN [] ?n ix (index_add_to_node (index_fuel (hash e)) D e ?n (length ([] :: bool list)) ix)"
    using assms by (intro index_add_to_node_new)
      (auto simp: index_wf_def index_map_def index_fuel_def split: index_node_t.split)
  then obtain n' ix' xs where r: "index_add_to_node (index_fuel (hash e)) D e ?n 0 ix = Some (n', ix')"
      "node_wf ?b BLAKE3_OUT_LEN [] n'" "mset (entries n') = add_mset e (mset (entries ?n))"
      "ix_ext D (map (add_rec D) (xs @ [e])) ix ix'" "set xs \<subseteq> set (entries ?n)"
    unfolding added_def by auto
  have "index_map (ix'\<lparr>root := n'\<rparr>) = (index_map ix)(hash e \<mapsto> e)"
    using find_add_mset [OF r(3) node_wf_distinct [OF r(2)]]
    by (auto simp: index_map_def fun_eq_iff)
  moreover have "index_count (ix'\<lparr>root := n'\<rparr>) = index_count ix + 1"
    using arg_cong [OF r(3), of size] by (simp add: index_count_def index_node_count_length)
  moreover have "index_wf (ix'\<lparr>root := n'\<rparr>)"
    using assms(1) r(2) ix_ext_bucket_size [OF r(4)] by (simp add: index_wf_def)
  ultimately show ?thesis
    using r index_logged_root [OF r(4), of n'] by (auto simp: index_add_def index_to_array_def)
qed

text \<open>C3. Adding an entry with a new hash. On a well-formed index \<open>index_add\<close> always returns (the
  recursion through splits ends, and no hash is read past its last bit), keeps the index well
  formed and extends the map by exactly this entry. The log grows by addition records only: one
  for every entry a split moved, and a last one for the new entry.\<close>

theorem index_add_new:
  assumes "index_wf ix" and "length (hash e) = BLAKE3_OUT_LEN" and "index_map ix (hash e) = None"
  shows "\<exists>ix' xs. index_add D ix e = Some ix' \<and> index_wf ix' \<and>
    index_map ix' = (index_map ix)(hash e \<mapsto> e) \<and> index_count ix' = index_count ix + 1 \<and>
    index_logged D (map (add_rec D) (xs @ [e])) ix ix' \<and> set xs \<subseteq> set (index_to_array ix)"
  by (rule index_add_new_eq [OF assms])

text \<open>A small index for the examples: two entries in one bucket of size two.\<close>

definition example_deps :: "(nat \<times> cval) deps" where
  "example_deps = \<lparr>dep_cbor = rfc8949_api, dep_xxh32 = (\<lambda>d. of_nat (length d)), dep_xxh64 = (\<lambda>d. of_nat (le_nat d))\<rparr>"

definition example_hash :: "u8 \<Rightarrow> bytes" where
  "example_hash x = x # replicate 31 0"

definition example_index :: index_t where
  "example_index = (index_new_empty 2 ([], \<lambda>_. None) 0 3 3)
     \<lparr>root := Bucket [index_entry_create (example_hash 1), index_entry_create (example_hash 3)]\<rparr>"

lemma length_example_hash [simp]: "length (example_hash x) = BLAKE3_OUT_LEN"
  by (simp add: example_hash_def BLAKE3_OUT_LEN_def)

lemma example_hash_eq [simp]: "example_hash x = example_hash y \<longleftrightarrow> x = y"
  by (simp add: example_hash_def)

lemma example_index_wf [simp]: "index_wf example_index"
  by (simp add: index_wf_def example_index_def index_new_empty_def index_entry_create_def
      example_hash_def BLAKE3_OUT_LEN_def)

lemma example_index_map:
  "index_map example_index h =
     (if h = example_hash 1 then Some (index_entry_create h)
      else if h = example_hash 3 then Some (index_entry_create h) else None)"
  by (auto simp: index_map_def example_index_def index_new_empty_def index_entry_create_def)

lemma index_count_example [simp]: "index_count example_index = 2"
  by (simp add: index_count_def example_index_def)

theorem index_add_new_witness:
  "\<exists>ix' xs. index_add example_deps example_index (index_entry_create (example_hash 5)) = Some ix' \<and>
     index_wf ix' \<and>
     index_map ix' = (index_map example_index)(example_hash 5 \<mapsto> index_entry_create (example_hash 5)) \<and>
     index_count ix' = 3 \<and> set xs \<subseteq> set (index_to_array example_index)"
  using index_add_new [of example_index "index_entry_create (example_hash 5)" example_deps]
  by (auto simp: example_index_map)

text \<open>C12. Looking a hash up. On a well-formed index \<open>index_find\<close> and \<open>index_peek\<close> return exactly
  what the map holds, for every 32-byte hash, without reading it past its end.\<close>

theorem index_find_correct:
  assumes "index_wf ix" and "length h = BLAKE3_OUT_LEN"
  shows "index_find ix h = Some (index_map ix h) \<and> index_peek ix h = Some (index_map ix h)"
  using index_find_in_node_eq [of "bucket_size ix" BLAKE3_OUT_LEN "[]" "root ix" h] assms
  by (simp add: index_find_def index_peek_def index_map_def index_wf_def)

theorem index_find_correct_witness:
  "index_find example_index (example_hash 3) = Some (Some (index_entry_create (example_hash 3))) \<and>
   index_find example_index (example_hash 2) = Some None"
  using index_find_correct [of example_index "example_hash 3"]
    index_find_correct [of example_index "example_hash 2"]
  by (simp add: example_index_map)

lemma index_find_eq:
  assumes "index_wf ix" and "length h = BLAKE3_OUT_LEN"
  shows "index_find ix h = Some (index_map ix h)" and "index_peek ix h = Some (index_map ix h)"
  using index_find_in_node_eq [of "bucket_size ix" BLAKE3_OUT_LEN "[]" "root ix" h] assms
  by (simp_all add: index_find_def index_peek_def index_map_def index_wf_def)

section \<open>Hits, changes and removal\<close>

text \<open>Counting a hit of the entry for \<open>h\<close>.\<close>

definition bump :: "bytes \<Rightarrow> (bytes \<Rightarrow> index_entry_t option) \<Rightarrow> bytes \<Rightarrow> index_entry_t option" where
  "bump h m = m(h := map_option (\<lambda>x. snd (index_entry_increment x)) (m h))"

lemma index_map_bump:
  assumes "index_map ix h = Some x"
  shows "index_map (ix\<lparr>root := index_node_update h (\<lambda>_. snd (index_entry_increment x)) (root ix)\<rparr>) =
    bump h (index_map ix)"
  using assms index_map_hash [OF assms]
  by (subst index_map_update) (auto simp: bump_def)

lemma index_map_root: "index_map (ix\<lparr>root := n\<rparr>) = index_map (ix'\<lparr>root := n\<rparr>)"
  by (simp add: index_map_def fun_eq_iff)

lemma index_get_eq:
  assumes "index_wf ix" and "length h = BLAKE3_OUT_LEN"
  shows "\<exists>ix'. index_get D ix h = Some (bump h (index_map ix) h, ix') \<and> index_wf ix' \<and>
    index_map ix' = bump h (index_map ix) \<and>
    index_logged D (case index_map ix h of None \<Rightarrow> [] | Some x \<Rightarrow> [inc_rec D x]) ix ix'"
proof -
  let ?n = "case index_map ix h of None \<Rightarrow> root ix
    | Some x \<Rightarrow> index_node_update h (\<lambda>_. snd (index_entry_increment x)) (root ix)"
  obtain ix' where r: "index_get_from_node D h (root ix) 0 ix =
      Some (map_option (\<lambda>x. snd (index_entry_increment x)) (index_map ix h), ?n, ix')"
      "ix_ext D (case index_map ix h of None \<Rightarrow> [] | Some x \<Rightarrow> [inc_rec D x]) ix ix'"
    using index_get_from_node_eq [of "bucket_size ix" BLAKE3_OUT_LEN "[]" "root ix" h D ix] assms
    by (auto simp: index_wf_def index_map_def)
  have m: "index_map (ix'\<lparr>root := ?n\<rparr>) = bump h (index_map ix)"
  proof (cases "index_map ix h")
    case None
    then show ?thesis by (auto simp: bump_def index_map_def fun_eq_iff)
  next
    case (Some x)
    then show ?thesis
      using index_map_bump [OF Some] index_map_root [where ix = ix' and ix' = ix and n = ?n] by simp
  qed
  have "index_wf (ix'\<lparr>root := ?n\<rparr>)"
    using assms(1) ix_ext_bucket_size [OF r(2)] index_map_hash [of ix h]
    by (auto simp: index_wf_def index_node_update_wf split: option.split)
  with r m index_logged_root [OF r(2), of ?n] show ?thesis
    by (auto simp: index_get_def bump_def)
qed

lemma index_add_existing_eq:
  assumes "index_wf ix" and "index_map ix (hash e) = Some x"
  shows "\<exists>ix'. index_add D ix e = Some ix' \<and> index_wf ix' \<and>
    index_map ix' = (if is_rebuilding ix then index_map ix else bump (hash e) (index_map ix)) \<and>
    index_logged D [inc_rec D x] ix ix'"
proof -
  let ?n = "if is_rebuilding ix then root ix
    else index_node_update (hash e) (\<lambda>_. snd (index_entry_increment x)) (root ix)"
  have "8 * BLAKE3_OUT_LEN - length ([] :: bool list) < index_fuel (hash e)"
    using index_map_length [OF assms] by (simp add: index_fuel_def)
  note fuel = this
  obtain ix' where r: "index_add_to_node (index_fuel (hash e)) D e (root ix) 0 ix = Some (?n, ix')"
      "if is_rebuilding ix then ix' = ix else ix_ext D [inc_rec D x] ix ix'"
    using index_add_to_node_existing [OF _ _ _ fuel, where b = "bucket_size ix" and n = "root ix"
        and e = e and x = x and D = D and ix = ix] assms index_map_length [OF assms]
    by (auto simp: index_wf_def index_map_def)
  have ext: "ix_ext D [inc_rec D x] ix ix'"
    using r(2) by (auto simp: ix_ext_def wal_log_def split: if_splits)
  have m: "index_map (ix'\<lparr>root := ?n\<rparr>) =
      (if is_rebuilding ix then index_map ix else bump (hash e) (index_map ix))"
    using index_map_bump [OF assms(2)] index_map_root [where ix = ix' and ix' = ix and n = ?n]
    by (auto simp: index_map_def fun_eq_iff)
  have "index_wf (ix'\<lparr>root := ?n\<rparr>)"
    using assms(1) ix_ext_bucket_size [OF ext] index_map_hash [OF assms(2)]
    by (simp add: index_wf_def index_node_update_wf)
  with r(1) m index_logged_root [OF ext, of ?n] show ?thesis by (simp add: index_add_def)
qed

lemma index_remove_eq:
  assumes "index_wf ix" and "length h = BLAKE3_OUT_LEN"
  shows "\<exists>ix'. index_remove D ix h = Some ix' \<and> index_wf ix' \<and>
    index_map ix' = (index_map ix)(h := None) \<and>
    index_to_array ix' = filter (\<lambda>e. hash e \<noteq> h) (index_to_array ix) \<and>
    index_logged D (case index_map ix h of None \<Rightarrow> [] | Some x \<Rightarrow> [rem_rec D h]) ix ix'"
proof -
  obtain n' ix' where r: "index_remove_from_node D h (root ix) 0 ix = Some (n', ix')"
      "node_wf (bucket_size ix) BLAKE3_OUT_LEN [] n'"
      "entries n' = filter (\<lambda>e. hash e \<noteq> h) (entries (root ix))"
      "ix_ext D (case index_map ix h of None \<Rightarrow> [] | Some x \<Rightarrow> [rem_rec D h]) ix ix'"
    using index_remove_from_node_eq [of "bucket_size ix" BLAKE3_OUT_LEN "[]" "root ix" h D ix] assms
    by (auto simp: index_wf_def index_map_def)
  have "find (\<lambda>e. hash e = k) (filter (\<lambda>e. hash e \<noteq> h) xs) =
      (if k = h then None else find (\<lambda>e. hash e = k) xs)" for k and xs :: "index_entry_t list"
    by (induction xs) auto
  then have "index_map (ix'\<lparr>root := n'\<rparr>) = (index_map ix)(h := None)"
    using r(3) by (auto simp: index_map_def fun_eq_iff)
  with assms(1) r index_logged_root [OF r(4), of n'] ix_ext_bucket_size [OF r(4)] show ?thesis
    by (auto simp: index_remove_def index_wf_def index_to_array_def)
qed

lemma index_increment_eq:
  assumes "index_wf ix" and "index_map ix h = Some x"
  shows "index_wf (index_increment D ix x) \<and> index_map (index_increment D ix x) = bump h (index_map ix) \<and>
    index_logged D [inc_rec D x] ix (index_increment D ix x)"
proof -
  obtain ix' where r: "index_increment_entry D x ix = (snd (index_entry_increment x), ix')"
      "ix_ext D [inc_rec D x] ix ix'"
    using index_increment_entry_ext [of D x ix] by (cases "index_increment_entry D x ix") auto
  have root: "root ix' = root ix" by (rule ix_ext_root [OF r(2)])
  have h: "hash x = h" by (rule index_map_hash [OF assms(2)])
  let ?n = "index_node_update h (\<lambda>_. snd (index_entry_increment x)) (root ix)"
  have "index_map (ix'\<lparr>root := ?n\<rparr>) = bump h (index_map ix)"
    using index_map_bump [OF assms(2)] index_map_root [where ix = ix' and ix' = ix and n = ?n] by simp
  moreover have "index_wf (ix'\<lparr>root := ?n\<rparr>)"
    using assms(1) ix_ext_bucket_size [OF r(2)] h by (simp add: index_wf_def index_node_update_wf)
  ultimately show ?thesis
    using r index_logged_root [OF r(2), of ?n] h by (simp add: index_increment_def root)
qed

text \<open>Changing an entry reached through a pointer.\<close>

definition ej_rec :: "('i, 'm) deps_scheme \<Rightarrow> bytes \<Rightarrow> u64 \<Rightarrow> wal_rec list" where
  "ej_rec D h date =
     (case cbor_build_array (dep_cbor D) 2
             [cbor_build_bytestring (dep_cbor D) h, cbor_build_uint64 (dep_cbor D) date] of
        None \<Rightarrow> [] | Some i \<Rightarrow> [(ejection, cbor_serialize (dep_cbor D) i)])"

lemma index_set_entry_ejection_eq:
  assumes "index_wf ix" and "index_map ix h = Some x"
  shows "index_wf (index_set_entry_ejection D ix x date) \<and>
    index_map (index_set_entry_ejection D ix x date) = (index_map ix)(h \<mapsto> x\<lparr>ejection_date := date\<rparr>) \<and>
    index_logged D (ej_rec D h date) ix (index_set_entry_ejection D ix x date)"
proof -
  define ix' where "ix' = (case cbor_build_array (dep_cbor D) 2
      [cbor_build_bytestring (dep_cbor D) h, cbor_build_uint64 (dep_cbor D) date] of
      None \<Rightarrow> ix | Some i \<Rightarrow> index_log D ejection (cbor_serialize (dep_cbor D) i) ix)"
  have ext: "ix_ext D (ej_rec D h date) ix ix'"
    by (auto simp: ej_rec_def ix'_def split: option.split)
  have h: "hash x = h" by (rule index_map_hash [OF assms(2)])
  let ?g = "\<lambda>e. index_entry_set_ejection_date e date"
  let ?n = "index_node_update h ?g (root ix)"
  have eq: "index_set_entry_ejection D ix x date = ix'\<lparr>root := ?n\<rparr>"
    using ix_ext_root [OF ext] h
    by (simp add: index_set_entry_ejection_def ix'_def Let_def)
  have g: "hash (?g e) = hash e" for e by (simp add: index_entry_set_ejection_date_def)
  have "index_map (ix'\<lparr>root := ?n\<rparr>) = (index_map ix)(h \<mapsto> x\<lparr>ejection_date := date\<rparr>)"
    using index_map_update [of h ?g ix] index_map_root [where ix = ix' and ix' = ix and n = ?n] assms(2) g
    by (simp add: index_entry_set_ejection_date_def)
  moreover have "index_wf (ix'\<lparr>root := ?n\<rparr>)"
    using assms(1) ix_ext_bucket_size [OF ext] g by (simp add: index_wf_def index_node_update_wf)
  ultimately show ?thesis
    using index_logged_root [OF ext, of ?n] by (simp add: eq)
qed

lemma index_write_entry_metadata_eq:
  "index_logged D [(metadata, index_entry_payload (dep_cbor D) e)] ix (index_write_entry_metadata D ix e) \<and>
   root (index_write_entry_metadata D ix e) = root ix \<and>
   bucket_size (index_write_entry_metadata D ix e) = bucket_size ix"
proof -
  have ext: "ix_ext D [(metadata, index_entry_payload (dep_cbor D) e)] ix (index_write_entry_metadata D ix e)"
    by (auto simp: index_write_entry_metadata_def)
  have "index_write_entry_metadata D ix e = (index_write_entry_metadata D ix e)\<lparr>root := root ix\<rparr>"
    using ix_ext_root [OF ext] by simp
  with index_logged_root [OF ext, of "root ix"] ix_ext_root [OF ext] ix_ext_bucket_size [OF ext]
  show ?thesis by simp
qed

end
