(* ===== verification/Index_Codec.thy ===== *)
theory Index_Codec
  imports Index_Map
begin

text \<open>
  The persistent forms of the index (\<open>index_entry_to_cbor\<close> to \<open>cbor_to_index_node\<close> in
  \<open>BlockCache/index.c\<close>): the CBOR of an entry and of a trie, and the bytes the snapshot CRC is
  computed over. The lemmas are proved from the libcbor contract: what is written decodes to what
  was written, and the serialized sizes are the ones \<open>wal_read\<close> expects.
\<close>

section \<open>Tries as CBOR\<close>

fun index_node_to_cbor :: "('i, 'm) cbor_api_scheme \<Rightarrow> index_node_t \<Rightarrow> 'i option" where
  "index_node_to_cbor C (Branch (Some l) (Some r)) = do {
     cl \<leftarrow> index_node_to_cbor C l;
     cr \<leftarrow> index_node_to_cbor C r;
     cbor_build_array C 2 [cl, cr]
   }"
| "index_node_to_cbor C (Branch _ _) = None"
| "index_node_to_cbor C (Bucket es) = do {
     items \<leftarrow> those (map (index_entry_to_cbor C) es);
     bucket \<leftarrow> cbor_build_array C (length es) items;
     cbor_build_array C 1 [bucket]
   }"

primrec cbor_to_bucket :: "('i, 'm) cbor_api_scheme \<Rightarrow> 'i \<Rightarrow> nat list \<Rightarrow> index_entry_t list option" where
  "cbor_to_bucket C i [] = Some []"
| "cbor_to_bucket C i (k # ks) = do {
     e \<leftarrow> cbor_to_index_entry C (cbor_array_get C i k);
     es \<leftarrow> cbor_to_bucket C i ks;
     Some (e # es)
   }"

text \<open>The recursion follows the nesting of the item, which a third-party accessor returns: the
  outer option says whether it ends, the inner one is the C result (\<open>NULL\<close> on malformed
  data).\<close>

partial_function (option) cbor_to_index_node ::
  "('i, 'm) cbor_api_scheme \<Rightarrow> 'i \<Rightarrow> index_node_t option option" where
  [code]: "cbor_to_index_node C i =
     (if cbor_array_size C i = 2 then
        Option.bind (cbor_to_index_node C (cbor_array_get C i 0)) (\<lambda>ol.
          case ol of None \<Rightarrow> Some None
          | Some l \<Rightarrow> Option.bind (cbor_to_index_node C (cbor_array_get C i 1)) (\<lambda>or.
              case or of None \<Rightarrow> Some None
              | Some r \<Rightarrow> Some (Some (index_node_create_from_leaves l r))))
      else if cbor_array_size C i = 1 then
        (let bucket = cbor_array_get C i 0
         in Some (map_option Bucket (cbor_to_bucket C bucket [0..<cbor_array_size C bucket])))
      else Some None)"

definition index_to_cbor :: "('i, 'm) cbor_api_scheme \<Rightarrow> index_t \<Rightarrow> 'i option" where
  "index_to_cbor C ix = do {
     n \<leftarrow> index_node_to_cbor C (root ix);
     cbor_build_array C 3 [n, cbor_build_uint64 C (of_nat (bucket_size ix))]
   }"

section \<open>The snapshot CRC\<close>

text \<open>The bytes fed to XXH64 for one entry, big-endian integers after the hash; the formula of older
  binaries leaves out the two counts. Feeding them piecewise hashes their concatenation.\<close>

definition entry_crc_bytes :: "bool \<Rightarrow> index_entry_t \<Rightarrow> bytes" where
  "entry_crc_bytes legacy e =
     hash e @ be_bytes 4 (unat (fib_level (counter e))) @ be_bytes 4 (unat (hit_count (counter e))) @
     be_bytes 8 (unat (ejection_date e)) @ be_bytes 8 (unat (section_index e)) @
     be_bytes 8 (unat (section_id e)) @
     (if legacy then [] else be_bytes 4 (unat (ephemeral_count e)) @ be_bytes 4 (unat (pin_count e)))"

fun index_node_to_crc :: "index_node_t \<Rightarrow> bool \<Rightarrow> bytes" where
  "index_node_to_crc (Branch l r) legacy =
     (case l of None \<Rightarrow> [] | Some n \<Rightarrow> index_node_to_crc n legacy) @
     (case r of None \<Rightarrow> [] | Some n \<Rightarrow> index_node_to_crc n legacy)"
| "index_node_to_crc (Bucket es) legacy = concat (map (entry_crc_bytes legacy) es)"

definition index_to_crc_ex :: "('i, 'm) deps_scheme \<Rightarrow> index_node_t \<Rightarrow> bool \<Rightarrow> u64" where
  "index_to_crc_ex D n legacy = dep_xxh64 D (index_node_to_crc n legacy)"

section \<open>What the items stand for\<close>

definition counter_cval :: "fibonacci_hit_counter_t \<Rightarrow> cval" where
  "counter_cval c =
     CArray [CUint 4 (ucast (fib_level c)), CUint 4 (ucast (hit_count c)), CUint 4 (ucast (threshold c))]"

definition entry_cval :: "index_entry_t \<Rightarrow> cval" where
  "entry_cval e =
     CArray [counter_cval (counter e), CBytes (hash e), CUint 8 (section_index e),
       CUint 8 (section_id e), CUint 8 (ejection_date e), CUint 2 (ucast (ephemeral_count e)),
       CUint 4 (ucast (pin_count e))]"

fun node_cval :: "index_node_t \<Rightarrow> cval" where
  "node_cval (Branch l r) =
     CArray [(case l of None \<Rightarrow> CArray [] | Some n \<Rightarrow> node_cval n),
             (case r of None \<Rightarrow> CArray [] | Some n \<Rightarrow> node_cval n)]"
| "node_cval (Bucket es) = CArray [CArray (map entry_cval es)]"

lemma wf_entry_cval: "length (hash e) = BLAKE3_OUT_LEN \<Longrightarrow> wf_cval (entry_cval e)"
  by (simp add: entry_cval_def counter_cval_def BLAKE3_OUT_LEN_def)

text \<open>The record sizes \<open>wal_read\<close> reads: 86 bytes for an entry, 44 for an ejection record and 34
  for a removal.\<close>

lemma length_entry_encoding:
  "length (hash e) = BLAKE3_OUT_LEN \<Longrightarrow> length (cbor_encode (entry_cval e)) = 86"
  by (simp add: entry_cval_def counter_cval_def BLAKE3_OUT_LEN_def cbor_head_def)

lemma length_ejection_encoding:
  "length h = BLAKE3_OUT_LEN \<Longrightarrow> length (cbor_encode (CArray [CBytes h, CUint 8 date])) = 44"
  by (simp add: BLAKE3_OUT_LEN_def cbor_head_def)

lemma length_removal_encoding:
  "length h = BLAKE3_OUT_LEN \<Longrightarrow> length (cbor_encode (CBytes h)) = 34"
  by (simp add: BLAKE3_OUT_LEN_def cbor_head_def)

context libcbor
begin

lemma cv_index_entry: "\<exists>i. index_entry_to_cbor C e = Some i \<and> cv i = entry_cval e"
proof -
  obtain c where c: "fibonacci_hit_counter_to_cbor C (counter e) = Some c" "cv c = counter_cval (counter e)"
    using cv_fibonacci_hit_counter [of "counter e"] by (auto simp: counter_cval_def)
  show ?thesis
    using build_array [of "[c, cbor_build_bytestring C (hash e), cbor_build_uint64 C (section_index e),
        cbor_build_uint64 C (section_id e), cbor_build_uint64 C (ejection_date e),
        cbor_build_uint16 C (ephemeral_count e), cbor_build_uint32 C (pin_count e)]" 7]
    by (auto simp: index_entry_to_cbor_def c cv_build entry_cval_def)
qed

lemma index_entry_payload_eq: "index_entry_payload C e = cbor_encode (entry_cval e)"
  using cv_index_entry [of e] by (auto simp: index_entry_payload_def serialize)

lemma array_item:
  assumes "cv i = CArray xs" and "k < length xs" and "xs ! k = x"
  shows "cv (cbor_array_get C i k) = x"
  using array_get [of i xs k] assms by simp

lemma cbor_to_index_entry_cv:
  assumes "cv i = entry_cval e" and "length (hash e) = BLAKE3_OUT_LEN"
  shows "cbor_to_index_entry C i = Some e"
proof -
  note a = assms(1) [unfolded entry_cval_def]
  have items: "cv (cbor_array_get C i 0) = counter_cval (counter e)"
    "cv (cbor_array_get C i 1) = CBytes (hash e)"
    "cv (cbor_array_get C i 2) = CUint 8 (section_index e)"
    "cv (cbor_array_get C i 3) = CUint 8 (section_id e)"
    "cv (cbor_array_get C i 4) = CUint 8 (ejection_date e)"
    "cv (cbor_array_get C i 5) = CUint 2 (ucast (ephemeral_count e))"
    "cv (cbor_array_get C i 6) = CUint 4 (ucast (pin_count e))"
    by (rule array_item [OF a]; simp)+
  have size: "cbor_isa_array C i" "cbor_array_size C i = 7"
    using a by (auto simp: isa_array array_size)
  have counter: "cbor_isa_array C (cbor_array_get C i 0)"
    "cbor_to_fibonacci_hit_counter C (cbor_array_get C i 0) = counter e"
    using items(1) by (auto simp: isa_array counter_cval_def intro: cbor_to_fibonacci_hit_counter_of_cv)
  have bounds: "\<not> 65535 < (ucast (ephemeral_count e) :: u64)" "\<not> 4294967295 < (ucast (pin_count e) :: u64)"
    using unat_u16_bound [of "ephemeral_count e"] unat_u32_bound [of "pin_count e"]
    by (simp_all add: word_less_nat_alt del: unat_u16_bound unat_u32_bound)
  have uints: "cbor_isa_uint C (cbor_array_get C i k)" if "k \<in> {2, 3, 4, 5, 6}" for k
    using items that by (auto simp: isa_uint)
  have ints: "cbor_get_int C (cbor_array_get C i 2) = section_index e"
    "cbor_get_int C (cbor_array_get C i 3) = section_id e"
    "cbor_get_int C (cbor_array_get C i 4) = ejection_date e"
    "cbor_get_int C (cbor_array_get C i 5) = ucast (ephemeral_count e)"
    "cbor_get_int C (cbor_array_get C i 6) = ucast (pin_count e)"
    using items by (simp_all add: get_int)
  have hash: "cbor_isa_bytestring C (cbor_array_get C i 1)"
    "cbor_bytestring_handle C (cbor_array_get C i 1) = hash e"
    "cbor_bytestring_length C (cbor_array_get C i 1) = BLAKE3_OUT_LEN"
    using items(2) assms(2) by (auto simp: isa_bytestring bytestring_handle bytestring_length)
  show ?thesis
    using size counter bounds uints ints hash
    by (simp add: cbor_to_index_entry_def index_entry_from_def Let_def)
qed

lemma cbor_load_entry:
  assumes "length (hash e) = BLAKE3_OUT_LEN"
  shows "\<exists>j. cbor_load C (index_entry_payload C e) = Some j \<and> cbor_to_index_entry C j = Some e"
  using load [OF wf_entry_cval [OF assms]] cbor_to_index_entry_cv [OF _ assms]
  by (auto simp: index_entry_payload_eq)

lemma cv_entries:
  "\<exists>is. those (map (index_entry_to_cbor C) es) = Some is \<and> map cv is = map entry_cval es"
proof (induction es)
  case (Cons e es)
  then obtain "is" where "those (map (index_entry_to_cbor C) es) = Some is" "map cv is = map entry_cval es"
    by blast
  moreover obtain i where "index_entry_to_cbor C e = Some i" "cv i = entry_cval e"
    using cv_index_entry by blast
  ultimately show ?case by (intro exI [of _ "i # is"]) simp
qed simp

lemma cv_index_node:
  assumes "node_wf b L p n"
  shows "\<exists>i. index_node_to_cbor C n = Some i \<and> cv i = node_cval n"
  using assms
proof (induction b L p n rule: node_wf.induct)
  case (1 b L p es)
  obtain its where its: "those (map (index_entry_to_cbor C) es) = Some its" "map cv its = map entry_cval es"
    using cv_entries by blast
  then have "length its \<le> length es" by (metis length_map order_refl)
  from build_array [OF this] obtain a where a: "cbor_build_array C (length es) its = Some a"
      "cv a = CArray (map entry_cval es)"
    using its(2) by auto
  obtain i where "cbor_build_array C 1 [a] = Some i" "cv i = CArray [cv a]"
    using build_array [of "[a]" 1] by auto
  with its a show ?case by simp
next
  case (2 b L p l r)
  then obtain i j where ij: "index_node_to_cbor C l = Some i" "cv i = node_cval l"
      "index_node_to_cbor C r = Some j" "cv j = node_cval r"
    by auto
  obtain k where "cbor_build_array C 2 [i, j] = Some k" "cv k = CArray [cv i, cv j]"
    using build_array [of "[i, j]" 2] by auto
  with ij show ?case by simp
qed simp_all

lemma cbor_to_bucket_cv:
  assumes "cv i = CArray (xs @ map entry_cval es)" and "\<forall>e \<in> set es. length (hash e) = BLAKE3_OUT_LEN"
  shows "cbor_to_bucket C i [length xs..<length xs + length es] = Some es"
  using assms
proof (induction es arbitrary: xs)
  case (Cons e es)
  have "cv (cbor_array_get C i (length xs)) = entry_cval e"
    by (rule array_item [OF Cons.prems(1)]) simp_all
  then have "cbor_to_index_entry C (cbor_array_get C i (length xs)) = Some e"
    using Cons.prems(2) by (intro cbor_to_index_entry_cv) simp_all
  moreover have "cbor_to_bucket C i [Suc (length xs)..<Suc (length xs) + length es] = Some es"
    using Cons.IH [of "xs @ [entry_cval e]"] Cons.prems by simp
  moreover have "[length xs..<length xs + length (e # es)] =
      length xs # [Suc (length xs)..<Suc (length xs) + length es]"
    by (simp add: upt_conv_Cons del: upt_Suc)
  ultimately show ?case by (simp del: upt_Suc)
qed simp

lemma cbor_to_index_node_cv:
  assumes "node_wf b BLAKE3_OUT_LEN p n" and "cv i = node_cval n"
  shows "cbor_to_index_node C i = Some (Some n)"
  using assms
proof (induction b L \<equiv> BLAKE3_OUT_LEN p n arbitrary: i rule: node_wf.induct)
  case (1 b p es)
  have bucket: "cv (cbor_array_get C i 0) = CArray (map entry_cval es)"
    by (rule array_item [of _ "[CArray (map entry_cval es)]"]) (use "1.prems" in simp_all)
  then have "cbor_array_size C (cbor_array_get C i 0) = length es" by (simp add: array_size)
  moreover have "cbor_to_bucket C (cbor_array_get C i 0) [0..<length es] = Some es"
    using cbor_to_bucket_cv [of "cbor_array_get C i 0" "[]" es] bucket "1.prems"(1) by simp
  moreover have "cbor_array_size C i = 1" using "1.prems"(2) by (simp add: array_size)
  ultimately show ?case by (subst cbor_to_index_node.simps) (simp add: Let_def)
next
  case (2 b p l r)
  have "cv (cbor_array_get C i 0) = node_cval l" "cv (cbor_array_get C i 1) = node_cval r"
    by (rule array_item [of _ "[node_cval l, node_cval r]"]; use "2.prems" in simp)+
  then have "cbor_to_index_node C (cbor_array_get C i 0) = Some (Some l)"
    "cbor_to_index_node C (cbor_array_get C i 1) = Some (Some r)"
    using "2.hyps" "2.prems"(1) by simp_all
  moreover have "cbor_array_size C i = 2" using "2.prems"(2) by (simp add: array_size)
  ultimately show ?case by (subst cbor_to_index_node.simps) (simp add: index_node_create_from_leaves_def)
qed simp_all

end

lemma wf_node_cval:
  assumes "node_wf b BLAKE3_OUT_LEN p n" and "b < 2 ^ 64"
  shows "wf_cval (node_cval n)"
  using assms
  by (induction b L \<equiv> BLAKE3_OUT_LEN p n rule: node_wf.induct) (auto intro: wf_entry_cval)

section \<open>Round trips\<close>

text \<open>C15. Log records. For every libcbor that meets its contract, an entry with a 32-byte hash is
  serialized to exactly the 86 bytes \<open>wal_read\<close> reads for it, and decoding the loaded bytes
  gives the entry back, all counters included.\<close>

theorem index_entry_roundtrip:
  assumes "libcbor C cv" and "length (hash e) = BLAKE3_OUT_LEN"
  shows "length (index_entry_payload C e) = wal_payload_size False addition \<and>
    Option.bind (cbor_load C (index_entry_payload C e)) (cbor_to_index_entry C) = Some e"
  using libcbor.cbor_load_entry [OF assms] libcbor.index_entry_payload_eq [OF assms(1), of e]
    length_entry_encoding [OF assms(2)]
  by auto

theorem index_entry_roundtrip_witness:
  "length (index_entry_payload rfc8949_api (index_entry_create (example_hash 9))) = 86 \<and>
   Option.bind (cbor_load rfc8949_api (index_entry_payload rfc8949_api (index_entry_create (example_hash 9))))
     (cbor_to_index_entry rfc8949_api) = Some (index_entry_create (example_hash 9))"
  using index_entry_roundtrip [OF rfc8949.libcbor_axioms, of "index_entry_create (example_hash 9)"]
  by simp

end
