(* ===== verification/Index_Recovery.thy ===== *)
theory Index_Recovery
  imports Index_Codec
begin

text \<open>
  Snapshots and crash recovery of the index (\<open>index_debounce\<close>, \<open>_index_replay_wal\<close>,
  \<open>index_create\<close> in \<open>BlockCache/index.c\<close>). The disk is the pair of the snapshot
  directory, with the files in any order, and the log directory. Files that are listed can be
  opened and read; the write of a snapshot may fail after any number of bytes.
\<close>

section \<open>Replaying a log\<close>

definition index_set_metadata :: "u16 \<Rightarrow> u32 \<Rightarrow> index_entry_t \<Rightarrow> index_entry_t" where
  "index_set_metadata ec pc e = e\<lparr>ephemeral_count := ec, pin_count := pc\<rparr>"

text \<open>One record of the replay loop. A payload libcbor does not decode is released through a
  \<open>NULL\<close> item by the code, so there is no result for it.\<close>

definition replay_record ::
  "('i, 'm) deps_scheme \<Rightarrow> wal_type_e \<Rightarrow> bytes \<Rightarrow> index_t \<Rightarrow> index_t option" where
  "replay_record D ty d ix =
     (let C = dep_cbor D in
      case cbor_load C d of
        None \<Rightarrow> None
      | Some i \<Rightarrow>
         (case ty of
            addition \<Rightarrow>
              (case cbor_to_index_entry C i of None \<Rightarrow> Some ix | Some e \<Rightarrow> index_add D ix e)
          | increment \<Rightarrow>
              (case cbor_to_index_entry C i of None \<Rightarrow> Some ix
               | Some e \<Rightarrow> do {
                   found \<leftarrow> index_find ix (hash e);
                   case found of None \<Rightarrow> Some ix | Some x \<Rightarrow> Some (index_increment D ix x) })
          | ejection \<Rightarrow>
              if cbor_isa_array C i \<and> 2 \<le> cbor_array_size C i \<and>
                 cbor_isa_bytestring C (cbor_array_get C i 0) \<and> cbor_isa_uint C (cbor_array_get C i 1)
              then do {
                let h = cbor_bytestring_handle C (cbor_array_get C i 0);
                found \<leftarrow> index_find ix h;
                case found of None \<Rightarrow> Some ix
                | Some x \<Rightarrow> Some (ix\<lparr>root := index_node_update h
                    (\<lambda>e. index_entry_set_ejection_date e (cbor_get_int C (cbor_array_get C i 1))) (root ix)\<rparr>) }
              else Some ix
          | removal \<Rightarrow>
              if cbor_isa_bytestring C i then index_remove D ix (cbor_bytestring_handle C i) else Some ix
          | metadata \<Rightarrow>
              (case cbor_to_index_entry C i of None \<Rightarrow> Some ix
               | Some e \<Rightarrow> do {
                   found \<leftarrow> index_find ix (hash e);
                   case found of None \<Rightarrow> Some ix
                   | Some x \<Rightarrow> Some (ix\<lparr>root := index_node_update (hash e)
                       (index_set_metadata (ephemeral_count e) (pin_count e)) (root ix)\<rparr>) })))"

definition index_replay_wal ::
  "('i, 'm) deps_scheme \<Rightarrow> nat \<Rightarrow> index_t \<Rightarrow> int \<times> bool \<times> index_t option" where
  "index_replay_wal D k ix =
     (case wal_replay (dep_xxh32 D) (wal_contents (wal_files ix) k)
             (\<lambda>ty d s. Option.bind s (replay_record D ty d)) wal_cursor_init (Some ix) of
        (code, c, s) \<Rightarrow> (code, legacy_entry_size c, s))"

section \<open>Snapshots\<close>

definition sort_indexes :: "snapshot_dir \<Rightarrow> snapshot_dir" where
  "sort_indexes files = sort_key (\<lambda>f. fst (fst f)) files"

definition index_prune_old_snapshots :: "index_t \<Rightarrow> nat \<times> index_t" where
  "index_prune_old_snapshots ix =
     (if max_snapshots ix = 0 then (0, ix)
      else
        let files = sort_indexes (snapshots ix);
            delete_count = length files - max_snapshots ix
        in if files = [] then (0, ix)
           else (fst (fst (files ! delete_count)), ix\<lparr>snapshots := drop delete_count files\<rparr>))"

definition index_prune_old_wals :: "nat \<Rightarrow> index_t \<Rightarrow> index_t" where
  "index_prune_old_wals first_kept_id ix =
     (if max_wals ix = 0 then ix
      else ix\<lparr>wal_files := (\<lambda>k. if k < first_kept_id then None else wal_files ix k)\<rparr>)"

definition index_prune :: "index_t \<Rightarrow> index_t" where
  "index_prune ix = (case index_prune_old_snapshots ix of (k, ix') \<Rightarrow> index_prune_old_wals k ix')"

text \<open>A snapshot is opened without truncation: bytes past the new content of a file of the same name
  stay.\<close>

definition write_snapshot :: "snapshot_name \<Rightarrow> bytes \<Rightarrow> snapshot_dir \<Rightarrow> snapshot_dir" where
  "write_snapshot name d files =
     (case map_of files name of
        None \<Rightarrow> files @ [(name, d)]
      | Some old \<Rightarrow> map (\<lambda>(n, f). if n = name then (n, d @ drop (length d) f) else (n, f)) files)"

text \<open>\<open>index_debounce\<close>. \<open>written = Some k\<close>: the write stopped after \<open>k\<close> bytes, or the
  sync failed.\<close>

definition index_debounce :: "('i, 'm) deps_scheme \<Rightarrow> nat option \<Rightarrow> index_t \<Rightarrow> index_t option" where
  "index_debounce D written ix = do {
     i \<leftarrow> index_to_cbor (dep_cbor D) ix;
     let d = cbor_serialize (dep_cbor D) i;
     let name = (current_file ix, Some (index_to_crc_ex D (root ix) False));
     let ix1 = ix\<lparr>last_file := Some (current_file ix), current_file := index_next_id ix,
           index_next_id := index_next_id ix + 1,
           wal := wal_create_next (wal_next_id (wal ix)) (wal_last (wal ix))\<rparr>;
     case written of
       None \<Rightarrow> Some (index_prune (ix1\<lparr>snapshots := write_snapshot name d (snapshots ix)\<rparr>))
     | Some k \<Rightarrow> Some (ix1\<lparr>snapshots := write_snapshot name (take k d) (snapshots ix),
           wal := wal ix, current_file := current_file ix, last_file := None\<rparr>)
   }"

section \<open>Opening an index\<close>

definition index_create_from :: "nat \<Rightarrow> index_node_t \<Rightarrow> snapshot_dir \<times> wal_dir \<Rightarrow> nat \<Rightarrow> nat \<Rightarrow> index_t" where
  "index_create_from bsize n disk snaps wals =
     (let files = sort_indexes (fst disk);
          lid = (if files = [] then 0 else fst (fst (last files)));
          ix = \<lparr>root = n, bucket_size = bsize, ranks = (\<lambda>_. None), wal = wal_create (lid + 1),
                wal_files = snd disk, snapshots = fst disk, last_increment_promoted = False,
                is_rebuilding = False, current_file = lid + 1,
                last_file = (if files = [] then None else Some lid),
                index_next_id = lid + 2, max_snapshots = snaps, max_wals = wals\<rparr>
      in fold (\<lambda>e. rank_push (fib_level (counter e)) (hash e)) (index_to_array ix) ix)"

definition cbor_to_index ::
  "('i, 'm) cbor_api_scheme \<Rightarrow> 'i \<Rightarrow> snapshot_dir \<times> wal_dir \<Rightarrow> nat \<Rightarrow> nat \<Rightarrow> index_t option option" where
  "cbor_to_index C i disk snaps wals = do {
     let bsize = unat (cbor_get_int C (cbor_array_get C i 1));
     on \<leftarrow> cbor_to_index_node C (cbor_array_get C i 0);
     Some (map_option (\<lambda>n. index_create_from bsize n disk snaps wals) on)
   }"

text \<open>The two branches of \<open>index_create\<close> once a valid snapshot with id \<open>lid\<close> is loaded:
  \<open>later\<close> are the ids of the newer files, oldest first.\<close>

primrec replay_later :: "('i, 'm) deps_scheme \<Rightarrow> nat list \<Rightarrow> bool \<Rightarrow> index_t \<Rightarrow> (bool \<times> index_t) option" where
  "replay_later D [] legacy ix = Some (legacy, ix)"
| "replay_later D (k # ks) legacy ix =
     (case index_replay_wal D k ix of
        (code, l, oix) \<Rightarrow> Option.bind oix (\<lambda>ix'.
          if code \<noteq> - 3 then Some (legacy \<or> l, ix') else replay_later D ks (legacy \<or> l) ix'))"

definition index_rebuild :: "('i, 'm) deps_scheme \<Rightarrow> nat \<Rightarrow> nat list \<Rightarrow> index_t \<Rightarrow> index_t option" where
  "index_rebuild D lid later ix = do {
     (legacy, ix1) \<leftarrow> replay_later D later False (ix\<lparr>is_rebuilding := True\<rparr>);
     let current_id = Suc (length later) + lid;
     let ix2 = index_prune (ix1\<lparr>is_rebuilding := False, current_file := current_id,
           index_next_id := current_id + 1, last_file := Some (current_id - 1)\<rparr>);
     if legacy then index_debounce D None (ix2\<lparr>wal := wal_create_next current_id None\<rparr>) else Some ix2
   }"

definition index_recover_live :: "('i, 'm) deps_scheme \<Rightarrow> nat \<Rightarrow> index_t \<Rightarrow> index_t option" where
  "index_recover_live D lid ix =
     (case index_replay_wal D (lid + 1) (ix\<lparr>is_rebuilding := True\<rparr>) of
        (code, legacy, oix) \<Rightarrow> Option.bind oix (\<lambda>ix1.
          let ix2 = index_prune (ix1\<lparr>is_rebuilding := False\<rparr>)
          in if legacy then index_debounce D None ix2 else Some ix2))"

text \<open>The scan from the newest file to the oldest. A decoded index whose CRC does not match its file
  name is destroyed, and \<open>index_destroy\<close> takes a snapshot of what it destroys.\<close>

primrec index_scan ::
  "('i, 'm) deps_scheme \<Rightarrow> nat \<Rightarrow> nat \<Rightarrow> nat \<Rightarrow> snapshot_dir \<Rightarrow> nat list \<Rightarrow> snapshot_dir \<times> wal_dir \<Rightarrow> index_t option" where
  "index_scan D bsize snaps wals [] later disk = Some (index_new_empty bsize disk 0 snaps wals)"
| "index_scan D bsize snaps wals (file # files) later disk =
     (let skip = index_scan D bsize snaps wals files (fst (fst file) # later) in
      case snd (fst file) of
        None \<Rightarrow> skip disk
      | Some last_crc \<Rightarrow>
         (case cbor_load (dep_cbor D) (snd file) of
            None \<Rightarrow> skip disk
          | Some i \<Rightarrow>
             if \<not> cbor_isa_array (dep_cbor D) i then skip disk
             else Option.bind (cbor_to_index (dep_cbor D) i disk snaps wals) (\<lambda>oix.
               case oix of
                 None \<Rightarrow> skip disk
               | Some ix \<Rightarrow>
                   if index_to_crc_ex D (root ix) False \<noteq> last_crc \<and> index_to_crc_ex D (root ix) True \<noteq> last_crc
                   then Option.bind (index_debounce D None ix) (\<lambda>ix'. skip (snapshots ix', wal_files ix'))
                   else if later \<noteq> [] then index_rebuild D (fst (fst file)) later ix
                   else index_recover_live D (fst (fst file)) ix)))"

definition index_create ::
  "('i, 'm) deps_scheme \<Rightarrow> nat \<Rightarrow> nat \<Rightarrow> nat \<Rightarrow> snapshot_dir \<times> wal_dir \<Rightarrow> index_t option" where
  "index_create D bsize snaps wals disk =
     index_scan D bsize snaps wals (rev (sort_indexes (fst disk))) [] disk"

section \<open>The meaning of log records\<close>

text \<open>What a record stands for, its bytes, and its effect on the map from hashes to entries.\<close>

datatype log_rec =
    LAdd index_entry_t
  | LInc index_entry_t
  | LRem bytes
  | LEject bytes u64
  | LMeta index_entry_t

fun log_bytes :: "log_rec \<Rightarrow> wal_rec" where
  "log_bytes (LAdd e) = (addition, cbor_encode (entry_cval e))"
| "log_bytes (LInc e) = (increment, cbor_encode (entry_cval e))"
| "log_bytes (LRem h) = (removal, cbor_encode (CBytes h))"
| "log_bytes (LEject h date) = (ejection, cbor_encode (CArray [CBytes h, CUint 8 date]))"
| "log_bytes (LMeta e) = (metadata, cbor_encode (entry_cval e))"

fun log_hash :: "log_rec \<Rightarrow> bytes" where
  "log_hash (LAdd e) = hash e"
| "log_hash (LInc e) = hash e"
| "log_hash (LRem h) = h"
| "log_hash (LEject h date) = h"
| "log_hash (LMeta e) = hash e"

fun log_apply :: "log_rec \<Rightarrow> (bytes \<Rightarrow> index_entry_t option) \<Rightarrow> bytes \<Rightarrow> index_entry_t option" where
  "log_apply (LAdd e) m = (case m (hash e) of None \<Rightarrow> m(hash e \<mapsto> e) | Some _ \<Rightarrow> m)"
| "log_apply (LInc e) m = bump (hash e) m"
| "log_apply (LRem h) m = m(h := None)"
| "log_apply (LEject h date) m = m(h := map_option (\<lambda>e. e\<lparr>ejection_date := date\<rparr>) (m h))"
| "log_apply (LMeta e) m =
     m(hash e := map_option (index_set_metadata (ephemeral_count e) (pin_count e)) (m (hash e)))"

abbreviation "log_hash_ok r \<equiv> length (log_hash r) = BLAKE3_OUT_LEN"

lemma log_bytes_wf: "log_hash_ok r \<Longrightarrow> wal_rec_wf (log_bytes r)"
  by (cases r) (simp_all add: wal_rec_wf_def length_entry_encoding length_ejection_encoding
      length_removal_encoding del: cbor_encode.simps)

text \<open>Setting fields of the stored entry.\<close>

lemma index_map_update_eq:
  assumes "\<And>e. hash (g e) = hash e"
  shows "index_map (ix\<lparr>root := index_node_update h g (root ix)\<rparr>) = (index_map ix)(h := map_option g (index_map ix h))"
  using assms by (intro index_map_update) simp

lemma fun_upd_same_None: "m h = None \<Longrightarrow> m(h := map_option g (m h)) = m"
  by auto

locale index_env =
  fixes D :: "('i, 'm) deps_scheme" and cv :: "'i \<Rightarrow> cval"
  assumes cbor: "libcbor (dep_cbor D) cv"

sublocale index_env \<subseteq> libcbor "dep_cbor D" cv
  by (rule cbor)

context index_env
begin

lemma rec_bytes:
  "add_rec D e = log_bytes (LAdd e)" "inc_rec D e = log_bytes (LInc e)" "rem_rec D h = log_bytes (LRem h)"
  "(metadata, index_entry_payload (dep_cbor D) e) = log_bytes (LMeta e)"
  by (simp_all add: add_rec_def inc_rec_def rem_rec_def index_entry_payload_eq serialize cv_build
      del: cbor_encode.simps)

lemma ej_rec_bytes: "ej_rec D h date = [log_bytes (LEject h date)]"
  using build_array [of "[cbor_build_bytestring (dep_cbor D) h, cbor_build_uint64 (dep_cbor D) date]" 2]
  by (auto simp: ej_rec_def serialize cv_build)

lemma load_entry_encoding:
  assumes "length (hash e) = BLAKE3_OUT_LEN"
  shows "\<exists>j. cbor_load (dep_cbor D) (cbor_encode (entry_cval e)) = Some j \<and>
    cbor_to_index_entry (dep_cbor D) j = Some e"
  using cbor_load_entry [OF assms] by (simp add: index_entry_payload_eq)

text \<open>Replaying one record does to the map what the record stands for.\<close>

definition replays :: "log_rec \<Rightarrow> index_t \<Rightarrow> bool" where
  "replays r ix \<longleftrightarrow> (\<exists>ix'. replay_record D (fst (log_bytes r)) (snd (log_bytes r)) ix = Some ix' \<and> index_wf ix' \<and>
     index_map ix' = log_apply r (index_map ix) \<and> index_logged D [] ix ix')"

lemma replays_LAdd:
  assumes "index_wf ix" and "is_rebuilding ix" and "log_hash_ok r" and LAdd: "r = LAdd e"
  shows "replays r ix"
proof -
  obtain j where j: "cbor_load (dep_cbor D) (cbor_encode (entry_cval e)) = Some j"
      "cbor_to_index_entry (dep_cbor D) j = Some e"
    using load_entry_encoding [of e] assms(3,4) by auto
  show ?thesis
  proof (cases "index_map ix (hash e)")
    case None
    with index_add_new_eq [of ix e D] assms LAdd j show ?thesis unfolding replays_def
      by (auto simp: replay_record_def index_logged_def ix_ext_def simp del: cbor_encode.simps)
  next
    case (Some x)
    with index_add_existing_eq [of ix e x D] assms LAdd j show ?thesis unfolding replays_def
      by (auto simp: replay_record_def index_logged_def ix_ext_def simp del: cbor_encode.simps)
  qed
qed

lemma replays_LInc:
  assumes "index_wf ix" and "is_rebuilding ix" and "log_hash_ok r" and LInc: "r = LInc e"
  shows "replays r ix"
proof -
  obtain j where j: "cbor_load (dep_cbor D) (cbor_encode (entry_cval e)) = Some j"
      "cbor_to_index_entry (dep_cbor D) j = Some e"
    using load_entry_encoding [of e] assms(3,4) by auto
  have f: "index_find ix (hash e) = Some (index_map ix (hash e))"
    using index_find_eq(1) assms(1,3) LInc by simp
  show ?thesis
  proof (cases "index_map ix (hash e)")
    case None
    then have "bump (hash e) (index_map ix) = index_map ix" by (auto simp: bump_def)
    with None f assms LInc j show ?thesis unfolding replays_def
      by (simp add: replay_record_def index_logged_def del: cbor_encode.simps)
  next
    case (Some x)
    with f index_increment_eq [OF assms(1) Some, of D] assms(2) LInc j show ?thesis unfolding replays_def
      by (simp add: replay_record_def index_logged_def ix_ext_def del: cbor_encode.simps)
  qed
qed

lemma replays_LRem:
  assumes "index_wf ix" and "is_rebuilding ix" and "log_hash_ok r" and LRem: "r = LRem h"
  shows "replays r ix"
proof -
  have "wf_cval (CBytes h)" using assms(3) LRem by (simp add: BLAKE3_OUT_LEN_def)
  from load [OF this] obtain j where j: "cbor_load (dep_cbor D) (cbor_encode (CBytes h)) = Some j" "cv j = CBytes h"
    by blast
  then have "cbor_isa_bytestring (dep_cbor D) j" "cbor_bytestring_handle (dep_cbor D) j = h"
    by (auto simp: isa_bytestring bytestring_handle)
  with j index_remove_eq [OF assms(1), of h D] assms(2,3) LRem show ?thesis unfolding replays_def
    by (auto simp: replay_record_def index_logged_def ix_ext_def simp del: cbor_encode.simps)
qed

lemma replays_LEject:
  assumes "index_wf ix" and "is_rebuilding ix" and "log_hash_ok r" and LEject: "r = LEject h date"
  shows "replays r ix"
proof -
  have "wf_cval (CArray [CBytes h, CUint 8 date])" using assms(3) LEject by (simp add: BLAKE3_OUT_LEN_def)
  from load [OF this] obtain j where j: "cbor_load (dep_cbor D) (snd (log_bytes r)) = Some j"
      "cv j = CArray [CBytes h, CUint 8 date]" using LEject by auto
  have items: "cv (cbor_array_get (dep_cbor D) j 0) = CBytes h" "cv (cbor_array_get (dep_cbor D) j 1) = CUint 8 date"
    by (rule array_item [OF j(2)]; simp)+
  then have obs: "cbor_isa_array (dep_cbor D) j" "cbor_array_size (dep_cbor D) j = 2"
      "cbor_isa_bytestring (dep_cbor D) (cbor_array_get (dep_cbor D) j 0)"
      "cbor_isa_uint (dep_cbor D) (cbor_array_get (dep_cbor D) j 1)"
      "cbor_bytestring_handle (dep_cbor D) (cbor_array_get (dep_cbor D) j 0) = h"
      "cbor_get_int (dep_cbor D) (cbor_array_get (dep_cbor D) j 1) = date"
    using j(2) by (auto simp: isa_array array_size isa_bytestring isa_uint bytestring_handle get_int)
  have f: "index_find ix h = Some (index_map ix h)"
    using index_find_eq(1) assms(1,3) LEject by simp
  let ?ix = "ix\<lparr>root := index_node_update h (\<lambda>e. index_entry_set_ejection_date e date) (root ix)\<rparr>"
  have "index_map ?ix = log_apply r (index_map ix)" "index_wf ?ix"
    using LEject index_update_wf [OF assms(1)]
    by (simp_all add: index_map_update_eq index_entry_set_ejection_date_def)
  moreover have "index_logged D [] ix ?ix" by (simp add: index_logged_def)
  moreover have "replay_record D (fst (log_bytes r)) (snd (log_bytes r)) ix =
      (case index_map ix h of None \<Rightarrow> Some ix | Some x \<Rightarrow> Some ?ix)"
    using j(1) obs f LEject by (simp add: replay_record_def Let_def)
  ultimately show ?thesis
    unfolding replays_def using assms(1) LEject by (cases "index_map ix h") (auto simp: fun_upd_same_None index_logged_def)
qed

lemma replays_LMeta:
  assumes "index_wf ix" and "is_rebuilding ix" and "log_hash_ok r" and LMeta: "r = LMeta e"
  shows "replays r ix"
proof -
  obtain j where j: "cbor_load (dep_cbor D) (cbor_encode (entry_cval e)) = Some j"
      "cbor_to_index_entry (dep_cbor D) j = Some e"
    using load_entry_encoding [of e] assms(3,4) by auto
  have f: "index_find ix (hash e) = Some (index_map ix (hash e))"
    using index_find_eq(1) assms(1,3) LMeta by simp
  let ?ix = "ix\<lparr>root := index_node_update (hash e) (index_set_metadata (ephemeral_count e) (pin_count e)) (root ix)\<rparr>"
  have "index_map ?ix = log_apply r (index_map ix)" "index_wf ?ix"
    using LMeta index_update_wf [OF assms(1)]
    by (simp_all add: index_map_update_eq index_set_metadata_def)
  moreover have "index_logged D [] ix ?ix" by (simp add: index_logged_def)
  moreover have "replay_record D (fst (log_bytes r)) (snd (log_bytes r)) ix =
      (case index_map ix (hash e) of None \<Rightarrow> Some ix | Some x \<Rightarrow> Some ?ix)"
    using j f LMeta by (simp add: replay_record_def Let_def del: cbor_encode.simps)
  ultimately show ?thesis
    unfolding replays_def using assms(1) LMeta by (cases "index_map ix (hash e)") (auto simp: fun_upd_same_None index_logged_def)
qed

lemma replay_record_eq:
  assumes "index_wf ix" and "is_rebuilding ix" and "log_hash_ok r"
  shows "replays r ix"
  by (cases r; metis assms replays_LAdd replays_LInc replays_LRem replays_LEject replays_LMeta)

lemma index_logged_rebuilding: "index_logged D rs ix ix' \<Longrightarrow> is_rebuilding ix' = is_rebuilding ix"
  by (simp add: index_logged_def ix_ext_def)

lemma replay_records:
  assumes "index_wf ix" and "is_rebuilding ix" and "\<forall>r \<in> set rs. log_hash_ok r"
  shows "\<exists>ix'. fold (\<lambda>(ty, d) s. Option.bind s (replay_record D ty d)) (map log_bytes rs) (Some ix) = Some ix' \<and>
    index_wf ix' \<and> index_map ix' = fold log_apply rs (index_map ix) \<and> index_logged D [] ix ix'"
  using assms
proof (induction rs arbitrary: ix)
  case Nil
  then show ?case by (simp add: index_logged_def)
next
  case (Cons r rs)
  then obtain ix1 where ix1: "replay_record D (fst (log_bytes r)) (snd (log_bytes r)) ix = Some ix1"
      "index_wf ix1" "index_map ix1 = log_apply r (index_map ix)" "index_logged D [] ix ix1"
    using replay_record_eq [of ix r] by (auto simp: replays_def)
  moreover have "is_rebuilding ix1"
    using Cons.prems(2) index_logged_rebuilding [OF ix1(4)] by simp
  ultimately obtain ix2 where "fold (\<lambda>(ty, d) s. Option.bind s (replay_record D ty d)) (map log_bytes rs) (Some ix1) = Some ix2"
      "index_wf ix2" "index_map ix2 = fold log_apply rs (index_map ix1)" "index_logged D [] ix1 ix2"
    using Cons.IH [of ix1] Cons.prems(3) by auto
  with ix1 index_logged_trans [OF ix1(4), of "[]" ix2] show ?case
    by (cases "log_bytes r") auto
qed

end

section \<open>The operations of a running index\<close>

datatype index_op =
    OpAdd index_entry_t
  | OpGet bytes
  | OpIncrement bytes
  | OpRemove bytes
  | OpEject bytes u64
  | OpMeta bytes u16 u32

fun op_hash :: "index_op \<Rightarrow> bytes" where
  "op_hash (OpAdd e) = hash e"
| "op_hash (OpGet h) = h"
| "op_hash (OpIncrement h) = h"
| "op_hash (OpRemove h) = h"
| "op_hash (OpEject h date) = h"
| "op_hash (OpMeta h ec pc) = h"

abbreviation "op_hash_ok op \<equiv> length (op_hash op) = BLAKE3_OUT_LEN"

text \<open>The block cache looks an entry up before it counts a hit on it, sets its date or changes its
  ephemeral and pin counts.\<close>

fun index_step :: "('i, 'm) deps_scheme \<Rightarrow> index_op \<Rightarrow> index_t \<Rightarrow> index_t option" where
  "index_step D (OpAdd e) ix = index_add D ix e"
| "index_step D (OpGet h) ix = map_option snd (index_get D ix h)"
| "index_step D (OpIncrement h) ix = do {
     found \<leftarrow> index_peek ix h;
     case found of None \<Rightarrow> Some ix | Some x \<Rightarrow> Some (index_increment D ix x) }"
| "index_step D (OpRemove h) ix = index_remove D ix h"
| "index_step D (OpEject h date) ix = do {
     found \<leftarrow> index_peek ix h;
     case found of None \<Rightarrow> Some ix | Some x \<Rightarrow> Some (index_set_entry_ejection D ix x date) }"
| "index_step D (OpMeta h ec pc) ix = do {
     found \<leftarrow> index_peek ix h;
     case found of None \<Rightarrow> Some ix
     | Some x \<Rightarrow> Some (index_write_entry_metadata D
         (ix\<lparr>root := index_node_update h (index_set_metadata ec pc) (root ix)\<rparr>) (index_set_metadata ec pc x)) }"

primrec index_run :: "('i, 'm) deps_scheme \<Rightarrow> index_op list \<Rightarrow> index_t \<Rightarrow> index_t option" where
  "index_run D [] ix = Some ix"
| "index_run D (op # ops) ix = Option.bind (index_step D op ix) (index_run D ops)"

context index_env
begin

definition steps_to :: "index_op \<Rightarrow> index_t \<Rightarrow> log_rec list \<Rightarrow> bool" where
  "steps_to op ix rs \<longleftrightarrow> (\<exists>ix'. index_step D op ix = Some ix' \<and> index_wf ix' \<and>
     index_map ix' = fold log_apply rs (index_map ix) \<and> index_logged D (map log_bytes rs) ix ix' \<and>
     (\<forall>r \<in> set rs. log_hash_ok r) \<and>
     (\<forall>j < length rs. fold log_apply (take j rs) (index_map ix) = index_map ix))"

lemma fold_LAdd_existing:
  assumes "\<forall>x \<in> set xs. m (hash x) = Some x"
  shows "fold log_apply (map LAdd xs) m = m"
  using assms by (induction xs) auto

lemma step_add:
  assumes "index_wf ix" and "\<not> is_rebuilding ix" and "length (hash e) = BLAKE3_OUT_LEN"
  shows "\<exists>rs. steps_to (OpAdd e) ix rs"
proof (cases "index_map ix (hash e)")
  case None
  from index_add_new_eq [OF assms(1,3) None, of D] obtain ix' xs where r:
      "index_add D ix e = Some ix'" "index_wf ix'" "index_map ix' = (index_map ix)(hash e \<mapsto> e)"
      "index_logged D (map (add_rec D) (xs @ [e])) ix ix'" "set xs \<subseteq> set (index_to_array ix)"
    by blast
  have xs: "\<forall>x \<in> set xs. index_map ix (hash x) = Some x"
    using r(5) index_map_mem [OF assms(1)] by blast
  have "map (add_rec D) (xs @ [e]) = map log_bytes (map LAdd (xs @ [e]))"
    by (simp add: rec_bytes comp_def)
  with r(4) have "index_logged D (map log_bytes (map LAdd (xs @ [e]))) ix ix'" by metis
  moreover have "index_map ix' = fold log_apply (map LAdd (xs @ [e])) (index_map ix)"
    using fold_LAdd_existing [OF xs] None r(3) by simp
  moreover have "\<forall>q \<in> set (map LAdd (xs @ [e])). log_hash_ok q"
    using xs index_map_length [OF assms(1)] assms(3) by auto
  moreover have "\<forall>j < length (map LAdd (xs @ [e])).
      fold log_apply (take j (map LAdd (xs @ [e]))) (index_map ix) = index_map ix"
  proof (intro allI impI)
    fix j assume "j < length (map LAdd (xs @ [e]))"
    then have "take j (map LAdd (xs @ [e])) = map LAdd (take j xs)" by (simp add: take_map)
    moreover have "\<forall>x \<in> set (take j xs). index_map ix (hash x) = Some x"
      using xs by (meson in_set_takeD)
    ultimately show "fold log_apply (take j (map LAdd (xs @ [e]))) (index_map ix) = index_map ix"
      by (metis fold_LAdd_existing)
  qed
  ultimately show ?thesis
    using r(1,2) unfolding steps_to_def index_step.simps by blast
next
  case (Some x)
  with index_add_existing_eq [OF assms(1) Some, of D] assms(2,3) index_map_hash [OF Some] show ?thesis
    unfolding steps_to_def by (intro exI [of _ "[LInc x]"]) (auto simp: rec_bytes simp del: log_bytes.simps)
qed

lemma step_absent: "index_wf ix \<Longrightarrow> index_step D op ix = Some ix \<Longrightarrow> steps_to op ix []"
  by (simp add: steps_to_def index_logged_def)

lemma step_get:
  assumes "index_wf ix" and "\<not> is_rebuilding ix" and "length h = BLAKE3_OUT_LEN"
  shows "\<exists>rs. steps_to (OpGet h) ix rs"
proof (cases "index_map ix h")
  case None
  then have "bump h (index_map ix) = index_map ix" by (auto simp: bump_def)
  with index_get_eq [OF assms(1,3), of D] None show ?thesis
    unfolding steps_to_def by (intro exI [of _ "[]"]) auto
next
  case (Some x)
  with index_get_eq [OF assms(1,3), of D] assms(3) index_map_hash [OF Some] show ?thesis
    unfolding steps_to_def by (intro exI [of _ "[LInc x]"]) (auto simp: rec_bytes simp del: log_bytes.simps)
qed

lemma step_increment:
  assumes "index_wf ix" and "\<not> is_rebuilding ix" and "length h = BLAKE3_OUT_LEN"
  shows "\<exists>rs. steps_to (OpIncrement h) ix rs"
proof (cases "index_map ix h")
  case None
  then show ?thesis using step_absent assms index_find_eq(2) by (auto intro!: exI [of _ "[]"])
next
  case (Some x)
  with index_increment_eq [OF assms(1) Some, of D] index_find_eq(2) [OF assms(1,3)] assms(3) index_map_hash [OF Some]
  show ?thesis
    unfolding steps_to_def by (intro exI [of _ "[LInc x]"]) (auto simp: rec_bytes simp del: log_bytes.simps)
qed

lemma step_remove:
  assumes "index_wf ix" and "\<not> is_rebuilding ix" and "length h = BLAKE3_OUT_LEN"
  shows "\<exists>rs. steps_to (OpRemove h) ix rs"
proof (cases "index_map ix h")
  case None
  then have "(index_map ix)(h := None) = index_map ix" by auto
  with index_remove_eq [OF assms(1,3), of D] None show ?thesis
    unfolding steps_to_def by (intro exI [of _ "[]"]) auto
next
  case (Some x)
  with index_remove_eq [OF assms(1,3), of D] assms(3) show ?thesis
    unfolding steps_to_def by (intro exI [of _ "[LRem h]"]) (auto simp: rec_bytes simp del: log_bytes.simps)
qed

lemma step_eject:
  assumes "index_wf ix" and "\<not> is_rebuilding ix" and "length h = BLAKE3_OUT_LEN"
  shows "\<exists>rs. steps_to (OpEject h date) ix rs"
proof (cases "index_map ix h")
  case None
  then show ?thesis using step_absent assms index_find_eq(2) by (auto intro!: exI [of _ "[]"])
next
  case (Some x)
  with index_set_entry_ejection_eq [OF assms(1) Some, of D date] index_find_eq(2) [OF assms(1,3)] assms(3)
  show ?thesis
    unfolding steps_to_def
    by (intro exI [of _ "[LEject h date]"]) (auto simp: ej_rec_bytes simp del: log_bytes.simps)
qed

lemma step_meta:
  assumes "index_wf ix" and "\<not> is_rebuilding ix" and "length h = BLAKE3_OUT_LEN"
  shows "\<exists>rs. steps_to (OpMeta h ec pc) ix rs"
proof (cases "index_map ix h")
  case None
  then show ?thesis using step_absent assms index_find_eq(2) by (auto intro!: exI [of _ "[]"])
next
  case (Some x)
  let ?e = "index_set_metadata ec pc x"
  let ?ix = "ix\<lparr>root := index_node_update h (index_set_metadata ec pc) (root ix)\<rparr>"
  let ?ix' = "index_write_entry_metadata D ?ix ?e"
  note w = index_write_entry_metadata_eq [of D ?e ?ix]
  have m: "index_map ?ix = (index_map ix)(h \<mapsto> ?e)" "index_wf ?ix"
    using Some index_update_wf [OF assms(1)]
    by (simp_all add: index_map_update_eq index_set_metadata_def)
  have e: "hash ?e = h" "ephemeral_count ?e = ec" "pin_count ?e = pc"
    using index_map_hash [OF Some] by (simp_all add: index_set_metadata_def)
  have "index_map ?ix' = log_apply (LMeta ?e) (index_map ix)" "index_wf ?ix'"
    using w m e Some by (simp_all add: index_map_def index_wf_def fun_eq_iff)
  moreover have "index_logged D [log_bytes (LMeta ?e)] ix ?ix'"
    using w unfolding rec_bytes by (auto simp: index_logged_def ix_ext_def wal_log_def simp del: log_bytes.simps)
  ultimately show ?thesis
    using index_find_eq(2) [OF assms(1,3)] Some e assms(3) unfolding steps_to_def
    by (intro exI [of _ "[LMeta ?e]"]) (auto simp del: log_bytes.simps)
qed

lemma index_step_logs:
  assumes "index_wf ix" and "\<not> is_rebuilding ix" and "op_hash_ok op"
  shows "\<exists>rs. steps_to op ix rs"
  using assms step_add step_get step_increment step_remove step_eject step_meta by (cases op) auto

text \<open>A run logs records whose fold is the change of the map, and every prefix of the records gives
  the map after a prefix of the run.\<close>

definition runs_to :: "index_op list \<Rightarrow> index_t \<Rightarrow> index_t \<Rightarrow> log_rec list \<Rightarrow> bool" where
  "runs_to ops ix ix' rs \<longleftrightarrow> index_run D ops ix = Some ix' \<and> index_wf ix' \<and>
     index_map ix' = fold log_apply rs (index_map ix) \<and> index_logged D (map log_bytes rs) ix ix' \<and>
     (\<forall>r \<in> set rs. log_hash_ok r) \<and>
     (\<forall>j \<le> length rs. \<exists>m ixm. m \<le> length ops \<and> index_run D (take m ops) ix = Some ixm \<and>
        index_map ixm = fold log_apply (take j rs) (index_map ix))"

lemma index_run_prefix:
  assumes s: "index_step D op ix = Some ix1" "index_map ix1 = fold log_apply rs1 (index_map ix)"
      "\<forall>j < length rs1. fold log_apply (take j rs1) (index_map ix) = index_map ix"
    and r: "\<forall>j \<le> length rs2. \<exists>m ixm. m \<le> length ops \<and> index_run D (take m ops) ix1 = Some ixm \<and>
        index_map ixm = fold log_apply (take j rs2) (index_map ix1)"
    and j: "j \<le> length (rs1 @ rs2)"
  shows "\<exists>m ixm. m \<le> length (op # ops) \<and> index_run D (take m (op # ops)) ix = Some ixm \<and>
        index_map ixm = fold log_apply (take j (rs1 @ rs2)) (index_map ix)"
proof (cases "j < length rs1")
  case True
  then show ?thesis using s(3) by (intro exI [of _ 0] exI [of _ ix]) simp
next
  case False
  with r j obtain m ixm where "m \<le> length ops" "index_run D (take m ops) ix1 = Some ixm"
      "index_map ixm = fold log_apply (take (j - length rs1) rs2) (index_map ix1)"
    by (metis add_le_cancel_left le_add_diff_inverse length_append linorder_not_less)
  with False s show ?thesis by (intro exI [of _ "Suc m"] exI [of _ ixm]) simp
qed

lemma index_run_logs:
  assumes "index_wf ix" and "\<not> is_rebuilding ix" and "\<forall>op \<in> set ops. op_hash_ok op"
  shows "\<exists>ix' rs. runs_to ops ix ix' rs"
  using assms
proof (induction ops arbitrary: ix)
  case Nil
  then show ?case by (intro exI [of _ ix] exI [of _ "[]"]) (simp add: index_logged_def runs_to_def)
next
  case (Cons op ops)
  then obtain ix1 rs1 where s: "index_step D op ix = Some ix1" "index_wf ix1"
      "index_map ix1 = fold log_apply rs1 (index_map ix)" "index_logged D (map log_bytes rs1) ix ix1"
      "\<forall>r \<in> set rs1. log_hash_ok r" "\<forall>j < length rs1. fold log_apply (take j rs1) (index_map ix) = index_map ix"
    using index_step_logs [of ix op] by (auto simp: steps_to_def)
  then have "\<not> is_rebuilding ix1" using Cons.prems(2) index_logged_rebuilding by blast
  with Cons s(2) obtain ix2 rs2 where r: "runs_to ops ix1 ix2 rs2"
    by (metis list.set_intros(2))
  have "index_logged D (map log_bytes (rs1 @ rs2)) ix ix2"
    using index_logged_trans [OF s(4)] r by (auto simp: runs_to_def)
  with s r index_run_prefix [OF s(1,3,6)] show ?case
    by (intro exI [of _ ix2] exI [of _ "rs1 @ rs2"]) (auto simp: runs_to_def)
qed

end

section \<open>Loading a snapshot\<close>

text \<open>\<open>snapshotted D k ix\<close>: the newest snapshot on disk has id \<open>k\<close> and holds the trie of
  \<open>ix\<close>, and the live log, number \<open>k + 1\<close>, is empty.\<close>

definition newest_snapshot :: "('i, 'm) deps_scheme \<Rightarrow> nat \<Rightarrow> index_t \<Rightarrow> snapshot_dir \<Rightarrow> bool" where
  "newest_snapshot D k ix dir \<longleftrightarrow>
     (\<exists>files i. index_to_cbor (dep_cbor D) ix = Some i \<and>
        sort_indexes dir =
          files @ [((k, Some (index_to_crc_ex D (root ix) False)), cbor_serialize (dep_cbor D) i)])"

definition snapshotted :: "('i, 'm) deps_scheme \<Rightarrow> nat \<Rightarrow> index_t \<Rightarrow> bool" where
  "snapshotted D k ix \<longleftrightarrow> index_wf ix \<and> \<not> is_rebuilding ix \<and> bucket_size ix < 2 ^ 64 \<and>
     wal_id (wal ix) = k + 1 \<and> wal_log ix = [] \<and> newest_snapshot D k ix (snapshots ix)"

lemma root_index_prune [simp]: "root (index_prune ix) = root ix"
  by (simp add: index_prune_def index_prune_old_snapshots_def index_prune_old_wals_def Let_def)

lemma bucket_size_index_prune [simp]: "bucket_size (index_prune ix) = bucket_size ix"
  by (simp add: index_prune_def index_prune_old_snapshots_def index_prune_old_wals_def Let_def)

lemma fold_rank_push:
  "root (fold (\<lambda>e. rank_push (g e) (hash e)) es ix) = root ix \<and>
   bucket_size (fold (\<lambda>e. rank_push (g e) (hash e)) es ix) = bucket_size ix \<and>
   wal_files (fold (\<lambda>e. rank_push (g e) (hash e)) es ix) = wal_files ix \<and>
   wal (fold (\<lambda>e. rank_push (g e) (hash e)) es ix) = wal ix \<and>
   snapshots (fold (\<lambda>e. rank_push (g e) (hash e)) es ix) = snapshots ix"
  by (induction es arbitrary: ix) (simp_all add: rank_push_def)

lemma fold_rank_push_ids:
  "current_file (fold (\<lambda>e. rank_push (g e) (hash e)) es ix) = current_file ix"
  "index_next_id (fold (\<lambda>e. rank_push (g e) (hash e)) es ix) = index_next_id ix"
  by (induction es arbitrary: ix) (simp_all add: rank_push_def)

lemma index_create_from_fields [simp]:
  "root (index_create_from b n disk s w) = n"
  "bucket_size (index_create_from b n disk s w) = b"
  "wal_files (index_create_from b n disk s w) = snd disk"
  "snapshots (index_create_from b n disk s w) = fst disk"
  by (simp_all add: index_create_from_def Let_def fold_rank_push)

context index_env
begin

text \<open>A snapshot that was written loads to the trie that was written, and its CRC is the one in the
  file name.\<close>

lemma cbor_to_index_load:
  assumes "index_wf ix" and "bucket_size ix < 2 ^ 64" and "index_to_cbor (dep_cbor D) ix = Some i"
  shows "\<exists>j. cbor_load (dep_cbor D) (cbor_serialize (dep_cbor D) i) = Some j \<and>
    cbor_isa_array (dep_cbor D) j \<and>
    cbor_to_index (dep_cbor D) j disk s w = Some (Some (index_create_from (bucket_size ix) (root ix) disk s w))"
proof -
  have wf: "node_wf (bucket_size ix) BLAKE3_OUT_LEN [] (root ix)" using assms(1) by (simp add: index_wf_def)
  obtain n where n: "index_node_to_cbor (dep_cbor D) (root ix) = Some n" "cv n = node_cval (root ix)"
    using cv_index_node [OF wf] by blast
  let ?b = "cbor_build_uint64 (dep_cbor D) (of_nat (bucket_size ix))"
  have cv_i: "cv i = CArray [node_cval (root ix), CUint 8 (of_nat (bucket_size ix))]"
    using build_array [of "[n, ?b]" 3] assms(3) n by (auto simp: index_to_cbor_def cv_build)
  have "wf_cval (cv i)"
    using wf_node_cval [OF wf assms(2)] by (simp add: cv_i)
  from load_serialize [OF this] obtain j where j: "cbor_load (dep_cbor D) (cbor_serialize (dep_cbor D) i) = Some j"
      "cv j = CArray [node_cval (root ix), CUint 8 (of_nat (bucket_size ix))]"
    by (auto simp: cv_i)
  have items: "cv (cbor_array_get (dep_cbor D) j 0) = node_cval (root ix)"
    "cv (cbor_array_get (dep_cbor D) j 1) = CUint 8 (of_nat (bucket_size ix))"
    by (rule array_item [OF j(2)]; simp)+
  have "unat (cbor_get_int (dep_cbor D) (cbor_array_get (dep_cbor D) j 1)) = bucket_size ix"
    using get_int [OF items(2)] assms(2) by (simp add: unat_of_nat)
  moreover have "cbor_to_index_node (dep_cbor D) (cbor_array_get (dep_cbor D) j 0) = Some (Some (root ix))"
    by (rule cbor_to_index_node_cv [OF wf items(1)])
  ultimately show ?thesis using j by (auto simp: cbor_to_index_def isa_array)
qed

lemma index_create_newest:
  assumes "index_wf ix" and "bucket_size ix < 2 ^ 64" and "newest_snapshot D k ix (fst disk)"
  shows "index_create D b s w disk = index_recover_live D k (index_create_from (bucket_size ix) (root ix) disk s w)"
proof -
  obtain files i where i: "index_to_cbor (dep_cbor D) ix = Some i"
      "sort_indexes (fst disk) = files @ [((k, Some (index_to_crc_ex D (root ix) False)), cbor_serialize (dep_cbor D) i)]"
    using assms(3) unfolding newest_snapshot_def by blast
  obtain j where "cbor_load (dep_cbor D) (cbor_serialize (dep_cbor D) i) = Some j"
      "cbor_isa_array (dep_cbor D) j"
      "cbor_to_index (dep_cbor D) j disk s w = Some (Some (index_create_from (bucket_size ix) (root ix) disk s w))"
    using cbor_to_index_load [OF assms(1,2) i(1)] by blast
  with i show ?thesis by (simp add: index_create_def Let_def)
qed

lemma index_recover_live_replay:
  assumes "index_wf ix" and "wal_contents (wal_files ix) (k + 1) = take n (wal_frames (dep_xxh32 D) (map log_bytes rs))"
    and "\<forall>r \<in> set rs. log_hash_ok r \<and> no_legacy_collision (dep_xxh32 D) (log_bytes r)"
    and "length (wal_frames (dep_xxh32 D) (map log_bytes rs)) < 2 ^ 31"
  shows "\<exists>ix'. index_recover_live D k ix = Some ix' \<and> index_wf ix' \<and>
    index_map ix' = fold log_apply (take (complete_records n (map log_bytes rs)) rs) (index_map ix)"
proof -
  let ?ix = "ix\<lparr>is_rebuilding := True\<rparr>"
  let ?j = "complete_records n (map log_bytes rs)"
  obtain ix1 where ix1: "fold (\<lambda>(ty, d) s. Option.bind s (replay_record D ty d)) (map log_bytes (take ?j rs)) (Some ?ix) = Some ix1"
      "index_wf ix1" "index_map ix1 = fold log_apply (take ?j rs) (index_map ?ix)"
    using replay_records [of ?ix "take ?j rs"] assms(1,3)
    by (auto simp: index_wf_def dest: in_set_takeD)
  have "\<forall>r \<in> set (map log_bytes rs). wal_rec_wf r \<and> no_legacy_collision (dep_xxh32 D) r"
    using assms(3) by (auto simp: log_bytes_wf simp del: log_bytes.simps)
  from wal_replay_take_frames [OF this assms(4), of n "\<lambda>ty d s. Option.bind s (replay_record D ty d)" "Some ?ix"]
  obtain code c where "wal_replay (dep_xxh32 D) (wal_contents (wal_files ?ix) (k + 1))
      (\<lambda>ty d s. Option.bind s (replay_record D ty d)) wal_cursor_init (Some ?ix) = (code, c, Some ix1)"
      "\<not> legacy_entry_size c"
    using ix1(1) assms(2) by (auto simp: take_map)
  then have "index_recover_live D k ix = Some (index_prune (ix1\<lparr>is_rebuilding := False\<rparr>))"
    by (simp add: index_recover_live_def index_replay_wal_def)
  moreover have "index_map (index_prune (ix1\<lparr>is_rebuilding := False\<rparr>)) = index_map ix1"
    by (simp add: index_map_def fun_eq_iff)
  moreover have "index_map ?ix = index_map ix" by (simp add: index_map_def fun_eq_iff)
  ultimately show ?thesis using ix1(2,3) by (simp add: index_wf_def)
qed

end

section \<open>Crash recovery\<close>

lemma index_logged_log:
  "index_logged D rs ix ix' \<Longrightarrow> \<not> is_rebuilding ix \<Longrightarrow> wal_log ix' = wal_log ix @ wal_frames (dep_xxh32 D) rs \<and>
     wal_id (wal ix') = wal_id (wal ix) \<and> snapshots ix' = snapshots ix"
  by (auto simp: index_logged_def ix_ext_def wal_log_def)

text \<open>C2. Crash recovery. Start from an index whose newest snapshot is on disk and whose live log is
  empty, run any sequence of index operations, and cut the live log at any byte. Opening the
  index again then succeeds and yields a well-formed index that holds exactly the entries, with
  all their fields and counters, that the index held after some prefix of the operations; if the
  log is not cut, after all of them. This covers the splits of the trie, which log entries again.
  Assumed are the libcbor contract, a log below 2 GiB, and that no logged entry has the XXH32 of
  its own 78-byte prefix.\<close>

theorem index_crash_recovery:
  assumes "libcbor (dep_cbor D) cv" and "snapshotted D k ix" and "\<forall>op \<in> set ops. op_hash_ok op"
  shows "\<exists>ix' rs. index_run D ops ix = Some ix' \<and> wal_log ix' = wal_frames (dep_xxh32 D) (map log_bytes rs) \<and>
    (\<forall>r \<in> set rs. log_hash_ok r) \<and>
    ((\<forall>r \<in> set rs. no_legacy_collision (dep_xxh32 D) (log_bytes r)) \<and> length (wal_log ix') < 2 ^ 31 \<longrightarrow>
     (\<exists>m ixm ixr. m \<le> length ops \<and> index_run D (take m ops) ix = Some ixm \<and>
        index_create D b s w (snapshots ix', (wal_files ix')(k + 1 \<mapsto> take n (wal_log ix'))) = Some ixr \<and>
        index_wf ixr \<and> index_map ixr = index_map ixm \<and>
        (length (wal_log ix') \<le> n \<longrightarrow> index_map ixr = index_map ix')))"
proof -
  have env: "index_env D cv" using assms(1) by (simp add: index_env_def)
  have sn: "index_wf ix" "\<not> is_rebuilding ix" "bucket_size ix < 2 ^ 64" "wal_id (wal ix) = k + 1"
      "wal_log ix = []" "newest_snapshot D k ix (snapshots ix)"
    using assms(2) by (auto simp: snapshotted_def)
  obtain ix' rs where "index_env.runs_to D ops ix ix' rs"
    using index_env.index_run_logs [OF env sn(1,2) assms(3)] by blast
  note r = this [unfolded index_env.runs_to_def [OF env]]
  then have log: "wal_log ix' = wal_frames (dep_xxh32 D) (map log_bytes rs)" "snapshots ix' = snapshots ix"
    using index_logged_log [of D "map log_bytes rs" ix ix'] sn(2,5) by auto
  let ?disk = "(snapshots ix', (wal_files ix')(k + 1 \<mapsto> take n (wal_log ix')))"
  let ?ix = "index_create_from (bucket_size ix) (root ix) ?disk s w"
  let ?j = "complete_records n (map log_bytes rs)"
  have new: "index_create D b s w ?disk = index_recover_live D k ?ix"
    using index_env.index_create_newest [OF env sn(1,3), of k ?disk] sn(6) log(2) by simp
  have ix: "index_wf ?ix" "index_map ?ix = index_map ix" 
      "wal_contents (wal_files ?ix) (k + 1) = take n (wal_frames (dep_xxh32 D) (map log_bytes rs))"
    using sn(1) log(1) by (simp_all add: index_wf_def index_map_def fun_eq_iff)
  have "?j \<le> length rs" using complete_records_le [of n "map log_bytes rs"] by simp
  then obtain m ixm where m: "m \<le> length ops" "index_run D (take m ops) ix = Some ixm"
      "index_map ixm = fold log_apply (take ?j rs) (index_map ix)"
    using r by blast
  have all: "length (wal_log ix') \<le> n \<Longrightarrow> index_map ix' = fold log_apply (take ?j rs) (index_map ix)"
    using r complete_records_all [of "dep_xxh32 D" "map log_bytes rs" n] log(1) by simp
  have "\<exists>ixr. index_create D b s w ?disk = Some ixr \<and> index_wf ixr \<and>
      index_map ixr = fold log_apply (take ?j rs) (index_map ix)"
    if "\<forall>r \<in> set rs. no_legacy_collision (dep_xxh32 D) (log_bytes r)" "length (wal_log ix') < 2 ^ 31"
    using index_env.index_recover_live_replay [OF env ix(1,3)] that r log(1) unfolding new ix(2) by auto
  with r log m all show ?thesis
    by (intro exI [of _ ix'] exI [of _ rs]) (metis (no_types, lifting))
qed

section \<open>Taking a snapshot\<close>

text \<open>The ids run in lockstep: the live log has the id of the snapshot to be written next, the following
  id is the next one, and nothing on disk is newer.\<close>

definition lockstep :: "index_t \<Rightarrow> bool" where
  "lockstep ix \<longleftrightarrow> wal_id (wal ix) = current_file ix \<and> wal_next_id (wal ix) = current_file ix + 1 \<and>
     index_next_id ix = current_file ix + 1 \<and>
     (\<forall>f \<in> set (snapshots ix). fst (fst f) < current_file ix) \<and>
     (\<forall>j > current_file ix. wal_files ix j = None)"

lemma sort_key_snoc: "\<forall>y \<in> set xs. f y \<le> f x \<Longrightarrow> sort_key f (xs @ [x]) = sort_key f xs @ [x]"
proof (induction xs)
  case (Cons y ys)
  have "f y \<le> f x \<Longrightarrow> insort_key f y (zs @ [x]) = insort_key f y zs @ [x]" for zs
    by (induction zs) auto
  with Cons show ?case by simp
qed simp

lemma write_snapshot_new:
  "\<forall>f \<in> set files. fst (fst f) < fst name \<Longrightarrow> write_snapshot name d files = files @ [(name, d)]"
proof -
  assume "\<forall>f \<in> set files. fst (fst f) < fst name"
  then have "map_of files name = None" unfolding map_of_eq_None_iff by force
  then show ?thesis by (simp add: write_snapshot_def)
qed

lemma sort_indexes_snoc:
  "\<forall>f \<in> set files. fst (fst f) < fst name \<Longrightarrow> sort_indexes (files @ [(name, d)]) = sort_indexes files @ [(name, d)]"
  by (auto simp: sort_indexes_def intro!: sort_key_snoc)

lemma set_sort_indexes [simp]: "set (sort_indexes files) = set files"
  by (simp add: sort_indexes_def)

text \<open>Pruning keeps the newest snapshot and every log from its id on.\<close>

lemma index_prune_newest:
  assumes "sort_indexes (snapshots ix) = files @ [x]"
  shows "\<exists>files'. sort_indexes (snapshots (index_prune ix)) = files' @ [x] \<and> set files' \<subseteq> set files"
proof (cases "max_snapshots ix = 0")
  case True
  with assms show ?thesis
    by (auto simp: index_prune_def index_prune_old_snapshots_def index_prune_old_wals_def)
next
  case False
  let ?n = "length (files @ [x]) - max_snapshots ix"
  have n: "?n \<le> length files" using False by simp
  have "sorted (map (\<lambda>f. fst (fst f)) (files @ [x]))"
    unfolding assms [symmetric] by (simp add: sort_indexes_def)
  then have "sort_indexes (drop ?n (files @ [x])) = drop ?n (files @ [x])"
    by (simp only: sort_indexes_def sort_key_id_if_sorted drop_map [symmetric] sorted_wrt_drop)
  moreover have "snapshots (index_prune ix) = drop ?n (files @ [x])"
    using False assms by (simp add: index_prune_def index_prune_old_snapshots_def index_prune_old_wals_def Let_def)
  ultimately show ?thesis using n by (auto dest: in_set_dropD)
qed

lemma index_prune_fields [simp]:
  "is_rebuilding (index_prune ix) = is_rebuilding ix" "wal (index_prune ix) = wal ix"
  "current_file (index_prune ix) = current_file ix" "index_next_id (index_prune ix) = index_next_id ix"
  "set (snapshots (index_prune ix)) \<subseteq> set (snapshots ix)"
  by (auto simp: index_prune_def index_prune_old_snapshots_def index_prune_old_wals_def Let_def
      dest: in_set_dropD)

lemma wal_files_index_prune: "wal_files ix j = None \<Longrightarrow> wal_files (index_prune ix) j = None"
  by (simp add: index_prune_def index_prune_old_snapshots_def index_prune_old_wals_def Let_def)

lemma index_to_cbor_cong: "root ix' = root ix \<Longrightarrow> bucket_size ix' = bucket_size ix \<Longrightarrow> index_to_cbor C ix' = index_to_cbor C ix"
  by (simp add: index_to_cbor_def)

text \<open>A successful snapshot under an id above every id on disk.\<close>

lemma index_to_cbor_defined:
  assumes "libcbor (dep_cbor D) cv" and "index_wf ix"
  shows "\<exists>i. index_to_cbor (dep_cbor D) ix = Some i"
proof -
  obtain n where "index_node_to_cbor (dep_cbor D) (root ix) = Some n"
    using libcbor.cv_index_node [OF assms(1), of "bucket_size ix" BLAKE3_OUT_LEN "[]" "root ix"] assms(2)
    by (auto simp: index_wf_def)
  then show ?thesis
    using libcbor.build_array [OF assms(1), of "[n, cbor_build_uint64 (dep_cbor D) (of_nat (bucket_size ix))]" 3]
    by (auto simp: index_to_cbor_def)
qed

lemma index_debounce_newest:
  assumes "index_to_cbor (dep_cbor D) ix = Some i"
    and "write_snapshot (current_file ix, Some (index_to_crc_ex D (root ix) False)) (cbor_serialize (dep_cbor D) i) (snapshots ix)
      = files @ [((current_file ix, Some (index_to_crc_ex D (root ix) False)), cbor_serialize (dep_cbor D) i)]"
    and "\<forall>f \<in> set files. fst (fst f) < current_file ix"
  shows "\<exists>ix'. index_debounce D None ix = Some ix' \<and> newest_snapshot D (current_file ix) ix' (snapshots ix') \<and>
    (\<forall>f \<in> set (snapshots ix'). fst (fst f) \<le> current_file ix) \<and>
    wal ix' = wal_create_next (wal_next_id (wal ix)) (wal_last (wal ix)) \<and>
    (\<forall>j. wal_files ix j = None \<longrightarrow> wal_files ix' j = None) \<and>
    current_file ix' = index_next_id ix \<and> index_next_id ix' = index_next_id ix + 1 \<and>
    root ix' = root ix \<and> bucket_size ix' = bucket_size ix \<and> is_rebuilding ix' = is_rebuilding ix"
proof -
  let ?x = "((current_file ix, Some (index_to_crc_ex D (root ix) False)), cbor_serialize (dep_cbor D) i)"
  define ix1 where "ix1 = ix\<lparr>last_file := Some (current_file ix), current_file := index_next_id ix,
      index_next_id := index_next_id ix + 1, wal := wal_create_next (wal_next_id (wal ix)) (wal_last (wal ix)),
      snapshots := files @ [?x]\<rparr>"
  have ix': "index_debounce D None ix = Some (index_prune ix1)"
    using assms(1,2) by (simp add: index_debounce_def Let_def ix1_def)
  have "sort_indexes (snapshots ix1) = sort_indexes files @ [?x]"
    using assms(3) by (simp add: ix1_def sort_indexes_snoc)
  from index_prune_newest [OF this] obtain files' where
    files': "sort_indexes (snapshots (index_prune ix1)) = files' @ [?x]" by blast
  have "index_to_cbor (dep_cbor D) (index_prune ix1) = Some i"
    using assms(1) index_to_cbor_cong [of "index_prune ix1" ix "dep_cbor D"] by (simp add: ix1_def)
  with files' have "newest_snapshot D (current_file ix) (index_prune ix1) (snapshots (index_prune ix1))"
    by (simp add: newest_snapshot_def ix1_def)
  moreover have "\<forall>f \<in> set (snapshots (index_prune ix1)). fst (fst f) \<le> current_file ix"
    using assms(3) index_prune_fields(5) [of ix1] by (fastforce simp: ix1_def)
  moreover have "\<forall>j. wal_files ix j = None \<longrightarrow> wal_files (index_prune ix1) j = None"
    by (auto intro: wal_files_index_prune simp: ix1_def)
  ultimately show ?thesis using ix' by (simp add: ix1_def)
qed

lemma index_debounce_eq:
  assumes "libcbor (dep_cbor D) cv" and "index_wf ix" and "\<not> is_rebuilding ix" and "bucket_size ix < 2 ^ 64"
    and "lockstep ix"
  shows "\<exists>ix'. index_debounce D None ix = Some ix' \<and> snapshotted D (current_file ix) ix' \<and> lockstep ix' \<and>
    current_file ix' = current_file ix + 1 \<and> root ix' = root ix \<and> bucket_size ix' = bucket_size ix"
proof -
  obtain i where i: "index_to_cbor (dep_cbor D) ix = Some i"
    using index_to_cbor_defined [OF assms(1,2)] by blast
  obtain ix' where r: "index_debounce D None ix = Some ix'" "newest_snapshot D (current_file ix) ix' (snapshots ix')"
      "\<forall>f \<in> set (snapshots ix'). fst (fst f) \<le> current_file ix"
      "wal ix' = wal_create_next (wal_next_id (wal ix)) (wal_last (wal ix))"
      "\<forall>j. wal_files ix j = None \<longrightarrow> wal_files ix' j = None"
      "current_file ix' = index_next_id ix" "index_next_id ix' = index_next_id ix + 1"
      "root ix' = root ix" "bucket_size ix' = bucket_size ix" "is_rebuilding ix' = is_rebuilding ix"
    using index_debounce_newest [OF i write_snapshot_new] assms(5) by (auto simp: lockstep_def)
  have "lockstep ix'" "wal_log ix' = []"
    using assms(5) r(3-7) by (auto simp: lockstep_def wal_create_next_def wal_log_def wal_contents_def)
  moreover have "snapshotted D (current_file ix) ix'"
    using assms(2-5) r \<open>wal_log ix' = []\<close>
    by (auto simp: snapshotted_def wal_create_next_def lockstep_def index_wf_def)
  ultimately show ?thesis using r assms(5) by (simp add: lockstep_def)
qed

lemma example_deps_libcbor: "libcbor (dep_cbor example_deps) snd"
  using rfc8949.libcbor_axioms by (simp add: example_deps_def)

interpretation example: index_env example_deps snd
  by (rule index_env.intro) (rule example_deps_libcbor)

lemma example_snapshotted:
  "\<exists>ix. snapshotted example_deps 1 ix \<and> lockstep ix \<and> current_file ix = 2 \<and> index_map ix = index_map example_index"
proof -
  have "lockstep example_index" "bucket_size example_index < 2 ^ 64" "current_file example_index = 1"
      "\<not> is_rebuilding example_index"
    by (simp_all add: lockstep_def example_index_def index_new_empty_def wal_create_def)
  with index_debounce_eq [OF example_deps_libcbor example_index_wf] show ?thesis
    by (auto simp: index_map_def fun_eq_iff)
qed

lemma example_no_collision:
  "log_hash_ok r \<Longrightarrow> no_legacy_collision (dep_xxh32 example_deps) (log_bytes r)"
  by (cases r) (auto simp: no_legacy_collision_def example_deps_def length_entry_encoding
      simp del: cbor_encode.simps)

theorem index_crash_recovery_witness:
  "\<exists>ix ix' ixr. snapshotted example_deps 1 ix \<and>
     index_run example_deps [OpIncrement (example_hash 1)] ix = Some ix' \<and>
     index_create example_deps 2 3 3 (snapshots ix', (wal_files ix')(2 \<mapsto> take 91 (wal_log ix'))) = Some ixr \<and>
     index_map ixr = index_map ix'"
proof -
  obtain ix where ix: "snapshotted example_deps 1 ix" "index_map ix = index_map example_index"
    using example_snapshotted by blast
  let ?h = "example_hash 1" and ?e = "index_entry_create (example_hash 1)"
  have e: "index_map ix ?h = Some ?e" using ix(2) by (simp add: example_index_map)
  have wf: "index_wf ix" "\<not> is_rebuilding ix" "wal_log ix = []" using ix(1) by (auto simp: snapshotted_def)
  note inc = index_increment_eq [OF wf(1) e, of example_deps]
  have run: "index_run example_deps [OpIncrement ?h] ix = Some (index_increment example_deps ix ?e)"
    using index_find_eq(2) [OF wf(1), of ?h] e by simp
  have "wal_log (index_increment example_deps ix ?e) = wal_frames (dep_xxh32 example_deps) [log_bytes (LInc ?e)]"
    using inc index_logged_log [of example_deps "[inc_rec example_deps ?e]" ix] wf(2,3)
    by (simp add: example.rec_bytes del: log_bytes.simps)
  then have len: "length (wal_log (index_increment example_deps ix ?e)) = 91"
    by (simp add: length_entry_encoding del: cbor_encode.simps)
  obtain ix' rs where r: "index_run example_deps [OpIncrement ?h] ix = Some ix'" "\<forall>r \<in> set rs. log_hash_ok r"
      "(\<forall>r \<in> set rs. no_legacy_collision (dep_xxh32 example_deps) (log_bytes r)) \<and> length (wal_log ix') < 2 ^ 31 \<Longrightarrow>
       \<exists>ixr. index_create example_deps 2 3 3 (snapshots ix', (wal_files ix')(1 + 1 \<mapsto> take 91 (wal_log ix'))) = Some ixr \<and>
         (length (wal_log ix') \<le> 91 \<longrightarrow> index_map ixr = index_map ix')"
    using index_crash_recovery [OF example_deps_libcbor ix(1), of "[OpIncrement ?h]" 2 3 3 91] by auto
  have len': "length (wal_log ix') = 91" using r(1) run len by simp
  moreover have "\<forall>r \<in> set rs. no_legacy_collision (dep_xxh32 example_deps) (log_bytes r)"
    using r(2) example_no_collision by blast
  ultimately obtain ixr where
      "index_create example_deps 2 3 3 (snapshots ix', (wal_files ix')(1 + 1 \<mapsto> take 91 (wal_log ix'))) = Some ixr"
      "index_map ixr = index_map ix'"
    using r(3) by auto
  then show ?thesis unfolding one_add_one using ix(1) r(1) by blast
qed

end
