(* ===== verification/Index_Durability.thy ===== *)
theory Index_Durability
  imports Index_Recovery
begin

text \<open>
  What survives a restart: a snapshot gives the index back, and the situations in which
  \<open>index_create\<close> does not give back what was logged. The latter are consequences of the code as
  written: a log without a snapshot is not replayed, an empty log ends a rebuild, a failed
  snapshot leaves the snapshot and log numbering one apart, and a snapshot rejected for its CRC is
  written out again under a CRC that matches.
\<close>

section \<open>Replaying nothing\<close>

lemma index_replay_missing_log:
  "wal_contents (wal_files ix) k = [] \<Longrightarrow> index_replay_wal D k ix = (1, False, Some ix)"
  by (subst index_replay_wal_def, subst wal_replay.simps)
    (simp add: wal_read_def wal_read_record_def wal_cursor_init_def file_read_def Let_def)

lemma index_recover_live_missing_log:
  "wal_contents (wal_files ix) (k + 1) = [] \<Longrightarrow>
   index_recover_live D k ix = Some (index_prune (ix\<lparr>is_rebuilding := False\<rparr>))"
  by (simp add: index_recover_live_def index_replay_missing_log)

lemma index_map_cong: "root ix' = root ix \<Longrightarrow> index_map ix' = index_map ix"
  by (simp add: index_map_def fun_eq_iff)

lemma index_create_newest_no_log:
  assumes "libcbor (dep_cbor D) cv" and "index_wf ix" and "bucket_size ix < 2 ^ 64"
    and "newest_snapshot D k ix (fst disk)" and "wal_contents (snd disk) (k + 1) = []"
  shows "\<exists>ixr. index_create D b s w disk = Some ixr \<and> root ixr = root ix"
  using index_env.index_create_newest [OF index_env.intro [OF assms(1)] assms(2-4), of b s w]
    index_recover_live_missing_log [of "index_create_from (bucket_size ix) (root ix) disk s w" k D] assms(5)
  by simp

section \<open>Snapshots\<close>

text \<open>C16. Snapshot and restart. Saving an index whose ids are in lockstep succeeds, keeps the ids in
  lockstep, and opening the saved directories gives an index with the same trie.\<close>

theorem index_snapshot_roundtrip:
  assumes "libcbor (dep_cbor D) cv" and "index_wf ix" and "\<not> is_rebuilding ix" and "bucket_size ix < 2 ^ 64"
    and "lockstep ix"
  shows "\<exists>ix' ixr. index_debounce D None ix = Some ix' \<and> lockstep ix' \<and> current_file ix' = current_file ix + 1 \<and>
    index_create D b s w (snapshots ix', wal_files ix') = Some ixr \<and> root ixr = root ix \<and>
    index_map ixr = index_map ix"
proof -
  obtain ix' where r: "index_debounce D None ix = Some ix'" "snapshotted D (current_file ix) ix'" "lockstep ix'"
      "current_file ix' = current_file ix + 1" "root ix' = root ix"
    using index_debounce_eq [OF assms] by blast
  moreover have "\<exists>ixr. index_create D b s w (snapshots ix', wal_files ix') = Some ixr \<and> root ixr = root ix'"
    using r(2) by (intro index_create_newest_no_log [OF assms(1), of ix' "current_file ix"])
      (auto simp: snapshotted_def wal_log_def)
  ultimately show ?thesis by (metis index_map_cong)
qed

lemma example_index_lockstep:
  "lockstep example_index" "bucket_size example_index < 2 ^ 64" "\<not> is_rebuilding example_index"
  by (simp_all add: lockstep_def example_index_def index_new_empty_def wal_create_def)

theorem index_snapshot_roundtrip_witness:
  "\<exists>ix' ixr. index_debounce example_deps None example_index = Some ix' \<and>
     index_create example_deps 2 3 3 (snapshots ix', wal_files ix') = Some ixr \<and>
     index_map ixr = index_map example_index"
  using index_snapshot_roundtrip [OF example_deps_libcbor example_index_wf, of 2 3 3] example_index_lockstep
  by auto

section \<open>Where recovery loses or keeps the wrong data\<close>


text \<open>C26. A snapshot that fails its CRC check is not discarded. If the only snapshot decodes to the index
  \<open>ix\<close> and its name carries another CRC, the first start rejects it and comes up empty, but
  destroying the rejected index writes it out again under its own CRC: the next start accepts
  exactly the content that was rejected.\<close>

theorem rejected_snapshot_returns:
  assumes "libcbor (dep_cbor D) cv" and "index_wf ix" and "bucket_size ix < 2 ^ 64"
    and "index_to_cbor (dep_cbor D) ix = Some i"
    and "index_to_crc_ex D (root ix) False \<noteq> c" and "index_to_crc_ex D (root ix) True \<noteq> c"
    and "logs (k + 2) = None"
  shows "\<exists>ix1 ix2. index_create D b s w ([((k, Some c), cbor_serialize (dep_cbor D) i)], logs) = Some ix1 \<and>
    index_map ix1 = (\<lambda>_. None) \<and>
    index_create D b s w (snapshots ix1, wal_files ix1) = Some ix2 \<and> index_map ix2 = index_map ix"
proof -
  let ?disk = "([((k, Some c), cbor_serialize (dep_cbor D) i)], logs)"
  let ?ix = "index_create_from (bucket_size ix) (root ix) ?disk s w"
  obtain j where j: "cbor_load (dep_cbor D) (cbor_serialize (dep_cbor D) i) = Some j"
      "cbor_isa_array (dep_cbor D) j" "cbor_to_index (dep_cbor D) j ?disk s w = Some (Some ?ix)"
    using index_env.cbor_to_index_load [OF index_env.intro [OF assms(1)] assms(2-4)] by blast
  have f: "current_file ?ix = k + 1" "index_next_id ?ix = k + 2"
    by (simp_all add: index_create_from_def fold_rank_push_ids sort_indexes_def Let_def)
  have "index_to_cbor (dep_cbor D) ?ix = Some i"
    using assms(4) index_to_cbor_cong [of ?ix ix "dep_cbor D"] by simp
  from index_debounce_newest [OF this write_snapshot_new] f
  obtain ix' where d: "index_debounce D None ?ix = Some ix'" "newest_snapshot D (k + 1) ix' (snapshots ix')"
      "\<forall>j. logs j = None \<longrightarrow> wal_files ix' j = None" "root ix' = root ix" "bucket_size ix' = bucket_size ix"
    by auto
  let ?ix1 = "index_new_empty b (snapshots ix', wal_files ix') 0 s w"
  have "index_create D b s w ?disk = Some ?ix1"
    using j d(1) assms(5,6) by (simp add: index_create_def sort_indexes_def)
  moreover have "index_map ?ix1 = (\<lambda>_. None)"
    by (simp add: index_map_def index_new_empty_def index_node_create_def fun_eq_iff)
  moreover have "\<exists>ix2. index_create D b s w (snapshots ?ix1, wal_files ?ix1) = Some ix2 \<and> root ix2 = root ix'"
    using d assms(2,3,7)
    by (intro index_create_newest_no_log [OF assms(1), of ix' "k + 1"])
      (simp_all add: index_wf_def index_new_empty_def wal_contents_def)
  ultimately show ?thesis using d(4) by (metis index_map_cong)
qed

theorem rejected_snapshot_returns_witness:
  "\<exists>i c ix1 ix2. index_to_cbor (dep_cbor example_deps) example_index = Some i \<and>
     index_create example_deps 2 3 3 ([((7, Some c), cbor_serialize (dep_cbor example_deps) i)], \<lambda>_. None) = Some ix1 \<and>
     index_map ix1 = (\<lambda>_. None) \<and>
     index_create example_deps 2 3 3 (snapshots ix1, wal_files ix1) = Some ix2 \<and>
     index_map ix2 = index_map example_index"
proof -
  obtain i where i: "index_to_cbor (dep_cbor example_deps) example_index = Some i"
    using index_to_cbor_defined [OF example_deps_libcbor example_index_wf] by blast
  have "\<exists>c :: u64. a \<noteq> c \<and> b \<noteq> c" for a b
  proof (rule ccontr)
    assume "\<not> ?thesis"
    then have "0 \<in> {a, b}" "1 \<in> {a, b}" "2 \<in> {a, b}" by auto
    then show False by auto
  qed
  then obtain c where "index_to_crc_ex example_deps (root example_index) False \<noteq> c"
      "index_to_crc_ex example_deps (root example_index) True \<noteq> c" by blast
  with rejected_snapshot_returns [OF example_deps_libcbor example_index_wf _ i, of c "\<lambda>_. None" 7 2 3 3] i
  show ?thesis using example_index_lockstep(2) by auto
qed

lemma write_snapshot_again:
  assumes "\<forall>f \<in> set files. fst (fst f) < fst name"
  shows "write_snapshot name d (files @ [(name, take n d)]) = files @ [(name, d)]"
proof -
  have "map_of files name = None" using assms unfolding map_of_eq_None_iff by force
  moreover have "map (\<lambda>(n, f). if n = name then (n, d @ drop (length d) f) else (n, f)) files = files"
  proof (rule map_idI)
    fix f assume "f \<in> set files"
    with assms have "fst f \<noteq> name" by fastforce
    then show "(case f of (n, f) \<Rightarrow> if n = name then (n, d @ drop (length d) f) else (n, f)) = f"
      by (cases f) simp
  qed
  ultimately show ?thesis by (simp add: write_snapshot_def map_add_def)
qed

lemma index_debounce_failed:
  assumes "index_to_cbor (dep_cbor D) ix = Some i" and "lockstep ix"
  defines "name \<equiv> (current_file ix, Some (index_to_crc_ex D (root ix) False))"
  shows "index_debounce D (Some n) ix =
    Some (ix\<lparr>last_file := None, index_next_id := current_file ix + 2,
      snapshots := snapshots ix @ [(name, take n (cbor_serialize (dep_cbor D) i))]\<rparr>)"
  using assms by (simp add: index_debounce_def Let_def lockstep_def write_snapshot_new)

text \<open>C27. A failed snapshot has a late consequence. When the write of a snapshot fails,
  \<open>index_debounce\<close> goes back to the old log and file but not to the old next id. After the
  next two successful snapshots the newest snapshot and the live log carry the same number,
  while recovery replays the log numbered one higher: whatever is logged from then on is ignored
  by the next start.\<close>

theorem failed_snapshot_skews_log:
  assumes "libcbor (dep_cbor D) cv" and "index_wf ix" and "bucket_size ix < 2 ^ 64" and "lockstep ix"
  shows "\<exists>ix1 ix2 ix3. index_debounce D (Some n) ix = Some ix1 \<and> index_debounce D None ix1 = Some ix2 \<and>
    index_debounce D None ix2 = Some ix3 \<and> wal_id (wal ix3) = current_file ix + 2 \<and>
    (\<exists>ixr. index_create D b s w (snapshots ix3, (wal_files ix3)(wal_id (wal ix3) \<mapsto> log)) = Some ixr \<and>
      index_map ixr = index_map ix)"
proof -
  obtain i where i: "index_to_cbor (dep_cbor D) ix = Some i"
    using index_to_cbor_defined [OF assms(1,2)] by blast
  let ?name = "(current_file ix, Some (index_to_crc_ex D (root ix) False))"
  define ix1 where "ix1 = ix\<lparr>last_file := None, index_next_id := current_file ix + 2,
      snapshots := snapshots ix @ [(?name, take n (cbor_serialize (dep_cbor D) i))]\<rparr>"
  have 1: "index_debounce D (Some n) ix = Some ix1"
    unfolding ix1_def by (rule index_debounce_failed [OF i assms(4)])
  have lt: "\<forall>f \<in> set (snapshots ix). fst (fst f) < current_file ix1"
    using assms(4) by (simp add: lockstep_def ix1_def)
  have i1: "index_to_cbor (dep_cbor D) ix1 = Some i"
    using i index_to_cbor_cong [of ix1 ix "dep_cbor D"] by (simp add: ix1_def)
  have w: "write_snapshot (current_file ix1, Some (index_to_crc_ex D (root ix1) False)) (cbor_serialize (dep_cbor D) i)
      (snapshots ix1) = snapshots ix @ [((current_file ix1, Some (index_to_crc_ex D (root ix1) False)), cbor_serialize (dep_cbor D) i)]"
    using write_snapshot_again [of "snapshots ix" ?name] lt by (simp add: ix1_def)
  obtain ix2 where 2: "index_debounce D None ix1 = Some ix2" "\<forall>f \<in> set (snapshots ix2). fst (fst f) \<le> current_file ix"
      "wal ix2 = wal_create_next (current_file ix + 1) (wal_last (wal ix))"
      "\<forall>j. wal_files ix j = None \<longrightarrow> wal_files ix2 j = None" "current_file ix2 = current_file ix + 2"
      "root ix2 = root ix" "bucket_size ix2 = bucket_size ix"
    using index_debounce_newest [OF i1 w lt] assms(4) by (auto simp: ix1_def lockstep_def)
  have i2: "index_to_cbor (dep_cbor D) ix2 = Some i"
    using i index_to_cbor_cong [of ix2 ix "dep_cbor D"] 2(6,7) by simp
  have lt2: "\<forall>f \<in> set (snapshots ix2). fst (fst f) < current_file ix2"
    using 2(2,5) by fastforce
  obtain ix3 where 3: "index_debounce D None ix2 = Some ix3" "newest_snapshot D (current_file ix2) ix3 (snapshots ix3)"
      "wal ix3 = wal_create_next (current_file ix + 2) (wal_last (wal ix))"
      "\<forall>j. wal_files ix2 j = None \<longrightarrow> wal_files ix3 j = None"
      "root ix3 = root ix" "bucket_size ix3 = bucket_size ix"
    using index_debounce_newest [OF i2 write_snapshot_new lt2] lt2 2 by (auto simp: wal_create_next_def)
  have "wal_files ix3 (current_file ix2 + 1) = None"
    using assms(4) 2(4,5) 3(4) by (simp add: lockstep_def)
  then have "\<exists>ixr. index_create D b s w (snapshots ix3, (wal_files ix3)(wal_id (wal ix3) \<mapsto> log)) = Some ixr \<and> root ixr = root ix3"
    using assms(2,3) 2(5) 3(2,3,5,6)
    by (intro index_create_newest_no_log [OF assms(1), of ix3 "current_file ix2"])
      (simp_all add: index_wf_def wal_create_next_def wal_contents_def)
  then obtain ixr where "index_create D b s w (snapshots ix3, (wal_files ix3)(wal_id (wal ix3) \<mapsto> log)) = Some ixr"
      "index_map ixr = index_map ix"
    using 3(5) index_map_cong by metis
  moreover have "wal_id (wal ix3) = current_file ix + 2" using 3(3) by (simp add: wal_create_next_def)
  ultimately show ?thesis using 1 2(1) 3(1) by blast
qed

theorem failed_snapshot_skews_log_witness:
  "\<exists>ix1 ix2 ix3. index_debounce example_deps (Some 5) example_index = Some ix1 \<and>
     index_debounce example_deps None ix1 = Some ix2 \<and> index_debounce example_deps None ix2 = Some ix3 \<and>
     wal_id (wal ix3) = 3 \<and>
     (\<exists>ixr. index_create example_deps 2 3 3 (snapshots ix3, (wal_files ix3)(3 \<mapsto> [97, 0])) = Some ixr \<and>
       index_map ixr = index_map example_index)"
proof -
  have "current_file example_index + 2 = 3" by (simp add: example_index_def index_new_empty_def)
  with failed_snapshot_skews_log [OF example_deps_libcbor example_index_wf example_index_lockstep(2,1),
      of 5 2 3 3 "[97, 0]"]
  show ?thesis by metis
qed

end
