(* ===== verification/Block.thy ===== *)
theory Block
  imports Buffer
begin

text \<open>
  \<open>src/src/BlockCache/block.c\<close>: blocks of the four fixed sizes, addressed by the BLAKE3 digest of their
  data. The hash function and the source of random bytes (\<open>frand\<close>, which calls OpenSSL and may return
  \<open>NULL\<close>) are arguments. \<open>Some None\<close> is a returned \<open>NULL\<close>, \<open>None\<close> the use of a null buffer.
\<close>

datatype block_size_e = mega | standard | mini | nano

fun block_size_bytes :: "block_size_e \<Rightarrow> nat" where
  "block_size_bytes mega = 1000000"
| "block_size_bytes standard = 128000"
| "block_size_bytes mini = 64000"
| "block_size_bytes nano = 136"

record block_t =
  block_data :: buffer_t
  block_hash :: buffer_t

definition hash_data :: "(bytes \<Rightarrow> bytes) \<Rightarrow> buffer_t \<Rightarrow> buffer_t" where
  "hash_data blake data = buffer_create_from_existing_memory (blake (take (buf_size data) (buf_data data))) BLAKE3_OUT_LEN"

definition block_verify_hash :: "(bytes \<Rightarrow> bytes) \<Rightarrow> buffer_t option \<Rightarrow> buffer_t option \<Rightarrow> bool" where
  "block_verify_hash blake data expected_hash =
     (case (data, expected_hash) of
        (Some d, Some h) \<Rightarrow>
          if buf_size h \<noteq> BLAKE3_OUT_LEN then False
          else let computed = hash_data blake d
               in if buf_size computed = buf_size h
                  then fold (\<lambda>i diff. diff OR (buf_data computed ! i XOR buf_data h ! i)) [0..<buf_size computed] 0 = 0
                  else False
      | _ \<Rightarrow> False)"

definition block_create_by_type ::
  "(bytes \<Rightarrow> bytes) \<Rightarrow> (nat \<Rightarrow> bytes option) \<Rightarrow> buffer_t \<Rightarrow> block_size_e \<Rightarrow> block_t option option" where
  "block_create_by_type blake frand data type =
     (let n = block_size_bytes type in
      if n < buf_size data then Some None
      else if buf_size data < n
      then (case frand (n - buf_size data) of
              None \<Rightarrow> None
            | Some r \<Rightarrow>
                let final = buffer_concat data (buffer_create_from_existing_memory r (n - buf_size data))
                in Some (Some \<lparr>block_data = final, block_hash = hash_data blake final\<rparr>))
      else Some (Some \<lparr>block_data = data, block_hash = hash_data blake data\<rparr>))"

definition block_create ::
  "(bytes \<Rightarrow> bytes) \<Rightarrow> (nat \<Rightarrow> bytes option) \<Rightarrow> buffer_t \<Rightarrow> block_t option option" where
  "block_create blake frand data = block_create_by_type blake frand data standard"

definition block_create_random_block_by_type ::
  "(bytes \<Rightarrow> bytes) \<Rightarrow> (nat \<Rightarrow> bytes option) \<Rightarrow> block_size_e \<Rightarrow> block_t option" where
  "block_create_random_block_by_type blake frand type =
     (case frand (block_size_bytes type) of
        None \<Rightarrow> None
      | Some r \<Rightarrow> let b = buffer_create_from_existing_memory r (block_size_bytes type)
                 in Some \<lparr>block_data = b, block_hash = hash_data blake b\<rparr>)"

definition is_block_size :: "nat \<Rightarrow> bool" where
  "is_block_size n \<longleftrightarrow> n = block_size_bytes standard \<or> n = block_size_bytes mega \<or>
     n = block_size_bytes nano \<or> n = block_size_bytes mini"

definition block_create_existing_data_by_type :: "(bytes \<Rightarrow> bytes) \<Rightarrow> buffer_t \<Rightarrow> block_t option" where
  "block_create_existing_data_by_type blake data =
     (if \<not> is_block_size (buf_size data) then None
      else Some \<lparr>block_data = data, block_hash = hash_data blake data\<rparr>)"

definition block_create_existing_data_hash_by_type :: "buffer_t \<Rightarrow> buffer_t \<Rightarrow> block_t option" where
  "block_create_existing_data_hash_by_type data h =
     (if \<not> is_block_size (buf_size data) then None
      else if buf_size h \<noteq> BLAKE3_OUT_LEN then None
      else Some \<lparr>block_data = data, block_hash = h\<rparr>)"

definition block_xor :: "(bytes \<Rightarrow> bytes) \<Rightarrow> block_t \<Rightarrow> block_t \<Rightarrow> block_t option" where
  "block_xor blake b1 b2 = block_create_existing_data_by_type blake (buffer_xor (block_data b1) (block_data b2))"

definition block_to_cbor :: "('i, 'm) cbor_api_scheme \<Rightarrow> block_t \<Rightarrow> 'i option" where
  "block_to_cbor C b = cbor_build_array C 2 [buffer_to_cbor C (block_hash b), buffer_to_cbor C (block_data b)]"

definition cbor_to_block :: "('i, 'm) cbor_api_scheme \<Rightarrow> (nat \<Rightarrow> u8) \<Rightarrow> 'i \<Rightarrow> block_t option" where
  "cbor_to_block C junk c =
     (let h = cbor_to_buffer C junk (cbor_array_get C c 0);
          data = cbor_to_buffer C junk (cbor_array_get C c 1)
      in block_create_existing_data_hash_by_type data h)"

section \<open>Invariant and contents\<close>

definition block_wf :: "(bytes \<Rightarrow> bytes) \<Rightarrow> block_t \<Rightarrow> bool" where
  "block_wf blake b \<longleftrightarrow> buffer_wf (block_data b) \<and> buffer_wf (block_hash b) \<and> is_block_size (buf_size (block_data b)) \<and>
     buffer_bytes (block_hash b) = blake (buffer_bytes (block_data b))"

lemma is_block_size_type [simp]: "is_block_size (block_size_bytes t)"
  by (cases t) (simp_all add: is_block_size_def)

lemma hash_data_bytes:
  assumes "\<And>x. length (blake x) = BLAKE3_OUT_LEN"
  shows "buffer_wf (hash_data blake d)" and "buffer_bytes (hash_data blake d) = blake (buffer_bytes d)"
    and "buf_size (hash_data blake d) = BLAKE3_OUT_LEN"
  using assms by (simp_all add: hash_data_def buffer_wf_def buffer_create_from_existing_memory_def buffer_bytes_def)

lemma or_zero_iff: "x OR y = (0 :: u8) \<longleftrightarrow> x = 0 \<and> y = 0"
  by (auto simp: bit_eq_iff bit_or_iff)

lemma or_fold_zero:
  "fold (\<lambda>i diff. diff OR g i) is acc = (0 :: u8) \<longleftrightarrow> acc = 0 \<and> (\<forall>i \<in> set is. g i = 0)"
  by (induction "is" arbitrary: acc) (auto simp: or_zero_iff)

lemma xor_zero_iff: "x XOR y = (0 :: u8) \<longleftrightarrow> x = y"
  by (metis xor.left_neutral xor.assoc xor_self_eq xor.commute)

lemma block_verify_hash_eq:
  assumes "\<And>x. length (blake x) = BLAKE3_OUT_LEN" and "buffer_wf h"
  shows "block_verify_hash blake (Some d) (Some h) \<longleftrightarrow> buffer_bytes h = blake (buffer_bytes d)"
proof (cases "buf_size h = BLAKE3_OUT_LEN")
  case True
  let ?c = "hash_data blake d"
  have c: "buf_data ?c = blake (buffer_bytes d)" "buf_size ?c = BLAKE3_OUT_LEN"
    by (simp_all add: hash_data_def buffer_create_from_existing_memory_def buffer_bytes_def)
  have "block_verify_hash blake (Some d) (Some h) \<longleftrightarrow>
      (\<forall>i < BLAKE3_OUT_LEN. blake (buffer_bytes d) ! i = buf_data h ! i)"
    using True c by (simp add: block_verify_hash_def or_fold_zero xor_zero_iff Let_def Ball_def)
  also have "\<dots> \<longleftrightarrow> blake (buffer_bytes d) = buffer_bytes h"
    using True assms by (auto simp: list_eq_iff_nth_eq buffer_bytes_def buffer_wf_def)
  finally show ?thesis by auto
next
  case False
  then have "buffer_bytes h \<noteq> blake (buffer_bytes d)"
    using assms by (metis length_buffer_bytes)
  then show ?thesis using False by (simp add: block_verify_hash_def)
qed

section \<open>Properties\<close>

text \<open>C24. A block made from up to a block's worth of bytes has exactly the size of its type, starts with
  the given bytes, and carries the digest of its data, which \<open>block_verify_hash\<close> accepts.\<close>

theorem block_create_verifies:
  assumes "\<And>x. length (blake x) = BLAKE3_OUT_LEN" and "\<And>n r. frand n = Some r \<Longrightarrow> length r = n"
    and "buffer_wf data" and "block_create_by_type blake frand data t = Some (Some b)"
  shows "block_wf blake b \<and> buf_size (block_data b) = block_size_bytes t \<and>
    take (buf_size data) (buffer_bytes (block_data b)) = buffer_bytes data \<and>
    block_verify_hash blake (Some (block_data b)) (Some (block_hash b))"
proof -
  define d where "d = block_data b"
  have le: "buf_size data \<le> block_size_bytes t" and h: "block_hash b = hash_data blake d"
    using assms(4) by (auto simp: d_def block_create_by_type_def Let_def split: if_splits option.splits)
  have "buffer_wf d \<and> buf_size d = block_size_bytes t \<and> take (buf_size data) (buffer_bytes d) = buffer_bytes data"
  proof (cases "buf_size data < block_size_bytes t")
    case True
    then obtain r where r: "frand (block_size_bytes t - buf_size data) = Some r"
        and d: "d = buffer_concat data (buffer_create_from_existing_memory r (block_size_bytes t - buf_size data))"
      using assms(4) by (auto simp: d_def block_create_by_type_def Let_def split: if_splits option.splits)
    have wf: "buffer_wf (buffer_create_from_existing_memory r (block_size_bytes t - buf_size data))"
      using assms(2) [OF r] by (simp add: buffer_wf_def buffer_create_from_existing_memory_def)
    show ?thesis
      using buffer_concat_bytes [OF assms(3) wf] True assms(2) [OF r] assms(3)
      by (auto simp: d buffer_create_from_existing_memory_def buffer_concat_def buffer_create_def Let_def memcpy_at_def
          buffer_wf_def)
  next
    case False
    then show ?thesis
      using assms(3,4) le by (auto simp: d_def block_create_by_type_def Let_def buffer_bytes_def)
  qed
  then show ?thesis
    using hash_data_bytes [where blake = blake and d = d, OF assms(1)] block_verify_hash_eq [where blake = blake and h = "block_hash b" and d = d, OF assms(1)]
    by (simp add: block_wf_def h d_def [symmetric])
qed

theorem block_create_verifies_witness:
  "\<exists>b. block_create_by_type (\<lambda>x. take 32 (x @ replicate 32 0)) (\<lambda>n. Some (replicate n 7)) (buffer_create 100) nano =
     Some (Some b) \<and>
   block_verify_hash (\<lambda>x. take 32 (x @ replicate 32 0)) (Some (block_data b)) (Some (block_hash b))"
proof -
  have "\<exists>b. block_create_by_type (\<lambda>x. take 32 (x @ replicate 32 0)) (\<lambda>n. Some (replicate n 7)) (buffer_create 100) nano =
      Some (Some b)"
    by (simp add: block_create_by_type_def buffer_create_def Let_def)
  then show ?thesis
    using block_create_verifies [of "\<lambda>x. take 32 (x @ replicate 32 0)" "\<lambda>n. Some (replicate n 7)" "buffer_create 100" nano]
    by (auto simp: BLAKE3_OUT_LEN_def)
qed

text \<open>C25. Combining two blocks of one size and combining the result with the second again gives the
  first block back, data and address: the step a reader of a tuple performs.\<close>

theorem block_xor_recovers:
  assumes "\<And>x. length (blake x) = BLAKE3_OUT_LEN" and "block_wf blake a" and "block_wf blake b"
    and "buf_size (block_data a) = buf_size (block_data b)"
  shows "\<exists>c d. block_xor blake a b = Some c \<and> block_xor blake c b = Some d \<and> block_wf blake c \<and>
    buffer_bytes (block_data d) = buffer_bytes (block_data a) \<and> buffer_bytes (block_hash d) = buffer_bytes (block_hash a)"
proof -
  have wf: "buffer_wf (block_data a)" "buffer_wf (block_data b)" and size: "is_block_size (buf_size (block_data a))"
    using assms(2,3) by (simp_all add: block_wf_def)
  let ?x = "buffer_xor (block_data a) (block_data b)"
  let ?y = "buffer_xor ?x (block_data b)"
  let ?c = "\<lparr>block_data = ?x, block_hash = hash_data blake ?x\<rparr>"
  let ?d = "\<lparr>block_data = ?y, block_hash = hash_data blake ?y\<rparr>"
  have "block_xor blake a b = Some ?c" and "block_xor blake ?c b = Some ?d"
    using size assms(4) by (simp_all add: block_xor_def block_create_existing_data_by_type_def)
  moreover have "buffer_bytes ?y = buffer_bytes (block_data a)"
    by (rule byte_at_ext) (use wf assms(4) in \<open>simp_all add: byte_at_xor buffer_xor_wf xor.assoc\<close>)
  moreover have "block_wf blake ?c"
    using wf size assms(4) hash_data_bytes [where blake = blake, OF assms(1)] by (simp add: block_wf_def buffer_xor_wf)
  moreover have "buffer_bytes (hash_data blake ?y) = buffer_bytes (block_hash a)"
    using calculation(3) hash_data_bytes(2) [where blake = blake, OF assms(1)] assms(2) by (simp add: block_wf_def)
  ultimately show ?thesis by auto
qed

theorem block_xor_recovers_witness:
  "\<exists>c d. block_xor (\<lambda>x. take 32 (x @ replicate 32 0))
      \<lparr>block_data = buffer_not (buffer_create 136), block_hash = hash_data (\<lambda>x. take 32 (x @ replicate 32 0)) (buffer_not (buffer_create 136))\<rparr>
      \<lparr>block_data = buffer_create 136, block_hash = hash_data (\<lambda>x. take 32 (x @ replicate 32 0)) (buffer_create 136)\<rparr> = Some c \<and>
    block_xor (\<lambda>x. take 32 (x @ replicate 32 0)) c
      \<lparr>block_data = buffer_create 136, block_hash = hash_data (\<lambda>x. take 32 (x @ replicate 32 0)) (buffer_create 136)\<rparr> = Some d \<and>
    buffer_bytes (block_data d) = buffer_bytes (buffer_not (buffer_create 136))"
proof -
  let ?h = "\<lambda>x :: bytes. take 32 (x @ replicate 32 0)"
  have len: "length (?h x) = BLAKE3_OUT_LEN" for x by (simp add: BLAKE3_OUT_LEN_def)
  have not: "buffer_wf (buffer_not (buffer_create 136))" "buf_size (buffer_not (buffer_create 136)) = 136"
    by (simp_all add: buffer_not_def buffer_create_def buffer_wf_def Let_def del: upt_Suc)
  have wf: "block_wf ?h \<lparr>block_data = d, block_hash = hash_data ?h d\<rparr>" if "buffer_wf d" and "buf_size d = 136" for d
    using hash_data_bytes [where blake = ?h and d = d, OF len] that by (simp add: block_wf_def is_block_size_def)
  have "buf_size (buffer_create 136) = 136" by (simp add: buffer_create_def)
  with block_xor_recovers [where blake = ?h, OF len wf [OF not] wf [OF buffer_create_wf]] not show ?thesis
    by fastforce
qed

text \<open>C36. A block survives its CBOR form: serialized, loaded and decoded it has the same data and the same
  hash.\<close>

theorem block_cbor_roundtrip:
  assumes "libcbor C cv" and "buffer_wf (block_data b)" and "buffer_wf (block_hash b)"
    and "is_block_size (buf_size (block_data b))" and "buf_size (block_hash b) = BLAKE3_OUT_LEN"
  shows "\<exists>i j b'. block_to_cbor C b = Some i \<and> cbor_load C (cbor_serialize C i) = Some j \<and>
    cbor_to_block C junk j = Some b' \<and> buffer_bytes (block_data b') = buffer_bytes (block_data b) \<and>
    buffer_bytes (block_hash b') = buffer_bytes (block_hash b)"
proof -
  note L = libcbor.build_array [OF assms(1)] libcbor.load_serialize [OF assms(1)]
  note obs = libcbor.observe [OF assms(1)] libcbor.cv_build [OF assms(1)]
  let ?h = "buffer_bytes (block_hash b)" and ?d = "buffer_bytes (block_data b)"
  have cv: "cv (buffer_to_cbor C (block_hash b)) = CBytes ?h" "cv (buffer_to_cbor C (block_data b)) = CBytes ?d"
    by (simp_all add: buffer_to_cbor_def buffer_bytes_def obs)
  obtain i where i: "block_to_cbor C b = Some i" "cv i = CArray [CBytes ?h, CBytes ?d]"
    using L(1) [of "[buffer_to_cbor C (block_hash b), buffer_to_cbor C (block_data b)]" 2] cv
    by (auto simp: block_to_cbor_def)
  have small: "length ?h < 2 ^ 64" "length ?d < 2 ^ 64"
    using assms(2-5) by (auto simp: BLAKE3_OUT_LEN_def is_block_size_def)
  then obtain j where j: "cbor_load C (cbor_serialize C i) = Some j" "cv j = CArray [CBytes ?h, CBytes ?d]"
    using L(2) [of i] i(2) by auto
  have items: "cv (cbor_array_get C j 0) = CBytes ?h" "cv (cbor_array_get C j 1) = CBytes ?d"
    using obs j(2) by simp_all
  let ?hb = "cbor_to_buffer C junk (cbor_array_get C j 0)" and ?db = "cbor_to_buffer C junk (cbor_array_get C j 1)"
  have "buffer_bytes ?hb = ?h" "buffer_bytes ?db = ?d"
    using items by (simp_all add: cbor_to_buffer_def obs bytes_create_from_pointer_copy)
  moreover have "buf_size ?hb = BLAKE3_OUT_LEN" "buf_size ?db = buf_size (block_data b)"
    using items assms(2,3,5)
    by (simp_all add: cbor_to_buffer_def obs buffer_create_from_pointer_copy_def buffer_copy_from_pointer_def Let_def)
  ultimately show ?thesis
    using i(1) j(1) assms(4) by (simp add: cbor_to_block_def block_create_existing_data_hash_by_type_def)
qed

theorem block_cbor_roundtrip_witness:
  "\<exists>i j b'. block_to_cbor rfc8949_api \<lparr>block_data = buffer_create 136, block_hash = buffer_create 32\<rparr> = Some i \<and>
     cbor_load rfc8949_api (cbor_serialize rfc8949_api i) = Some j \<and> cbor_to_block rfc8949_api (\<lambda>_. 0) j = Some b' \<and>
     buffer_bytes (block_data b') = replicate 136 0 \<and> buffer_bytes (block_hash b') = replicate 32 0"
  using block_cbor_roundtrip [OF rfc8949.libcbor_axioms,
      of "\<lparr>block_data = buffer_create 136, block_hash = buffer_create 32\<rparr>" "\<lambda>_. 0"]
  by (simp add: is_block_size_def BLAKE3_OUT_LEN_def buffer_bytes_def) (simp add: buffer_create_def)

end
