(* ===== verification/Free_Map.thy ===== *)
theory Free_Map
  imports Prelude
begin

text \<open>
  The free-slot bitmap of a section (\<open>free_map_*\<close> in \<open>src/src/BlockCache/section.c\<close>): a set bit is a
  free slot. The compiler builtins \<open>ffs\<close>, \<open>clz\<close> and \<open>popcount\<close> are written out over the 32 bits of a
  word. The lemmas relate every operation to the set of free slots.
\<close>

unbundle bit_operations_syntax

record free_map_t =
  fm_map :: "u32 list"
  total_blocks :: nat

abbreviation map_capacity :: "free_map_t \<Rightarrow> nat" where
  "map_capacity fm \<equiv> length (fm_map fm)"

section \<open>Operations\<close>

definition ffs :: "u32 \<Rightarrow> nat" where
  "ffs w = (case find (bit w) [0..<32] of None \<Rightarrow> 0 | Some i \<Rightarrow> i + 1)"

definition clz :: "u32 \<Rightarrow> nat" where
  "clz w = (case find (bit w) (rev [0..<32]) of None \<Rightarrow> 32 | Some i \<Rightarrow> 31 - i)"

definition popcount :: "u32 \<Rightarrow> nat" where
  "popcount w = length (filter (bit w) [0..<32])"

definition set_free_bit :: "u32 list \<Rightarrow> nat \<Rightarrow> u32 list" where
  "set_free_bit m i = (let word = i div 32; b = i mod 32 in m[word := m ! word OR push_bit b 1])"

definition set_free_range :: "nat \<Rightarrow> nat \<Rightarrow> u32 list \<Rightarrow> u32 list" where
  "set_free_range a b m = fold (\<lambda>i m. set_free_bit m i) [a..<b] m"

definition free_map_init :: "nat \<Rightarrow> free_map_t" where
  "free_map_init n = \<lparr>fm_map = set_free_range 0 n (replicate ((n + 31) div 32) 0), total_blocks = n\<rparr>"

definition free_map_alloc :: "free_map_t \<Rightarrow> (nat \<times> free_map_t) option" where
  "free_map_alloc fm =
     (case find (\<lambda>word. fm_map fm ! word \<noteq> 0) [0..<map_capacity fm] of
        None \<Rightarrow> None
      | Some word \<Rightarrow>
          let b = ffs (fm_map fm ! word) - 1 in
          Some (word * 32 + b,
            fm\<lparr>fm_map := (fm_map fm)[word := fm_map fm ! word AND NOT (push_bit b 1)]\<rparr>))"

definition free_map_dealloc :: "free_map_t \<Rightarrow> nat \<Rightarrow> int \<times> free_map_t" where
  "free_map_dealloc fm i =
     (if total_blocks fm \<le> i then (1, fm)
      else let word = i div 32; mask = push_bit (i mod 32) 1 in
        if fm_map fm ! word AND mask \<noteq> 0 then (1, fm)
        else (0, fm\<lparr>fm_map := (fm_map fm)[word := fm_map fm ! word OR mask]\<rparr>))"

definition free_map_is_full :: "free_map_t \<Rightarrow> bool" where
  "free_map_is_full fm \<longleftrightarrow> find (\<lambda>word. fm_map fm ! word \<noteq> 0) [0..<map_capacity fm] = None"

definition free_map_count_free :: "free_map_t \<Rightarrow> nat" where
  "free_map_count_free fm = fold (\<lambda>w count. count + popcount w) (fm_map fm) 0"

definition occupied_bits :: "free_map_t \<Rightarrow> nat \<Rightarrow> u32" where
  "occupied_bits fm w =
     (let bits_in_word = (if w = map_capacity fm - 1 \<and> total_blocks fm mod 32 \<noteq> 0
                          then total_blocks fm mod 32 else 32);
          valid_mask = (if bits_in_word = 32 then 0xFFFFFFFF else push_bit bits_in_word 1 - 1)
      in NOT (fm_map fm ! w) AND valid_mask)"

definition free_map_highest_used :: "free_map_t \<Rightarrow> nat" where
  "free_map_highest_used fm =
     (case find (\<lambda>w. occupied_bits fm w \<noteq> 0) (rev [0..<map_capacity fm]) of
        None \<Rightarrow> total_blocks fm
      | Some w \<Rightarrow> w * 32 + (31 - clz (occupied_bits fm w)))"

text \<open>The relocation array: \<open>None\<close> is \<open>(size_t)-1\<close>. The loop carries \<open>write_pos\<close>.\<close>

type_synonym relocation = "nat option list"

definition free_map_defragment :: "free_map_t \<Rightarrow> relocation \<times> nat \<times> free_map_t" where
  "free_map_defragment fm =
     (case fold (\<lambda>i (reloc, write_pos).
          if bit (fm_map fm ! (i div 32)) (i mod 32) then (reloc, write_pos)
          else (reloc[i := Some write_pos], write_pos + 1))
        [0..<total_blocks fm] (replicate (total_blocks fm) None, 0) of
      (reloc, write_pos) \<Rightarrow>
        (reloc, write_pos,
         fm\<lparr>fm_map := set_free_range write_pos (total_blocks fm) (replicate (map_capacity fm) 0)\<rparr>))"

text \<open>The words are copied in the byte order of the host, little-endian here.\<close>

definition free_map_serialize :: "free_map_t \<Rightarrow> bytes" where
  "free_map_serialize fm =
     le_bytes 4 (total_blocks fm) @ concat (map (\<lambda>w. le_bytes 4 (unat w)) (fm_map fm))"

definition read_words :: "nat \<Rightarrow> bytes \<Rightarrow> u32 list" where
  "read_words n buf = map (\<lambda>i. of_nat (le_nat (take 4 (drop (4 * i) buf)))) [0..<n]"

definition free_map_deserialize :: "bytes \<Rightarrow> free_map_t option" where
  "free_map_deserialize buf =
     (if length buf < 4 then None
      else let total = le_nat (take 4 buf); cap = (total + 31) div 32 in
        if length buf < 4 + cap * 4 then None
        else Some \<lparr>fm_map = read_words cap (drop 4 buf), total_blocks = total\<rparr>)"

section \<open>The set of free slots\<close>

definition slot_free :: "free_map_t \<Rightarrow> nat \<Rightarrow> bool" where
  "slot_free fm i \<longleftrightarrow> bit (fm_map fm ! (i div 32)) (i mod 32)"

definition free_slots :: "free_map_t \<Rightarrow> nat set" where
  "free_slots fm = {i. i < 32 * map_capacity fm \<and> slot_free fm i}"

text \<open>The bits past the last slot are clear.\<close>

definition free_map_wf :: "free_map_t \<Rightarrow> bool" where
  "free_map_wf fm \<longleftrightarrow> map_capacity fm = (total_blocks fm + 31) div 32 \<and>
     free_slots fm \<subseteq> {0..<total_blocks fm}"

definition used_slots :: "free_map_t \<Rightarrow> nat set" where
  "used_slots fm = {0..<total_blocks fm} - free_slots fm"

lemma free_slots_finite [simp]: "finite (free_slots fm)"
  by (simp add: free_slots_def)

lemma used_slots_finite [simp]: "finite (used_slots fm)"
  by (simp add: used_slots_def)

lemma capacity_covers: "(n + 31) div 32 * 32 \<ge> (n :: nat)"
  by presburger

lemma free_map_wfD:
  assumes "free_map_wf fm"
  shows "total_blocks fm \<le> 32 * map_capacity fm"
    and "i \<in> free_slots fm \<Longrightarrow> i < total_blocks fm"
    and "i < total_blocks fm \<Longrightarrow> i div 32 < map_capacity fm"
proof -
  show le: "total_blocks fm \<le> 32 * map_capacity fm"
    using assms capacity_covers [of "total_blocks fm"] by (simp add: free_map_wf_def mult.commute)
  show "i \<in> free_slots fm \<Longrightarrow> i < total_blocks fm"
    using assms by (auto simp: free_map_wf_def)
  show "i < total_blocks fm \<Longrightarrow> i div 32 < map_capacity fm"
    using le by (simp add: less_mult_imp_div_less mult.commute)
qed

lemma free_slots_iff:
  assumes "free_map_wf fm" and "i < total_blocks fm"
  shows "i \<in> free_slots fm \<longleftrightarrow> slot_free fm i"
  using assms free_map_wfD [OF assms(1)] by (auto simp: free_slots_def)

lemma used_slots_iff:
  assumes "free_map_wf fm"
  shows "i \<in> used_slots fm \<longleftrightarrow> i < total_blocks fm \<and> \<not> slot_free fm i"
  using free_slots_iff [OF assms] by (auto simp: used_slots_def)

lemma length_set_free_bit [simp]: "length (set_free_bit m i) = length m"
  by (simp add: set_free_bit_def Let_def)

lemma length_set_free_range [simp]: "length (set_free_range a b m) = length m"
proof -
  have "length (fold (\<lambda>i m. set_free_bit m i) js m) = length m" for js
    by (induction js arbitrary: m) auto
  then show ?thesis by (simp add: set_free_range_def)
qed

lemma nat_eq_div_mod_iff: "i = j \<longleftrightarrow> i div 32 = j div 32 \<and> i mod 32 = (j mod 32 :: nat)"
  by (metis div_mult_mod_eq)

lemma slot_order:
  fixes i j :: nat
  assumes "i < j"
  shows "i div 32 < j div 32 \<or> (i div 32 = j div 32 \<and> i mod 32 < j mod 32)"
  using assms div_le_mono [of i j 32] div_mult_mod_eq [of i 32] div_mult_mod_eq [of j 32] by linarith

lemma bit_pow: "bit (2 ^ b :: u32) n \<longleftrightarrow> n = b \<and> b < 32"
  by (auto simp: bit_exp_iff)

lemma bit_set_free_bit:
  assumes "i div 32 < length m" and "j div 32 < length m"
  shows "bit (set_free_bit m i ! (j div 32)) (j mod 32) \<longleftrightarrow> j = i \<or> bit (m ! (j div 32)) (j mod 32)"
  using assms nat_eq_div_mod_iff [of j i]
  by (auto simp: set_free_bit_def Let_def nth_list_update bit_or_iff bit_pow)

lemma bit_set_free_range:
  assumes "b \<le> 32 * length m" and "j div 32 < length m"
  shows "bit (set_free_range a b m ! (j div 32)) (j mod 32) \<longleftrightarrow>
    (a \<le> j \<and> j < b) \<or> bit (m ! (j div 32)) (j mod 32)"
proof -
  have "bit (fold (\<lambda>i m. set_free_bit m i) js m ! (j div 32)) (j mod 32) \<longleftrightarrow>
      j \<in> set js \<or> bit (m ! (j div 32)) (j mod 32)"
    if "\<forall>i \<in> set js. i div 32 < length m" and "j div 32 < length m" for js
    using that by (induction js arbitrary: m) (auto simp: bit_set_free_bit)
  from this [of "[a..<b]"] show ?thesis
    using assms by (auto simp: set_free_range_def less_mult_imp_div_less mult.commute)
qed

lemma free_slots_range:
  assumes "cap = (n + 31) div 32"
  shows "free_slots \<lparr>fm_map = set_free_range a n (replicate cap 0), total_blocks = k\<rparr> = {a..<n}"
proof -
  have n: "n \<le> 32 * cap"
    using assms capacity_covers [of n] by (simp add: mult.commute)
  then show ?thesis
    by (auto simp: free_slots_def slot_free_def bit_set_free_range less_mult_imp_div_less mult.commute)
qed

lemma free_map_init_free [simp]: "free_slots (free_map_init n) = {0..<n}"
  by (simp add: free_map_init_def free_slots_range)

lemma free_map_init_wf [offs_wf]: "free_map_wf (free_map_init n)"
  by (simp add: free_map_wf_def) (simp add: free_map_init_def)

lemma u32_zero_iff: "w = (0 :: u32) \<longleftrightarrow> (\<forall>n<32. \<not> bit w n)"
  by (auto intro!: bit_word_eqI)

lemma find_upt_first:
  assumes "P k" and "k < n"
  obtains b where "find P [0..<n] = Some b" and "b < n" and "P b" and "\<And>j. j < b \<Longrightarrow> \<not> P j"
proof -
  obtain b where b: "find P [0..<n] = Some b"
    using assms by (cases "find P [0..<n]") (auto simp: find_None_iff_all)
  then have "b < n" and "P b" and "\<And>j. j < b \<Longrightarrow> \<not> P j" by (auto simp: find_Some_iff)
  with b show ?thesis by (rule that)
qed

lemma find_upt_last:
  assumes "P k" and "k < n"
  obtains b where "find P (rev [0..<n]) = Some b" and "b < n" and "P b"
    and "\<And>j. b < j \<Longrightarrow> j < n \<Longrightarrow> \<not> P j"
proof -
  obtain b where b: "find P (rev [0..<n]) = Some b"
    using assms by (cases "find P (rev [0..<n])") (auto simp: find_None_iff_all)
  then obtain i where i: "i < n" "P (n - Suc i)" "b = n - Suc i" "\<And>j. j < i \<Longrightarrow> \<not> P (n - Suc j)"
    by (auto simp: find_Some_iff rev_nth)
  have "\<not> P j" if "b < j" and "j < n" for j
    using that i(1,3) i(4) [of "n - Suc j"] by (simp add: Suc_diff_Suc)
  then show ?thesis using that b i by simp
qed

lemma ffs_nonzero:
  assumes "w \<noteq> 0"
  obtains b where "ffs w = b + 1" and "b < 32" and "bit w b" and "\<And>j. j < b \<Longrightarrow> \<not> bit w j"
proof -
  obtain k where k: "bit w k" "k < 32" using assms u32_zero_iff by blast
  show ?thesis
    by (rule find_upt_first [of "bit w", OF k]) (rule that, simp_all only: ffs_def option.case)
qed

lemma clz_nonzero:
  assumes "w \<noteq> 0"
  obtains b where "31 - clz w = b" and "b < 32" and "bit w b" and "\<And>j. b < j \<Longrightarrow> j < 32 \<Longrightarrow> \<not> bit w j"
proof -
  obtain k where k: "bit w k" "k < 32" using assms u32_zero_iff by blast
  obtain b where b: "find (bit w) (rev [0..<32]) = Some b" "b < 32" "bit w b"
      "\<And>j. b < j \<Longrightarrow> j < 32 \<Longrightarrow> \<not> bit w j"
    using find_upt_last [of "bit w", OF k] by blast
  have "31 - clz w = b" using b(2) by (simp only: clz_def b(1) option.case)
  then show ?thesis using b that by blast
qed

text \<open>A well-formed map is determined by its free slots.\<close>

lemma free_map_eqI:
  assumes "free_map_wf (a :: free_map_t)" and "free_map_wf b" and "total_blocks a = total_blocks b"
    and "free_slots a = free_slots b"
  shows "a = b"
proof -
  have len: "map_capacity a = map_capacity b"
    using assms by (simp add: free_map_wf_def)
  have "fm_map a ! w = fm_map b ! w" if "w < map_capacity a" for w
  proof (rule bit_word_eqI)
    fix n assume "n < LENGTH(32)"
    then have "w * 32 + n \<in> free_slots a \<longleftrightarrow> bit (fm_map a ! w) n"
        and "w * 32 + n \<in> free_slots b \<longleftrightarrow> bit (fm_map b ! w) n"
      using that len by (auto simp: free_slots_def slot_free_def)
    then show "bit (fm_map a ! w) n \<longleftrightarrow> bit (fm_map b ! w) n"
      using assms(4) by simp
  qed
  then have "fm_map a = fm_map b"
    using len by (simp add: nth_equalityI)
  then show ?thesis using assms(3) by simp
qed

lemma word_find_none:
  "find (\<lambda>w. fm_map fm ! w \<noteq> 0) [0..<map_capacity fm] = None \<longleftrightarrow> free_slots fm = {}"
proof -
  have "(\<forall>w<map_capacity fm. fm_map fm ! w = 0) \<longleftrightarrow> free_slots fm = {}"
  proof
    assume "\<forall>w<map_capacity fm. fm_map fm ! w = 0"
    then show "free_slots fm = {}"
      by (auto simp: free_slots_def slot_free_def less_mult_imp_div_less mult.commute)
  next
    assume *: "free_slots fm = {}"
    show "\<forall>w<map_capacity fm. fm_map fm ! w = 0"
    proof (intro allI impI)
      fix w assume "w < map_capacity fm"
      then have "\<not> bit (fm_map fm ! w) n" if "n < 32" for n
        using * that by (auto simp: free_slots_def slot_free_def dest!: spec [of _ "w * 32 + n"])
      then show "fm_map fm ! w = 0" by (simp add: u32_zero_iff)
    qed
  qed
  then show ?thesis by (auto simp: find_None_iff_all)
qed

lemma free_map_is_full_iff: "free_map_is_full fm \<longleftrightarrow> free_slots fm = {}"
  by (simp add: free_map_is_full_def word_find_none)

lemma free_map_alloc_None: "free_map_alloc fm = None \<longleftrightarrow> free_slots fm = {}"
  using word_find_none [of fm] by (auto simp: free_map_alloc_def Let_def split: option.splits)

lemma free_map_alloc_Some:
  assumes "free_map_alloc fm = Some (i, fm')" and "free_map_wf fm"
  shows "i = Min (free_slots fm)" and "i \<in> free_slots fm" and "free_slots fm' = free_slots fm - {i}"
    and "total_blocks fm' = total_blocks fm" and "free_map_wf fm'"
proof -
  obtain w where w: "w < map_capacity fm" "fm_map fm ! w \<noteq> 0" "\<And>v. v < w \<Longrightarrow> fm_map fm ! v = 0"
      and i: "i = w * 32 + (ffs (fm_map fm ! w) - 1)"
      and fm': "fm' = fm\<lparr>fm_map := (fm_map fm)[w :=
        fm_map fm ! w AND NOT (push_bit (ffs (fm_map fm ! w) - 1) 1)]\<rparr>"
    using assms(1) by (auto simp: free_map_alloc_def Let_def find_Some_iff split: option.splits)
  obtain b where b: "ffs (fm_map fm ! w) = b + 1" "b < 32" "bit (fm_map fm ! w) b"
      "\<And>j. j < b \<Longrightarrow> \<not> bit (fm_map fm ! w) j"
    using ffs_nonzero [OF w(2)] by blast
  have i_eq: "i = w * 32 + b" and div: "i div 32 = w" and mod: "i mod 32 = b"
    using i b by auto
  show mem: "i \<in> free_slots fm"
    using w(1) b div mod by (simp add: free_slots_def slot_free_def i_eq)
  have least: "i \<le> j" if "j \<in> free_slots fm" for j
  proof (rule ccontr)
    assume "\<not> i \<le> j"
    then have "j div 32 < w \<or> (j div 32 = w \<and> j mod 32 < b)"
      using slot_order [of j i] div mod by simp
    then show False
      using that w(3) b(4) by (auto simp: free_slots_def slot_free_def)
  qed
  show "i = Min (free_slots fm)"
    using mem least by (simp add: Min_eqI [symmetric])
  have "slot_free fm' j \<longleftrightarrow> slot_free fm j \<and> j \<noteq> i" if "j div 32 < map_capacity fm" for j
    using that w(1) b nat_eq_div_mod_iff [of j i] div mod
    by (auto simp: slot_free_def fm' nth_list_update bit_and_iff bit_not_iff bit_pow)
  then show slots: "free_slots fm' = free_slots fm - {i}"
    by (auto simp: free_slots_def fm' less_mult_imp_div_less mult.commute)
  show tot: "total_blocks fm' = total_blocks fm" by (simp add: fm')
  show "free_map_wf fm'"
    using assms(2) slots by (auto simp: free_map_wf_def fm')
qed

lemma free_map_dealloc_spec:
  assumes "free_map_wf fm"
  shows "i \<in> used_slots fm \<Longrightarrow> \<exists>fm'. free_map_dealloc fm i = (0, fm') \<and>
      free_slots fm' = insert i (free_slots fm) \<and> total_blocks fm' = total_blocks fm \<and> free_map_wf fm'"
    and "i \<notin> used_slots fm \<Longrightarrow> free_map_dealloc fm i = (1, fm)"
proof -
  have mask: "(fm_map fm ! (i div 32) AND 2 ^ (i mod 32)) \<noteq> 0 \<longleftrightarrow> slot_free fm i"
    by (auto simp: u32_zero_iff slot_free_def bit_and_iff bit_pow)
  show "free_map_dealloc fm i = (1, fm)" if "i \<notin> used_slots fm"
    using that used_slots_iff [OF assms] mask by (auto simp: free_map_dealloc_def)
  assume "i \<in> used_slots fm"
  then have i: "i < total_blocks fm" "\<not> slot_free fm i"
    using used_slots_iff [OF assms] by auto
  let ?fm' = "fm\<lparr>fm_map := set_free_bit (fm_map fm) i\<rparr>"
  have eq: "free_map_dealloc fm i = (0, ?fm')"
    using i mask by (auto simp: free_map_dealloc_def set_free_bit_def Let_def)
  have cap: "i div 32 < map_capacity fm" "i < 32 * map_capacity fm"
    using free_map_wfD [OF assms] i by auto
  have slots: "free_slots ?fm' = insert i (free_slots fm)"
    using cap by (auto simp: free_slots_def slot_free_def bit_set_free_bit less_mult_imp_div_less mult.commute)
  have "free_map_wf ?fm'"
    using assms i slots by (auto simp: free_map_wf_def)
  with eq slots show "\<exists>fm'. free_map_dealloc fm i = (0, fm') \<and> free_slots fm' = insert i (free_slots fm) \<and>
      total_blocks fm' = total_blocks fm \<and> free_map_wf fm'"
    by auto
qed

lemma free_map_dealloc_alloc:
  assumes "free_map_alloc fm = Some (i, fm')" and "free_map_wf fm"
  shows "free_map_dealloc fm' i = (0, fm)"
proof -
  note a = free_map_alloc_Some [OF assms]
  have "i \<in> used_slots fm'"
    using a free_map_wfD(2) [OF assms(2)] by (auto simp: used_slots_def)
  then obtain fm2 where fm2: "free_map_dealloc fm' i = (0, fm2)" "free_slots fm2 = insert i (free_slots fm')"
      "total_blocks fm2 = total_blocks fm'" "free_map_wf fm2"
    using free_map_dealloc_spec(1) [OF a(5)] by blast
  have "fm2 = fm"
    by (rule free_map_eqI) (use fm2 a assms in auto)
  then show ?thesis using fm2 by simp
qed

lemma popcount_card: "popcount w = card {n. n < 32 \<and> bit w n}"
proof -
  have "popcount w = card (set (filter (bit w) [0..<32]))"
    using distinct_card [of "filter (bit w) [0..<32]"] by (simp only: popcount_def distinct_filter distinct_upt)
  also have "set (filter (bit w) [0..<32]) = {n. n < 32 \<and> bit w n}" by auto
  finally show ?thesis .
qed

lemma count_bits:
  "sum_list (map popcount m) = card {i. i < 32 * length m \<and> bit (m ! (i div 32)) (i mod 32)}"
proof (induction m rule: rev_induct)
  case Nil
  then show ?case by simp
next
  case (snoc w m)
  let ?A = "{i. i < 32 * length m \<and> bit (m ! (i div 32)) (i mod 32)}"
  let ?B = "(\<lambda>n. 32 * length m + n) ` {n. n < 32 \<and> bit w n}"
  have "{i. i < 32 * length (m @ [w]) \<and> bit ((m @ [w]) ! (i div 32)) (i mod 32)} = ?A \<union> ?B" (is "?C = _")
  proof (intro set_eqI iffI)
    fix i assume i: "i \<in> ?C"
    show "i \<in> ?A \<union> ?B"
    proof (cases "i < 32 * length m")
      case True
      then show ?thesis using i by (auto simp: nth_append less_mult_imp_div_less mult.commute)
    next
      case False
      then have "i = 32 * length m + (i - 32 * length m)" and "i - 32 * length m < 32"
        using i by auto
      then obtain n where "i = 32 * length m + n" and "n < 32" by blast
      then show ?thesis using i by (auto simp: nth_append)
    qed
  next
    fix i assume "i \<in> ?A \<union> ?B"
    then show "i \<in> ?C"
      by (auto simp: nth_append less_mult_imp_div_less mult.commute)
  qed
  moreover have "card (?A \<union> ?B) = card ?A + card ?B"
    by (rule card_Un_disjoint) auto
  moreover have "card ?B = popcount w"
    by (simp add: popcount_card card_image inj_on_def)
  ultimately show ?case using snoc by simp
qed

lemma free_map_count_free_card: "free_map_count_free fm = card (free_slots fm)"
proof -
  have "fold (\<lambda>w count. count + popcount w) m k = k + sum_list (map popcount m)" for m k
    by (induction m arbitrary: k) auto
  then show ?thesis
    by (simp add: free_map_count_free_def count_bits free_slots_def slot_free_def)
qed

lemma used_count:
  assumes "free_map_wf fm"
  shows "total_blocks fm - free_map_count_free fm = card (used_slots fm)"
proof -
  have "free_slots fm \<subseteq> {0..<total_blocks fm}"
    using assms by (simp add: free_map_wf_def)
  then show ?thesis
    by (simp add: free_map_count_free_card used_slots_def card_Diff_subset)
qed

lemma last_word_bits:
  fixes t :: nat
  assumes "w < (t + 31) div 32" and "n < 32"
  shows "w * 32 + n < t \<longleftrightarrow> n < (if w = (t + 31) div 32 - 1 \<and> t mod 32 \<noteq> 0 then t mod 32 else 32)"
proof -
  obtain q r where t: "t = q * 32 + r" and r: "r < 32"
    by (metis div_mult_mod_eq mod_less_divisor zero_less_numeral)
  show ?thesis
  proof (cases "r = 0")
    case True
    then show ?thesis using assms t by simp
  next
    case False
    then have "(t + 31) div 32 = q + 1"
      using t r by (intro div_nat_eqI) auto
    moreover have "t mod 32 = r" using t r by simp
    ultimately show ?thesis using assms t r False by auto
  qed
qed

lemma bit_u32_not: "n < 32 \<Longrightarrow> bit (NOT (w :: u32)) n \<longleftrightarrow> \<not> bit w n"
  by (simp add: bit_not_iff)

lemma div_slot: "n < 32 \<Longrightarrow> (w * 32 + n) div 32 = w \<and> (w * 32 + n) mod 32 = (n :: nat)"
  by simp

lemma bit_valid_mask:
  assumes "n < 32"
  shows "bit (if k = 32 then 0xFFFFFFFF else push_bit k 1 - 1 :: u32) n \<longleftrightarrow> n < k \<or> k = 32"
proof (cases "k = 32")
  case True
  then show ?thesis using assms bit_mask_iff [of 32 n, where 'a = u32] by (simp add: mask_eq_exp_minus_1)
next
  case False
  then show ?thesis using assms bit_mask_iff [of k n, where 'a = u32] by (simp add: mask_eq_exp_minus_1)
qed

lemma bit_occupied:
  assumes "free_map_wf fm" and "w < map_capacity fm" and "n < 32"
  shows "bit (occupied_bits fm w) n \<longleftrightarrow> w * 32 + n \<in> used_slots fm"
proof -
  have cap: "map_capacity fm = (total_blocks fm + 31) div 32"
    using assms by (simp add: free_map_wf_def)
  define k where "k = (if w = map_capacity fm - 1 \<and> total_blocks fm mod 32 \<noteq> 0
    then total_blocks fm mod 32 else 32)"
  have k: "w * 32 + n < total_blocks fm \<longleftrightarrow> n < k"
    using last_word_bits [of w "total_blocks fm" n] cap assms by (simp only: k_def)
  have "occupied_bits fm w = NOT (fm_map fm ! w) AND (if k = 32 then 0xFFFFFFFF else push_bit k 1 - 1)"
    by (simp only: occupied_bits_def Let_def k_def)
  then have "bit (occupied_bits fm w) n \<longleftrightarrow> \<not> bit (fm_map fm ! w) n \<and> (n < k \<or> k = 32)"
    by (simp only: bit_and_iff bit_u32_not [OF assms(3)] bit_valid_mask [OF assms(3)])
  moreover have "slot_free fm (w * 32 + n) \<longleftrightarrow> bit (fm_map fm ! w) n"
    using assms(3) by (simp add: slot_free_def)
  ultimately show ?thesis
    using k assms(3) used_slots_iff [OF assms(1)] by auto
qed

lemma free_map_highest_used_spec:
  assumes "free_map_wf fm"
  shows "free_map_highest_used fm = (if used_slots fm = {} then total_blocks fm else Max (used_slots fm))"
proof (cases "find (\<lambda>w. occupied_bits fm w \<noteq> 0) (rev [0..<map_capacity fm])")
  case None
  have "i \<notin> used_slots fm" for i
  proof
    assume i: "i \<in> used_slots fm"
    then have "i div 32 < map_capacity fm"
      using free_map_wfD(3) [OF assms] by (simp add: used_slots_def)
    moreover from this have "occupied_bits fm (i div 32) = 0"
      using None by (auto simp: find_None_iff_all)
    ultimately show False
      using bit_occupied [OF assms, of "i div 32" "i mod 32"] i by simp
  qed
  then show ?thesis using None by (auto simp: free_map_highest_used_def)
next
  case (Some w)
  then obtain k where k: "k < map_capacity fm" "w = map_capacity fm - Suc k" "occupied_bits fm w \<noteq> 0"
      "\<And>j. j < k \<Longrightarrow> occupied_bits fm (map_capacity fm - Suc j) = 0"
    by (auto simp: find_Some_iff rev_nth)
  have above: "occupied_bits fm v = 0" if "w < v" "v < map_capacity fm" for v
    using that k(4) [of "map_capacity fm - Suc v"] k(1,2) by (auto simp: Suc_diff_Suc)
  obtain b where b: "31 - clz (occupied_bits fm w) = b" "b < 32" "bit (occupied_bits fm w) b"
      "\<And>j. b < j \<Longrightarrow> j < 32 \<Longrightarrow> \<not> bit (occupied_bits fm w) j"
    using clz_nonzero [OF k(3)] by blast
  have w: "w < map_capacity fm" using k by simp
  have mem: "w * 32 + b \<in> used_slots fm"
    using bit_occupied [OF assms w b(2)] b(3) by simp
  have "i \<le> w * 32 + b" if i: "i \<in> used_slots fm" for i
  proof (rule ccontr)
    assume "\<not> i \<le> w * 32 + b"
    then have "w < i div 32 \<or> (i div 32 = w \<and> b < i mod 32)"
      using slot_order [of "w * 32 + b" i] b(2) by auto
    moreover have cap: "i div 32 < map_capacity fm"
      using free_map_wfD(3) [OF assms] i by (simp add: used_slots_def)
    moreover have "bit (occupied_bits fm (i div 32)) (i mod 32)"
      using bit_occupied [OF assms cap, of "i mod 32"] i by simp
    ultimately show False using above [of "i div 32"] b(4) [of "i mod 32"] by auto
  qed
  then have "Max (used_slots fm) = w * 32 + b"
    using mem by (intro Max_eqI) auto
  then show ?thesis
    using Some b(1) mem by (auto simp: free_map_highest_used_def)
qed

text \<open>Defragmentation moves the used slots to the front in their order.\<close>

definition slot_rank :: "free_map_t \<Rightarrow> nat \<Rightarrow> nat" where
  "slot_rank fm i = card {j \<in> used_slots fm. j < i}"

definition relocation_of :: "free_map_t \<Rightarrow> relocation" where
  "relocation_of fm =
     map (\<lambda>i. if slot_free fm i then None else Some (slot_rank fm i)) [0..<total_blocks fm]"

lemma relocation_of_nth:
  "i < total_blocks fm \<Longrightarrow>
    relocation_of fm ! i = (if slot_free fm i then None else Some (slot_rank fm i))"
  by (simp add: relocation_of_def)

lemma length_relocation_of [simp]: "length (relocation_of fm) = total_blocks fm"
  by (simp add: relocation_of_def)

lemma slot_rank_Suc:
  assumes "free_map_wf fm" and "n < total_blocks fm"
  shows "slot_rank fm (Suc n) = (if slot_free fm n then slot_rank fm n else Suc (slot_rank fm n))"
proof (cases "slot_free fm n")
  case True
  then have "{j \<in> used_slots fm. j < Suc n} = {j \<in> used_slots fm. j < n}"
    using used_slots_iff [OF assms(1), of n] by (auto simp: less_Suc_eq)
  then show ?thesis using True by (simp add: slot_rank_def)
next
  case False
  then have "{j \<in> used_slots fm. j < Suc n} = insert n {j \<in> used_slots fm. j < n}"
    using used_slots_iff [OF assms(1), of n] assms(2) by (auto simp: less_Suc_eq)
  then show ?thesis using False by (simp add: slot_rank_def)
qed

lemma defrag_loop:
  assumes "free_map_wf fm" and "n \<le> total_blocks fm"
  shows "fold (\<lambda>i (reloc, write_pos).
      if bit (fm_map fm ! (i div 32)) (i mod 32) then (reloc, write_pos)
      else (reloc[i := Some write_pos], write_pos + 1)) [0..<n] (replicate (total_blocks fm) None, 0) =
    (take n (relocation_of fm) @ replicate (total_blocks fm - n) None, slot_rank fm n)"
    (is "fold ?step _ ?s = _")
  using assms(2)
proof (induction n)
  case 0
  then show ?case by (simp add: slot_rank_def)
next
  case (Suc n)
  then have n: "n < total_blocks fm" by simp
  have rep: "replicate (total_blocks fm - n) None = None # replicate (total_blocks fm - Suc n) (None :: nat option)"
    using n by (metis Suc_diff_Suc replicate_Suc)
  let ?r = "take n (relocation_of fm)" and ?t = "replicate (total_blocks fm - Suc n) None"
  have upd: "(?r @ None # ?t)[n := x] = ?r @ x # ?t" for x
    using n by (simp add: list_update_append)
  have "fold ?step [0..<Suc n] ?s = ?step n (fold ?step [0..<n] ?s)" by simp
  also have "\<dots> = ?step n (?r @ None # ?t, slot_rank fm n)"
    using Suc.IH n by (simp only: rep less_imp_le)
  also have "\<dots> = (?r @ relocation_of fm ! n # ?t, slot_rank fm (Suc n))"
    using n by (cases "slot_free fm n")
      (simp_all add: relocation_of_nth slot_rank_Suc [OF assms(1)] upd slot_free_def)
  finally show ?case
    using n by (simp add: take_Suc_conv_app_nth)
qed

definition compacted :: "free_map_t \<Rightarrow> free_map_t" where
  "compacted fm = fm\<lparr>fm_map := set_free_range (card (used_slots fm)) (total_blocks fm)
     (replicate (map_capacity fm) 0)\<rparr>"

lemma free_map_defragment_eq:
  assumes "free_map_wf fm"
  shows "free_map_defragment fm = (relocation_of fm, card (used_slots fm), compacted fm)"
proof -
  have "{j \<in> used_slots fm. j < total_blocks fm} = used_slots fm"
    by (auto simp: used_slots_def)
  then have "slot_rank fm (total_blocks fm) = card (used_slots fm)"
    by (simp add: slot_rank_def)
  then show ?thesis
    using defrag_loop [OF assms, of "total_blocks fm"]
    by (simp add: free_map_defragment_def compacted_def relocation_of_def)
qed

lemma compacted_props:
  assumes "free_map_wf fm"
  shows "free_slots (compacted fm) = {card (used_slots fm)..<total_blocks fm}"
    and "total_blocks (compacted fm) = total_blocks fm" and "free_map_wf (compacted fm)"
    and "used_slots (compacted fm) = {0..<card (used_slots fm)}"
proof -
  have cap: "map_capacity fm = (total_blocks fm + 31) div 32"
    using assms by (simp add: free_map_wf_def)
  then show slots: "free_slots (compacted fm) = {card (used_slots fm)..<total_blocks fm}"
    using free_slots_range [OF cap] by (simp add: compacted_def free_slots_def slot_free_def)
  show tot: "total_blocks (compacted fm) = total_blocks fm" by (simp add: compacted_def)
  show "free_map_wf (compacted fm)"
    using slots cap by (auto simp: free_map_wf_def) (simp_all add: compacted_def)
  have "card (used_slots fm) \<le> total_blocks fm"
    using card_mono [of "{0..<total_blocks fm}" "used_slots fm"] by (auto simp: used_slots_def)
  then show "used_slots (compacted fm) = {0..<card (used_slots fm)}"
    using slots tot by (auto simp: used_slots_def [of "compacted fm"])
qed

lemma slot_rank_mono:
  assumes "i \<in> used_slots fm" and "i < j"
  shows "slot_rank fm i < slot_rank fm j"
  unfolding slot_rank_def by (rule psubset_card_mono) (use assms in auto)

lemma slot_rank_le: "slot_rank fm i \<le> i"
proof -
  have "card {j \<in> used_slots fm. j < i} \<le> card {0..<i}"
    by (rule card_mono) auto
  then show ?thesis by (simp add: slot_rank_def)
qed

lemma slot_rank_bij: "bij_betw (slot_rank fm) (used_slots fm) {0..<card (used_slots fm)}"
proof -
  have inj: "inj_on (slot_rank fm) (used_slots fm)"
    by (rule inj_onI) (metis linorder_neqE_nat nat_neq_iff slot_rank_mono)
  have "slot_rank fm i < card (used_slots fm)" if "i \<in> used_slots fm" for i
    unfolding slot_rank_def by (rule psubset_card_mono) (use that in auto)
  then have "slot_rank fm ` used_slots fm \<subseteq> {0..<card (used_slots fm)}" by auto
  moreover have "card (slot_rank fm ` used_slots fm) = card {0..<card (used_slots fm)}"
    using inj by (simp add: card_image)
  ultimately have "slot_rank fm ` used_slots fm = {0..<card (used_slots fm)}"
    by (intro card_subset_eq) auto
  with inj show ?thesis by (simp add: bij_betw_def)
qed

section \<open>Serialization\<close>

lemma free_map_roundtrip:
  assumes "free_map_wf fm" and "total_blocks fm < 2 ^ 32"
  shows "free_map_deserialize (free_map_serialize fm @ rest) = Some fm"
proof -
  have cap: "map_capacity fm = (total_blocks fm + 31) div 32"
    using assms by (simp add: free_map_wf_def)
  let ?ws = "concat (map (\<lambda>w. le_bytes 4 (unat w)) (fm_map fm))"
  have len: "length ?ws = 4 * map_capacity fm"
    by (rule length_concat_chunks) simp
  have tot: "le_nat (le_bytes 4 (total_blocks fm)) = total_blocks fm"
    using assms(2) by simp
  have nth: "take 4 (drop (4 * i) (?ws @ rest)) = le_bytes 4 (unat (fm_map fm ! i))" if "i < map_capacity fm" for i
    by (rule chunk_nth) (use that in simp_all)
  have "read_words (map_capacity fm) (?ws @ rest) = fm_map fm"
    unfolding read_words_def by (rule nth_equalityI) (simp_all add: nth del: drop_append)
  then show ?thesis
    using tot cap len
    by (simp add: free_map_deserialize_def free_map_serialize_def Let_def)
qed

end
