(* ===== verification/Section.thy ===== *)
theory Section
  imports Free_Map
begin

text \<open>
  A section (\<open>src/src/BlockCache/section.c\<close>): a data file of equally large slots, the bitmap of its
  free slots, a metadata file with the bitmap, and the relocation plan written before a
  defragmentation. The section carries the contents of its three files. What the file system may do
  wrong at a call is the argument \<open>section_io\<close>, so every error branch of the handlers is a branch of
  the definitions. A handler returns the section, the result fields of its payload and the message
  it sends when the request names an actor to reply to.
\<close>

section \<open>Files\<close>

record section_io =
  io_open :: bool
  io_pwrite :: "nat \<Rightarrow> nat"
  io_pread :: "nat \<Rightarrow> bool"
  io_truncate :: bool
  io_plan :: "nat option"
  io_meta :: "nat option"

text \<open>\<open>io_open\<close>: the data file can be opened; \<open>io_pwrite\<close>: how many bytes a write at an offset stores
  at most; \<open>io_pread\<close>: a read at an offset does not fail; \<open>io_plan\<close>, \<open>io_meta\<close>: the plan and metadata
  files can be opened, and how many bytes are transferred at most.\<close>

definition file_pread :: "bytes \<Rightarrow> nat \<Rightarrow> nat \<Rightarrow> bytes" where
  "file_pread f off n = take n (drop off f)"

definition file_pwrite :: "bytes \<Rightarrow> nat \<Rightarrow> bytes \<Rightarrow> bytes" where
  "file_pwrite f off d =
     (if d = [] then f else take off (f @ replicate (off - length f) 0) @ d @ drop (off + length d) f)"

definition file_truncate :: "bytes \<Rightarrow> nat \<Rightarrow> bytes" where
  "file_truncate f n = take n f @ replicate (n - length f) 0"

section \<open>Sections\<close>

record section_t =
  sec_id :: nat
  sec_free_map :: free_map_t
  sec_block_size :: nat
  sec_dirty :: bool
  sec_open :: bool
  sec_file :: "bytes option"
  sec_meta :: "bytes option"
  sec_plan :: "bytes option"

definition sec_contents :: "section_t \<Rightarrow> bytes" where
  "sec_contents s = (case sec_file s of None \<Rightarrow> [] | Some f \<Rightarrow> f)"

datatype section_reply =
  SECTION_WRITE_RESULT int nat bool
| SECTION_READ_RESULT nat bytes
| SECTION_DEALLOCATE_RESULT int
| SECTION_DEFRAGMENT_RESULT int nat relocation nat

definition section_full :: "section_t \<Rightarrow> bool" where
  "section_full s = free_map_is_full (sec_free_map s)"

definition section_count_free :: "section_t \<Rightarrow> nat" where
  "section_count_free s = free_map_count_free (sec_free_map s)"

definition section_save_meta :: "section_io \<Rightarrow> section_t \<Rightarrow> section_t" where
  "section_save_meta io s =
     (case io_meta io of None \<Rightarrow> s
      | Some n \<Rightarrow> s\<lparr>sec_meta := Some (take n (free_map_serialize (sec_free_map s)))\<rparr>)"

definition section_handle_write ::
  "section_io \<Rightarrow> bytes \<Rightarrow> section_t \<Rightarrow> section_t \<times> (int \<times> nat \<times> bool) \<times> section_reply option" where
  "section_handle_write io data s =
     (if length data \<noteq> sec_block_size s
      then (s, (1, 0, free_map_is_full (sec_free_map s)), None)
      else case free_map_alloc (sec_free_map s) of
        None \<Rightarrow> (s, (2, 0, True), None)
      | Some (alloc_index, fm) \<Rightarrow>
          if \<not> sec_open s \<and> \<not> io_open io
          then let fm' = snd (free_map_dealloc fm alloc_index)
               in (s\<lparr>sec_free_map := fm'\<rparr>, (3, 0, free_map_is_full fm'), None)
          else
            let byte_offset = length data * alloc_index;
                written = min (io_pwrite io byte_offset) (length data);
                s1 = s\<lparr>sec_open := True,
                       sec_file := Some (file_pwrite (sec_contents s) byte_offset (take written data))\<rparr>
            in if written < sec_block_size s
               then let fm' = snd (free_map_dealloc fm alloc_index)
                    in (s1\<lparr>sec_free_map := fm'\<rparr>, (5, 0, free_map_is_full fm'), None)
               else (s1\<lparr>sec_free_map := fm, sec_dirty := True\<rparr>,
                     (0, alloc_index, free_map_is_full fm),
                     Some (SECTION_WRITE_RESULT 0 alloc_index (free_map_is_full fm))))"

definition section_handle_read ::
  "section_io \<Rightarrow> nat \<Rightarrow> section_t \<Rightarrow> bytes option \<times> section_reply option" where
  "section_handle_read io i s =
     (if sec_open s \<or> (io_open io \<and> sec_file s \<noteq> None)
      then let byte_offset = i * sec_block_size s;
               data = file_pread (sec_contents s) byte_offset (sec_block_size s)
           in if \<not> io_pread io byte_offset \<or> length data < sec_block_size s then (None, None)
              else (Some data, Some (SECTION_READ_RESULT i data))
      else (None, None))"

definition section_handle_deallocate ::
  "nat \<Rightarrow> section_t \<Rightarrow> section_t \<times> int \<times> section_reply option" where
  "section_handle_deallocate i s =
     (case free_map_dealloc (sec_free_map s) i of
        (result, fm) \<Rightarrow>
          (s\<lparr>sec_free_map := fm, sec_dirty := (if result = 0 then True else sec_dirty s)\<rparr>, result,
           Some (SECTION_DEALLOCATE_RESULT result)))"

definition section_handle_close :: "section_t \<Rightarrow> section_t" where
  "section_handle_close s = s\<lparr>sec_open := False\<rparr>"

section \<open>Defragmentation\<close>

definition reloc_bytes :: "nat option \<Rightarrow> bytes" where
  "reloc_bytes r = le_bytes 8 (case r of None \<Rightarrow> 2 ^ 64 - 1 | Some j \<Rightarrow> j)"

definition defrag_plan_bytes :: "nat \<Rightarrow> nat \<Rightarrow> relocation \<Rightarrow> bytes" where
  "defrag_plan_bytes tot new_count reloc =
     le_bytes 4 tot @ le_bytes 4 new_count @ concat (map reloc_bytes reloc)"

definition section_defrag_plan_write ::
  "section_io \<Rightarrow> relocation \<Rightarrow> nat \<Rightarrow> section_t \<Rightarrow> int \<times> section_t" where
  "section_defrag_plan_write io reloc new_count s =
     (let buf = defrag_plan_bytes (total_blocks (sec_free_map s)) new_count reloc
      in case io_plan io of
           None \<Rightarrow> (-1, s)
         | Some n \<Rightarrow> (if n < length buf then -1 else 0, s\<lparr>sec_plan := Some (take n buf)\<rparr>))"

definition section_defrag_plan_delete :: "section_t \<Rightarrow> section_t" where
  "section_defrag_plan_delete s = s\<lparr>sec_plan := None\<rparr>"

text \<open>The loop that moves the blocks, over the slots in order: the error flag and the file.\<close>

fun move_blocks :: "section_io \<Rightarrow> nat \<Rightarrow> relocation \<Rightarrow> nat list \<Rightarrow> bytes \<Rightarrow> bool \<times> bytes" where
  "move_blocks io bs reloc [] f = (False, f)"
| "move_blocks io bs reloc (i # slots) f =
     (case reloc ! i of
        None \<Rightarrow> move_blocks io bs reloc slots f
      | Some j \<Rightarrow>
          if j = i then move_blocks io bs reloc slots f
          else let buf = file_pread f (i * bs) bs
               in if \<not> io_pread io (i * bs) \<or> length buf \<noteq> bs then (True, f)
                  else let written = min (io_pwrite io (j * bs)) bs;
                           f' = file_pwrite f (j * bs) (take written buf)
                       in if written \<noteq> bs then (True, f') else move_blocks io bs reloc slots f')"

definition section_handle_defragment ::
  "section_io \<Rightarrow> section_t \<Rightarrow> section_t \<times> (int \<times> relocation option \<times> nat) \<times> section_reply option" where
  "section_handle_defragment io s =
     (let fm = sec_free_map s;
          total = total_blocks fm;
          free_count = free_map_count_free fm;
          used_count = total - free_count
      in if used_count = 0 \<or> free_count = 0 \<or> free_map_highest_used fm < used_count
         then (s, (0, None, used_count), None)
         else case free_map_defragment fm of (reloc, new_count, fm') \<Rightarrow>
           (case section_defrag_plan_write io reloc new_count (s\<lparr>sec_free_map := fm'\<rparr>) of (r, s1) \<Rightarrow>
             if r \<noteq> 0 then (s1\<lparr>sec_free_map := fm\<rparr>, (-1, None, 0), None)
             else if \<not> sec_open s1 \<and> \<not> io_open io then (s1\<lparr>sec_free_map := fm\<rparr>, (-1, None, 0), None)
             else case move_blocks io (sec_block_size s) reloc [0..<total] (sec_contents s1) of (err, f) \<Rightarrow>
               let s2 = s1\<lparr>sec_open := True, sec_file := Some f\<rparr>
               in if err \<or> \<not> io_truncate io then (s2\<lparr>sec_free_map := fm\<rparr>, (-1, None, 0), None)
                  else let s3 = s2\<lparr>sec_file := Some (file_truncate f (new_count * sec_block_size s)),
                                   sec_dirty := True\<rparr>;
                           s4 = section_defrag_plan_delete (section_save_meta io s3)
                       in (s4, (0, Some reloc, new_count),
                           Some (SECTION_DEFRAGMENT_RESULT 0 (sec_id s) reloc new_count))))"

definition read_relocation :: "nat \<Rightarrow> bytes \<Rightarrow> relocation" where
  "read_relocation tot buf =
     map (\<lambda>i. let v = le_nat (take 8 (drop (8 * i) buf)) in if v = 2 ^ 64 - 1 then None else Some v)
       [0..<tot]"

definition section_defrag_plan_recover :: "section_io \<Rightarrow> section_t \<Rightarrow> int \<times> section_t" where
  "section_defrag_plan_recover io s =
     (case sec_plan s of
        None \<Rightarrow> (0, s)
      | Some buf \<Rightarrow>
          (case io_plan io of
             None \<Rightarrow> (-1, s)
           | Some n \<Rightarrow>
               let total = le_nat (take 4 buf); new_count = le_nat (take 4 (drop 4 buf)) in
               if length buf < 8 \<or> n < length buf then (-1, s)
               else if total \<noteq> total_blocks (sec_free_map s) \<or> 8 + total * 8 \<noteq> length buf then (-1, s)
               else if \<not> sec_open s \<and> \<not> io_open io then (-1, s)
               else
                 let reloc = read_relocation total (drop 8 buf);
                     s1 = s\<lparr>sec_open := True, sec_file := Some (sec_contents s)\<rparr>;
                     truncated_size = new_count * sec_block_size s;
                     (err, f) = (if length (sec_contents s) \<le> truncated_size then (False, sec_contents s)
                                 else move_blocks io (sec_block_size s) reloc [0..<total] (sec_contents s));
                     data_move_needed = (\<not> length (sec_contents s) \<le> truncated_size);
                     s2 = s1\<lparr>sec_file := Some f\<rparr>
                 in if data_move_needed \<and> (err \<or> \<not> io_truncate io) then (-1, s2)
                    else
                      let s3 = (if data_move_needed then s2\<lparr>sec_file := Some (file_truncate f truncated_size)\<rparr> else s2);
                          fm = sec_free_map s;
                          s4 = s3\<lparr>sec_free_map := fm\<lparr>fm_map :=
                                  set_free_range new_count total (replicate (map_capacity fm) 0)\<rparr>\<rparr>
                      in (0, section_defrag_plan_delete (section_save_meta io s4))))"

text \<open>\<open>section_create\<close> on the three files found in the directories.\<close>

definition section_create ::
  "section_io \<Rightarrow> bytes option \<times> bytes option \<times> bytes option \<Rightarrow> nat \<Rightarrow> nat \<Rightarrow> nat \<Rightarrow> section_t option" where
  "section_create io files sz ident bs =
     (let (data, meta, plan) = files;
          fm = (case meta of
                  None \<Rightarrow> Some (free_map_init sz)
                | Some buffer \<Rightarrow>
                    (case io_meta io of
                       None \<Rightarrow> None
                     | Some n \<Rightarrow> if n < length buffer then None else free_map_deserialize buffer))
      in (case fm of
           None \<Rightarrow> None
         | Some fm \<Rightarrow>
             Some (snd (section_defrag_plan_recover io
               \<lparr>sec_id = ident, sec_free_map = fm, sec_block_size = bs, sec_dirty = False, sec_open = False,
                sec_file = data, sec_meta = meta, sec_plan = plan\<rparr>))))"

text \<open>The files a section leaves behind; \<open>section_destroy\<close> saves the metadata of a dirty section.\<close>

definition section_files :: "section_t \<Rightarrow> bytes option \<times> bytes option \<times> bytes option" where
  "section_files s = (sec_file s, sec_meta s, sec_plan s)"

definition section_destroy :: "section_io \<Rightarrow> section_t \<Rightarrow> section_t" where
  "section_destroy io s = (if sec_dirty s then section_save_meta io s else s)\<lparr>sec_open := False\<rparr>"

text \<open>The dispatcher: the requests of the mailbox, each with the actor to reply to.\<close>

datatype section_msg =
  SECTION_WRITE bytes
| SECTION_READ nat
| SECTION_DEALLOCATE nat
| SECTION_SAVE_META
| SECTION_CLOSE
| SECTION_DEFRAGMENT

definition section_send :: "'a option \<Rightarrow> section_reply option \<Rightarrow> ('a \<times> section_reply) list" where
  "section_send reply_to r = (case (reply_to, r) of (Some a, Some m) \<Rightarrow> [(a, m)] | _ \<Rightarrow> [])"

fun section_dispatch ::
  "section_io \<Rightarrow> 'a option \<Rightarrow> section_msg \<Rightarrow> section_t \<Rightarrow> section_t \<times> ('a \<times> section_reply) list" where
  "section_dispatch io reply_to (SECTION_WRITE data) s =
     (case section_handle_write io data s of (s', _, r) \<Rightarrow> (s', section_send reply_to r))"
| "section_dispatch io reply_to (SECTION_READ i) s =
     (s, section_send reply_to (snd (section_handle_read io i s)))"
| "section_dispatch io reply_to (SECTION_DEALLOCATE i) s =
     (case section_handle_deallocate i s of (s', _, r) \<Rightarrow> (s', section_send reply_to r))"
| "section_dispatch io reply_to SECTION_SAVE_META s = (section_save_meta io s, [])"
| "section_dispatch io reply_to SECTION_CLOSE s = (section_handle_close s, [])"
| "section_dispatch io reply_to SECTION_DEFRAGMENT s =
     (case section_handle_defragment io s of (s', _, r) \<Rightarrow> (s', section_send reply_to r))"

end
