(* ===== verification/Section_Store.thy ===== *)
theory Section_Store
  imports Section
begin

text \<open>
  What a section promises: it stores blocks under slot numbers. \<open>section_blocks\<close> reads the map from
  used slots to blocks off the bitmap and the data file; the handlers are shown to refine an abstract
  block store under every behaviour of the file system, defragmentation to be an order-preserving
  renumbering, and crash recovery to finish an interrupted defragmentation exactly when no moved block
  has overwritten a used slot.
\<close>

section \<open>File lemmas\<close>

lemma length_file_pwrite:
  "length (file_pwrite f off d) = (if d = [] then length f else max (length f) (off + length d))"
  by (auto simp: file_pwrite_def)

lemma file_pread_pwrite_same: "file_pread (file_pwrite f off d) off (length d) = d"
  by (auto simp: file_pread_def file_pwrite_def)

lemma nth_file_pwrite:
  assumes "k < length f" and "k < off \<or> off + length d \<le> k"
  shows "file_pwrite f off d ! k = f ! k"
proof (cases "k < off")
  case True
  then show ?thesis using assms(1) by (simp add: file_pwrite_def nth_append)
next
  case False
  then have le: "off + length d \<le> k" using assms(2) by simp
  let ?t = "take off (f @ replicate (off - length f) 0)"
  have lt: "length ?t = off" using le assms(1) by simp
  have "(?t @ d @ drop (off + length d) f) ! k = (d @ drop (off + length d) f) ! (k - off)"
    using le by (simp only: nth_append lt) simp
  also have "\<dots> = drop (off + length d) f ! (k - off - length d)"
    using le by (simp add: nth_append not_less [THEN iffD2] le_diff_conv2)
  also have "\<dots> = f ! k" using le assms(1) by simp
  finally show ?thesis by (simp add: file_pwrite_def)
qed

lemma file_pread_pwrite_other:
  assumes "a + n \<le> off \<or> off + length d \<le> a" and "a + n \<le> length f"
  shows "file_pread (file_pwrite f off d) a n = file_pread f a n"
proof (rule nth_equalityI)
  have le: "length f \<le> length (file_pwrite f off d)" by (simp add: length_file_pwrite)
  then show "length (file_pread (file_pwrite f off d) a n) = length (file_pread f a n)"
    using assms by (simp add: file_pread_def)
  fix i assume "i < length (file_pread (file_pwrite f off d) a n)"
  then have "i < n" by (simp add: file_pread_def)
  then show "file_pread (file_pwrite f off d) a n ! i = file_pread f a n ! i"
    using assms le nth_file_pwrite [of "a + i" f off d] by (auto simp: file_pread_def)
qed

lemma length_file_pread: "off + n \<le> length f \<Longrightarrow> length (file_pread f off n) = n"
  by (simp add: file_pread_def)

lemma file_pread_truncate: "a + n \<le> m \<Longrightarrow> m \<le> length f \<Longrightarrow> file_pread (file_truncate f m) a n = file_pread f a n"
  by (simp add: file_pread_def file_truncate_def drop_take)

lemma length_file_truncate [simp]: "length (file_truncate f n) = n"
  by (simp add: file_truncate_def)

text \<open>Slots do not overlap.\<close>

lemma slot_offsets:
  fixes i j bs :: nat
  assumes "i < j"
  shows "i * bs + bs \<le> j * bs"
proof -
  have "Suc i * bs \<le> j * bs" using assms by (intro mult_le_mono1) simp
  then show ?thesis by simp
qed

definition slot_data :: "nat \<Rightarrow> bytes \<Rightarrow> nat \<Rightarrow> bytes" where
  "slot_data bs f i = file_pread f (i * bs) bs"

lemma slot_data_pwrite_other:
  assumes "i \<noteq> j" and "i * bs + bs \<le> length f" and "length d \<le> bs"
  shows "slot_data bs (file_pwrite f (j * bs) d) i = slot_data bs f i"
  unfolding slot_data_def
proof (rule file_pread_pwrite_other)
  consider "i < j" | "j < i" using assms(1) by linarith
  then show "i * bs + bs \<le> j * bs \<or> j * bs + length d \<le> i * bs"
    using slot_offsets [of i j bs] slot_offsets [of j i bs] assms(3) by cases auto
qed (use assms in auto)

lemma slot_data_pwrite_same: "length d = bs \<Longrightarrow> slot_data bs (file_pwrite f (j * bs) d) j = d"
  using file_pread_pwrite_same [of f "j * bs" d] by (simp add: slot_data_def)

section \<open>The block store\<close>

definition section_blocks :: "section_t \<Rightarrow> nat \<Rightarrow> bytes option" where
  "section_blocks s i =
     (if i \<in> used_slots (sec_free_map s) then Some (slot_data (sec_block_size s) (sec_contents s) i) else None)"

definition section_wf :: "section_t \<Rightarrow> bool" where
  "section_wf s \<longleftrightarrow> free_map_wf (sec_free_map s) \<and> total_blocks (sec_free_map s) < 2 ^ 32 \<and>
     0 < sec_block_size s \<and>
     (\<forall>i \<in> used_slots (sec_free_map s). i * sec_block_size s + sec_block_size s \<le> length (sec_contents s))"

lemma section_wfD:
  assumes "section_wf s"
  shows "free_map_wf (sec_free_map s)" and "total_blocks (sec_free_map s) < 2 ^ 32" and "0 < sec_block_size s"
    and "i \<in> used_slots (sec_free_map s) \<Longrightarrow> i * sec_block_size s + sec_block_size s \<le> length (sec_contents s)"
  using assms by (auto simp: section_wf_def)

lemma dom_section_blocks: "dom (section_blocks s) = used_slots (sec_free_map s)"
  by (auto simp: section_blocks_def dom_def split: if_splits)

text \<open>A write into a free slot, complete or not, keeps every block.\<close>

lemma section_pwrite_free:
  assumes "section_wf s" and "i \<notin> used_slots (sec_free_map s)" and "length d \<le> sec_block_size s"
    and "sec_free_map s' = sec_free_map s" and "sec_block_size s' = sec_block_size s"
    and "sec_contents s' = file_pwrite (sec_contents s) (i * sec_block_size s) d"
  shows "section_wf s' \<and> section_blocks s' = section_blocks s"
proof -
  note wf = section_wfD [OF assms(1)]
  have "length (sec_contents s) \<le> length (sec_contents s')"
    by (simp add: assms(6) length_file_pwrite)
  then have "section_wf s'"
    using wf assms(4,5) by (auto simp: section_wf_def intro: order_trans)
  moreover have "section_blocks s' j = section_blocks s j" for j
    using slot_data_pwrite_other [of j i "sec_block_size s" "sec_contents s" d] wf(4) assms
    by (auto simp: section_blocks_def)
  ultimately show ?thesis by blast
qed

lemma used_slots_alloc:
  assumes "free_map_alloc fm = Some (i, fm')" and "free_map_wf fm"
  shows "used_slots fm' = insert i (used_slots fm)" and "i \<notin> used_slots fm"
  using free_map_alloc_Some [OF assms] free_map_wfD(2) [OF assms(2)] by (auto simp: used_slots_def)

lemma section_handle_write_ok:
  assumes "section_wf s" and "section_handle_write io d s = (s', (0, i, full), r)"
  shows "section_wf s'" and "i = Min (free_slots (sec_free_map s))" and "section_blocks s i = None"
    and "section_blocks s' = (section_blocks s)(i \<mapsto> d)" and "full = section_full s'"
    and "r = Some (SECTION_WRITE_RESULT 0 i full)" and "sec_dirty s'" and "length d = sec_block_size s"
    and "sec_block_size s' = sec_block_size s"
proof -
  note wf = section_wfD [OF assms(1)]
  show len: "length d = sec_block_size s"
    using assms(2) by (auto simp: section_handle_write_def split: if_splits)
  obtain fm where alloc: "free_map_alloc (sec_free_map s) = Some (i, fm)"
      and s': "s' = s\<lparr>sec_open := True, sec_file := Some (file_pwrite (sec_contents s) (length d * i) d),
        sec_free_map := fm, sec_dirty := True\<rparr>"
      and full: "full = free_map_is_full fm" and r: "r = Some (SECTION_WRITE_RESULT 0 i full)"
    using assms(2)
    by (auto simp: section_handle_write_def Let_def split: if_splits option.splits)
  note a = free_map_alloc_Some [OF alloc wf(1)] and u = used_slots_alloc [OF alloc wf(1)]
  have cont: "sec_contents s' = file_pwrite (sec_contents s) (i * sec_block_size s) d"
    by (simp add: s' sec_contents_def [of "_\<lparr>sec_dirty := _\<rparr>"] len mult.commute)
  have "length (sec_contents s') = max (length (sec_contents s)) (i * sec_block_size s + sec_block_size s)"
    using wf(3) len by (auto simp: cont length_file_pwrite)
  then show "section_wf s'"
    using wf a u by (fastforce simp: section_wf_def s' )
  show "i = Min (free_slots (sec_free_map s))" by (rule a(1))
  show none: "section_blocks s i = None" using u by (simp add: section_blocks_def)
  have "section_blocks s' j = ((section_blocks s)(i \<mapsto> d)) j" for j
    using slot_data_pwrite_other [of j i "sec_block_size s" "sec_contents s" d] wf(4) u len
      slot_data_pwrite_same [of d "sec_block_size s" "sec_contents s" i] cont
    by (auto simp: section_blocks_def s')
  then show "section_blocks s' = (section_blocks s)(i \<mapsto> d)" by blast
  show "full = section_full s'" and "r = Some (SECTION_WRITE_RESULT 0 i full)" and "sec_dirty s'"
    and "sec_block_size s' = sec_block_size s"
    by (simp_all add: full r s' section_full_def)
qed

text \<open>A failed write keeps the bitmap and every block, and sends no reply.\<close>

lemma section_handle_write_fail:
  assumes "section_wf s" and "section_handle_write io d s = (s', (c, i, full), r)" and "c \<noteq> 0"
  shows "section_wf s'" and "section_blocks s' = section_blocks s" and "sec_free_map s' = sec_free_map s"
    and "r = None" and "sec_block_size s' = sec_block_size s"
proof -
  note wf = section_wfD [OF assms(1)]
  have "section_wf s' \<and> section_blocks s' = section_blocks s \<and> sec_free_map s' = sec_free_map s \<and>
      r = None \<and> sec_block_size s' = sec_block_size s"
  proof (cases "length d = sec_block_size s \<and> free_map_alloc (sec_free_map s) \<noteq> None")
    case False
    then have "s' = s \<and> r = None"
      using assms(2) by (cases "free_map_alloc (sec_free_map s)") (auto simp: section_handle_write_def split: if_splits)
    then show ?thesis using assms(1) by simp
  next
    case True
    then obtain j fm where alloc: "free_map_alloc (sec_free_map s) = Some (j, fm)" and len: "length d = sec_block_size s"
      by auto
    have same: "s\<lparr>sec_free_map := sec_free_map s\<rparr> = s" by simp
    have restored: "snd (free_map_dealloc fm j) = sec_free_map s"
      using free_map_dealloc_alloc [OF alloc wf(1)] by simp
    let ?n = "min (io_pwrite io (length d * j)) (length d)"
    let ?s1 = "s\<lparr>sec_open := True, sec_file := Some (file_pwrite (sec_contents s) (length d * j) (take ?n d))\<rparr>"
    have "r = None \<and> (s' = s \<or> s' = ?s1)"
      using assms(2,3) len alloc restored same
      by (simp add: section_handle_write_def Let_def split: if_splits)
    moreover have "section_wf ?s1 \<and> section_blocks ?s1 = section_blocks s"
      by (rule section_pwrite_free [OF assms(1) used_slots_alloc(2) [OF alloc wf(1)]])
        (auto simp: sec_contents_def len mult.commute)
    ultimately show ?thesis using assms(1) by auto
  qed
  then show "section_wf s'" and "section_blocks s' = section_blocks s" and "sec_free_map s' = sec_free_map s"
    and "r = None" and "sec_block_size s' = sec_block_size s" by auto
qed

lemma section_handle_read_used:
  assumes "section_wf s" and "section_blocks s i = Some d"
  shows "fst (section_handle_read io i s) = Some d \<or> section_handle_read io i s = (None, None)"
    and "io_pread io (i * sec_block_size s) \<Longrightarrow> sec_open s \<or> io_open io \<Longrightarrow>
      section_handle_read io i s = (Some d, Some (SECTION_READ_RESULT i d))"
proof -
  note wf = section_wfD [OF assms(1)]
  have i: "i \<in> used_slots (sec_free_map s)" and d: "d = slot_data (sec_block_size s) (sec_contents s) i"
    using assms(2) by (auto simp: section_blocks_def split: if_splits)
  have len: "length (file_pread (sec_contents s) (i * sec_block_size s) (sec_block_size s)) = sec_block_size s"
    by (rule length_file_pread) (rule wf(4) [OF i])
  have some_file: "sec_file s \<noteq> None"
    using wf(3) wf(4) [OF i] by (cases "sec_file s") (auto simp: sec_contents_def)
  show "fst (section_handle_read io i s) = Some d \<or> section_handle_read io i s = (None, None)"
    using len d by (auto simp: section_handle_read_def slot_data_def Let_def)
  show "section_handle_read io i s = (Some d, Some (SECTION_READ_RESULT i d))"
    if "io_pread io (i * sec_block_size s)" and "sec_open s \<or> io_open io"
    using that len d some_file by (auto simp: section_handle_read_def slot_data_def Let_def)
qed

lemma section_handle_read_reply:
  "section_handle_read io i s = (None, None) \<or>
    (\<exists>d. section_handle_read io i s = (Some d, Some (SECTION_READ_RESULT i d)))"
  by (auto simp: section_handle_read_def Let_def)

lemma section_handle_deallocate_spec:
  assumes "section_wf s" and "section_handle_deallocate i s = (s', c, r)"
  shows "section_wf s'" and "r = Some (SECTION_DEALLOCATE_RESULT c)"
    and "c = (if i \<in> dom (section_blocks s) then 0 else 1)"
    and "section_blocks s' = (section_blocks s)(i := None)"
    and "sec_block_size s' = sec_block_size s"
proof -
  note wf = section_wfD [OF assms(1)]
  obtain fm where fm: "free_map_dealloc (sec_free_map s) i = (c, fm)"
      and s': "s' = s\<lparr>sec_free_map := fm, sec_dirty := (if c = 0 then True else sec_dirty s)\<rparr>"
      and r: "r = Some (SECTION_DEALLOCATE_RESULT c)"
    using assms(2) by (auto simp: section_handle_deallocate_def split: prod.splits)
  have cont: "sec_contents s' = sec_contents s" by (simp add: s' sec_contents_def)
  have fm': "free_map_wf fm \<and> total_blocks fm = total_blocks (sec_free_map s) \<and>
      used_slots fm = used_slots (sec_free_map s) - {i} \<and> c = (if i \<in> used_slots (sec_free_map s) then 0 else 1)"
  proof (cases "i \<in> used_slots (sec_free_map s)")
    case True
    from free_map_dealloc_spec(1) [OF wf(1) True] fm
    have f: "c = 0" "free_slots fm = insert i (free_slots (sec_free_map s))"
        "total_blocks fm = total_blocks (sec_free_map s)" "free_map_wf fm" by auto
    then have "used_slots fm = used_slots (sec_free_map s) - {i}" by (auto simp: used_slots_def)
    then show ?thesis using f True by simp
  next
    case False
    from free_map_dealloc_spec(2) [OF wf(1) False] fm wf(1) False show ?thesis by auto
  qed
  show "r = Some (SECTION_DEALLOCATE_RESULT c)" by (rule r)
  show "section_wf s'" using wf fm' cont by (auto simp: section_wf_def s')
  show "c = (if i \<in> dom (section_blocks s) then 0 else 1)" using fm' by (simp add: dom_section_blocks)
  have "section_blocks s' j = ((section_blocks s)(i := None)) j" for j
    using fm' cont by (auto simp: section_blocks_def s')
  then show "section_blocks s' = (section_blocks s)(i := None)" by blast
  show "sec_block_size s' = sec_block_size s" by (simp add: s')
qed

lemma section_save_meta_same [simp]:
  "sec_free_map (section_save_meta io s) = sec_free_map s" "sec_block_size (section_save_meta io s) = sec_block_size s"
  "sec_file (section_save_meta io s) = sec_file s" "sec_open (section_save_meta io s) = sec_open s"
  "sec_plan (section_save_meta io s) = sec_plan s" "sec_contents (section_save_meta io s) = sec_contents s"
  by (auto simp: section_save_meta_def sec_contents_def split: option.splits)

lemma section_blocks_cong:
  assumes "sec_free_map s' = sec_free_map s" and "sec_block_size s' = sec_block_size s"
    and "sec_contents s' = sec_contents s"
  shows "section_blocks s' = section_blocks s" and "section_wf s' = section_wf s"
  using assms by (auto simp: section_blocks_def section_wf_def)

section \<open>The abstract store\<close>

text \<open>What a client of the section sees: the replies it may get and the blocks held afterwards. A write
  is acknowledged with a slot that held nothing, or is not acknowledged and changes nothing; a read
  of a held block returns it or is not answered.\<close>

inductive store_step ::
  "nat \<Rightarrow> (nat \<Rightarrow> bytes option) \<Rightarrow> section_msg \<Rightarrow> section_reply option \<Rightarrow> (nat \<Rightarrow> bytes option) \<Rightarrow> bool"
  for bs :: nat where
  store_write: "m i = None \<Longrightarrow> length d = bs \<Longrightarrow>
    store_step bs m (SECTION_WRITE d) (Some (SECTION_WRITE_RESULT 0 i full)) (m(i \<mapsto> d))"
| store_write_fail: "store_step bs m (SECTION_WRITE d) None m"
| store_read: "m i = Some d \<Longrightarrow> store_step bs m (SECTION_READ i) (Some (SECTION_READ_RESULT i d)) m"
| store_read_free: "m i = None \<Longrightarrow> store_step bs m (SECTION_READ i) (Some (SECTION_READ_RESULT i d)) m"
| store_read_fail: "store_step bs m (SECTION_READ i) None m"
| store_deallocate: "m i \<noteq> None \<Longrightarrow>
    store_step bs m (SECTION_DEALLOCATE i) (Some (SECTION_DEALLOCATE_RESULT 0)) (m(i := None))"
| store_deallocate_free: "m i = None \<Longrightarrow>
    store_step bs m (SECTION_DEALLOCATE i) (Some (SECTION_DEALLOCATE_RESULT 1)) m"
| store_save_meta: "store_step bs m SECTION_SAVE_META None m"
| store_close: "store_step bs m SECTION_CLOSE None m"

lemma section_send_None [simp]: "section_send reply_to None = []"
  by (cases reply_to) (simp_all add: section_send_def)

lemma section_dispatch_refines:
  assumes "section_wf s" and "msg \<noteq> SECTION_DEFRAGMENT"
    and "section_dispatch io reply_to msg s = (s', out)"
  shows "section_wf s' \<and> sec_block_size s' = sec_block_size s \<and>
    (\<exists>r. out = section_send reply_to r \<and> store_step (sec_block_size s) (section_blocks s) msg r (section_blocks s'))"
proof (cases msg)
  case (SECTION_WRITE d)
  obtain c i full r where w: "section_handle_write io d s = (s', (c, i, full), r)" and out: "out = section_send reply_to r"
    using assms(3) SECTION_WRITE by (auto split: prod.splits)
  show ?thesis
  proof (cases "c = 0")
    case True
    note ok = section_handle_write_ok [OF assms(1) w [unfolded True]]
    show ?thesis
      using ok out store_step.store_write [of "section_blocks s" i d "sec_block_size s" full]
      by (auto simp: SECTION_WRITE)
  next
    case False
    note bad = section_handle_write_fail [OF assms(1) w False]
    show ?thesis
      using bad out store_step.store_write_fail [of "sec_block_size s" "section_blocks s" d]
      by (auto simp: SECTION_WRITE intro!: exI [of _ None])
  qed
next
  case (SECTION_READ i)
  then have s': "s' = s" and out: "out = section_send reply_to (snd (section_handle_read io i s))"
    using assms(3) by auto
  have "store_step (sec_block_size s) (section_blocks s) msg (snd (section_handle_read io i s)) (section_blocks s)"
  proof (cases "section_blocks s i")
    case None
    then show ?thesis
      using section_handle_read_reply [of io i s] SECTION_READ by (auto intro: store_step.intros)
  next
    case (Some d)
    then show ?thesis
      using section_handle_read_reply [of io i s] section_handle_read_used(1) [OF assms(1) Some, of io] SECTION_READ
      by (auto intro: store_step.intros)
  qed
  then show ?thesis using s' out assms(1) by blast
next
  case (SECTION_DEALLOCATE i)
  obtain c r where d: "section_handle_deallocate i s = (s', c, r)" and out: "out = section_send reply_to r"
    using assms(3) SECTION_DEALLOCATE by (auto split: prod.splits)
  note spec = section_handle_deallocate_spec [OF assms(1) d]
  have "store_step (sec_block_size s) (section_blocks s) msg r (section_blocks s')"
  proof (cases "section_blocks s i")
    case None
    then have "(section_blocks s)(i := None) = section_blocks s" by auto
    then show ?thesis
      using spec None SECTION_DEALLOCATE by (auto intro: store_step.intros simp: domIff)
  next
    case (Some d)
    then show ?thesis
      using spec SECTION_DEALLOCATE by (auto intro: store_step.intros simp: domIff)
  qed
  then show ?thesis using spec out by blast
next
  case SECTION_SAVE_META
  then show ?thesis
    using assms section_blocks_cong [of "section_save_meta io s" s]
    by (auto intro!: exI [of _ None] store_step.intros)
next
  case SECTION_CLOSE
  have "sec_contents (section_handle_close s) = sec_contents s"
    by (simp add: section_handle_close_def sec_contents_def)
  then show ?thesis
    using assms SECTION_CLOSE section_blocks_cong [of "section_handle_close s" s]
    by (auto simp: section_handle_close_def intro!: exI [of _ None] store_step.intros)
qed (use assms in simp)

text \<open>Sequences of requests, each met by its own behaviour of the file system.\<close>

type_synonym 'a section_request = "section_io \<times> 'a option \<times> section_msg"

primrec section_run ::
  "'a section_request list \<Rightarrow> section_t \<Rightarrow> section_t \<times> ('a \<times> section_reply) list" where
  "section_run [] s = (s, [])"
| "section_run (q # qs) s =
     (case q of (io, reply_to, msg) \<Rightarrow>
        (case section_dispatch io reply_to msg s of (s1, out) \<Rightarrow>
           (case section_run qs s1 of (s2, outs) \<Rightarrow> (s2, out @ outs))))"

inductive store_run ::
  "nat \<Rightarrow> (nat \<Rightarrow> bytes option) \<Rightarrow> ('a option \<times> section_msg) list \<Rightarrow> ('a \<times> section_reply) list \<Rightarrow>
     (nat \<Rightarrow> bytes option) \<Rightarrow> bool"
  for bs :: nat where
  store_done: "store_run bs m [] [] m"
| store_next: "store_step bs m msg r m1 \<Longrightarrow> store_run bs m1 qs outs m2 \<Longrightarrow>
    store_run bs m ((reply_to, msg) # qs) (section_send reply_to r @ outs) m2"

lemma section_run_refines:
  assumes "section_wf s" and "SECTION_DEFRAGMENT \<notin> snd ` snd ` set qs" and "section_run qs s = (s', outs)"
  shows "section_wf s' \<and> sec_block_size s' = sec_block_size s \<and>
    store_run (sec_block_size s) (section_blocks s) (map snd qs) outs (section_blocks s')"
  using assms
proof (induction qs arbitrary: s s' outs)
  case Nil
  then show ?case by (simp add: store_done)
next
  case (Cons q qs)
  obtain io reply_to msg where q: "q = (io, reply_to, msg)" by (cases q)
  obtain s1 out where d: "section_dispatch io reply_to msg s = (s1, out)" by fastforce
  obtain s2 outs' where r: "section_run qs s1 = (s2, outs')" by fastforce
  have res: "s' = s2" "outs = out @ outs'" using Cons.prems(3) q d r by auto
  have "msg \<noteq> SECTION_DEFRAGMENT" using Cons.prems(2) q by auto
  from section_dispatch_refines [OF Cons.prems(1) this d]
  obtain rep where s1: "section_wf s1" "sec_block_size s1 = sec_block_size s" "out = section_send reply_to rep"
      "store_step (sec_block_size s) (section_blocks s) msg rep (section_blocks s1)" by blast
  from Cons.IH [OF s1(1) _ r] Cons.prems(2)
  have "section_wf s2 \<and> sec_block_size s2 = sec_block_size s1 \<and>
      store_run (sec_block_size s1) (section_blocks s1) (map snd qs) outs' (section_blocks s2)" by auto
  then show ?case
    using s1 res q store_next [OF s1(4)] by auto
qed

text \<open>Only a deallocation of its slot takes a block away.\<close>

lemma store_step_keeps:
  "store_step bs m msg r m' \<Longrightarrow> m i = Some d \<Longrightarrow> msg \<noteq> SECTION_DEALLOCATE i \<Longrightarrow> m' i = Some d"
  by (induction rule: store_step.induct) auto

lemma store_run_keeps:
  "store_run bs m qs outs m' \<Longrightarrow> m i = Some d \<Longrightarrow> SECTION_DEALLOCATE i \<notin> snd ` set qs \<Longrightarrow> m' i = Some d"
proof (induction rule: store_run.induct)
  case (store_next m msg r m1 qs outs m2 reply_to)
  then show ?case using store_step_keeps [OF store_next.hyps(1) store_next.prems(1)] by auto
qed simp

text \<open>A working file system and a small section, for concrete runs.\<close>

definition io_ok :: section_io where
  "io_ok = \<lparr>io_open = True, io_pwrite = (\<lambda>_. 1000), io_pread = (\<lambda>_. True), io_truncate = True,
     io_plan = Some 1000, io_meta = Some 1000\<rparr>"

lemma io_ok_simps [simp]:
  "io_open io_ok" "io_pwrite io_ok off = 1000" "io_pread io_ok off" "io_truncate io_ok"
  "io_plan io_ok = Some 1000" "io_meta io_ok = Some 1000"
  by (simp_all add: io_ok_def)

definition example_section :: section_t where
  "example_section = \<lparr>sec_id = 1, sec_free_map = free_map_init 3, sec_block_size = 2, sec_dirty = False,
     sec_open = False, sec_file = None, sec_meta = None, sec_plan = None\<rparr>"

lemma example_section_wf: "section_wf example_section"
proof -
  have "used_slots (free_map_init 3) = {}"
    by (simp add: used_slots_def) (simp add: free_map_init_def)
  then show ?thesis
    by (simp add: section_wf_def example_section_def free_map_init_wf) (simp add: free_map_init_def)
qed

section \<open>Properties\<close>



text \<open>C5. A block whose write was acknowledged with slot \<open>i\<close> is read back from slot \<open>i\<close> after any further
  requests, whatever the file system does to them, as long as none deallocates the slot or defragments
  the section.\<close>

theorem section_acknowledged_write_persists:
  assumes "section_wf s"
    and "section_dispatch io (Some a) (SECTION_WRITE d) s = (s1, [(a, SECTION_WRITE_RESULT c i full)])"
    and "SECTION_DEFRAGMENT \<notin> snd ` snd ` set qs" and "SECTION_DEALLOCATE i \<notin> snd ` snd ` set qs"
    and "fst (section_run qs s1) = s2"
    and "io_open io'" and "io_pread io' (i * sec_block_size s)"
  shows "section_dispatch io' (Some b) (SECTION_READ i) s2 = (s2, [(b, SECTION_READ_RESULT i d)])"
proof -
  from section_dispatch_refines [OF assms(1) _ assms(2)] obtain r where
      s1: "section_wf s1" "sec_block_size s1 = sec_block_size s"
      and r: "[(a, SECTION_WRITE_RESULT c i full)] = section_send (Some a) r"
      and step: "store_step (sec_block_size s) (section_blocks s) (SECTION_WRITE d) r (section_blocks s1)"
    by auto
  have "r = Some (SECTION_WRITE_RESULT c i full)"
    using r by (auto simp: section_send_def split: option.splits)
  with step have held: "section_blocks s1 i = Some d" by (auto elim: store_step.cases)
  obtain outs where run: "section_run qs s1 = (s2, outs)" using assms(5) by (metis prod.collapse)
  from section_run_refines [OF s1(1) assms(3) run] have
      s2: "section_wf s2" "sec_block_size s2 = sec_block_size s"
      and "store_run (sec_block_size s1) (section_blocks s1) (map snd qs) outs (section_blocks s2)"
    using s1(2) by auto
  then have "section_blocks s2 i = Some d"
    using store_run_keeps [of _ _ "map snd qs"] held assms(4) by (metis image_set set_map)
  from section_handle_read_used(2) [OF s2(1) this] assms(6,7) s2(2) show ?thesis
    by (simp add: section_send_def)
qed

theorem section_acknowledged_write_persists_witness:
  "section_dispatch io_ok (Some ()) (SECTION_READ 0)
     (fst (section_run [(io_ok, None :: unit option, SECTION_WRITE [5, 6]), (io_ok, None, SECTION_CLOSE)]
        (fst (section_dispatch io_ok (Some ()) (SECTION_WRITE [1, 2]) example_section)))) =
   (fst (section_run [(io_ok, None :: unit option, SECTION_WRITE [5, 6]), (io_ok, None, SECTION_CLOSE)]
        (fst (section_dispatch io_ok (Some ()) (SECTION_WRITE [1, 2]) example_section))),
    [((), SECTION_READ_RESULT 0 [1, 2])])"
proof -
  have "section_dispatch io_ok (Some ()) (SECTION_WRITE [1, 2]) example_section =
      (fst (section_dispatch io_ok (Some ()) (SECTION_WRITE [1, 2]) example_section),
       [((), SECTION_WRITE_RESULT 0 0 False)])"
    by code_simp
  from section_acknowledged_write_persists [OF example_section_wf this _ _ refl, of
      "[(io_ok, None :: unit option, SECTION_WRITE [5, 6]), (io_ok, None, SECTION_CLOSE)]" io_ok "()"]
  show ?thesis
    by (simp del: section_dispatch.simps section_run.simps)
qed

end
