(* ===== verification/Section_Defrag.thy ===== *)
theory Section_Defrag
  imports Section_Store
begin

text \<open>
  Defragmentation of a section (\<open>SECTION_DEFRAGMENT\<close>, \<open>_section_defrag_plan_recover\<close> and
  \<open>section_create\<close> of \<open>src/src/BlockCache/section.c\<close>): the move loop, the compaction it performs, and
  what recovery makes of the files a crash leaves behind.
\<close>

section \<open>The move loop\<close>

definition io_moves :: "section_io \<Rightarrow> nat \<Rightarrow> bool" where
  "io_moves io bs \<longleftrightarrow> (\<forall>off. io_pread io off \<and> bs \<le> io_pwrite io off)"

definition slots_fit :: "free_map_t \<Rightarrow> nat \<Rightarrow> bytes \<Rightarrow> bool" where
  "slots_fit fm bs f \<longleftrightarrow> (\<forall>i \<in> used_slots fm. i * bs + bs \<le> length f)"

lemma move_blocks_append:
  "move_blocks io bs reloc (xs @ ys) f =
    (case move_blocks io bs reloc xs f of (err, f') \<Rightarrow>
       if err then (True, f') else move_blocks io bs reloc ys f')"
  by (induction xs arbitrary: f) (auto simp: Let_def split: option.splits)

lemma used_slots_rank_fit:
  assumes "slots_fit fm bs f" and "i \<in> used_slots fm"
  shows "slot_rank fm i * bs + bs \<le> length f"
proof -
  have "slot_rank fm i * bs + bs \<le> i * bs + bs"
    using slot_rank_le [of fm i] by simp
  also have "\<dots> \<le> length f" using assms by (simp add: slots_fit_def)
  finally show ?thesis .
qed

lemma slot_rank_inj:
  assumes "i \<in> used_slots fm" and "j \<in> used_slots fm" and "slot_rank fm i = slot_rank fm j"
  shows "i = j"
  using assms slot_rank_bij [of fm] by (auto simp: bij_betw_def dest: inj_onD)

text \<open>After the first \<open>k\<close> slots: their blocks are at their ranks, and no other slot has changed.\<close>

definition moved :: "free_map_t \<Rightarrow> nat \<Rightarrow> nat \<Rightarrow> bytes \<Rightarrow> bytes \<Rightarrow> bool" where
  "moved fm bs k f f' \<longleftrightarrow> length f' = length f \<and>
     (\<forall>i \<in> used_slots fm. i < k \<longrightarrow> slot_data bs f' (slot_rank fm i) = slot_data bs f i) \<and>
     (\<forall>i. i * bs + bs \<le> length f \<longrightarrow> (\<forall>j \<in> used_slots fm. j < k \<longrightarrow> slot_rank fm j = i \<longrightarrow> j = i) \<longrightarrow>
        slot_data bs f' i = slot_data bs f i)"

lemma moved_later:
  assumes "moved fm bs k f f'" and "k \<le> i" and "i * bs + bs \<le> length f"
  shows "slot_data bs f' i = slot_data bs f i"
proof -
  have "\<forall>j \<in> used_slots fm. j < k \<longrightarrow> slot_rank fm j = i \<longrightarrow> j = i"
  proof (intro ballI impI)
    fix j assume "j < k" and "slot_rank fm j = i"
    then show "j = i" using slot_rank_le [of fm j] assms(2) by simp
  qed
  then show ?thesis using assms(1,3) by (simp add: moved_def)
qed

lemma moved_Suc_same:
  assumes "moved fm bs k f f'" and "slots_fit fm bs f" and "k \<in> used_slots fm \<Longrightarrow> slot_rank fm k = k"
  shows "moved fm bs (Suc k) f f'"
proof -
  have "slot_data bs f' k = slot_data bs f k" if "k \<in> used_slots fm"
    using moved_later [OF assms(1)] that assms(2) by (simp add: slots_fit_def)
  then show ?thesis
    using assms(1,3) by (auto simp: moved_def less_Suc_eq)
qed

lemma moved_Suc_write:
  assumes "moved fm bs k f f'" and "slots_fit fm bs f" and "k \<in> used_slots fm" and "slot_rank fm k \<noteq> k"
  shows "moved fm bs (Suc k) f (file_pwrite f' (slot_rank fm k * bs) (slot_data bs f' k))"
    (is "moved _ _ _ _ ?f2")
proof -
  have fit: "k * bs + bs \<le> length f" using assms(2,3) by (simp add: slots_fit_def)
  have len: "length f' = length f" using assms(1) by (simp add: moved_def)
  have dlen: "length (slot_data bs f' k) = bs"
    unfolding slot_data_def by (rule length_file_pread) (use fit len in simp)
  have same: "slot_data bs ?f2 (slot_rank fm k) = slot_data bs f k"
    using slot_data_pwrite_same [OF dlen, of f'] moved_later [OF assms(1) _ fit] by simp
  have other: "slot_data bs ?f2 i = slot_data bs f' i" if "i \<noteq> slot_rank fm k" and "i * bs + bs \<le> length f" for i
    by (rule slot_data_pwrite_other) (use that len dlen in auto)
  have "length ?f2 = length f"
    using used_slots_rank_fit [OF assms(2,3)] len dlen by (auto simp: length_file_pwrite)
  moreover have "slot_data bs ?f2 (slot_rank fm i) = slot_data bs f i" if "i \<in> used_slots fm" and "i < Suc k" for i
  proof (cases "i = k")
    case True
    then show ?thesis using same by simp
  next
    case False
    then have "slot_rank fm i \<noteq> slot_rank fm k" using slot_rank_inj that(1) assms(3) by blast
    then show ?thesis
      using other [OF _ used_slots_rank_fit [OF assms(2) that(1)]] assms(1) that False by (auto simp: moved_def)
  qed
  moreover have "slot_data bs ?f2 i = slot_data bs f i"
    if "i * bs + bs \<le> length f" and "\<forall>j \<in> used_slots fm. j < Suc k \<longrightarrow> slot_rank fm j = i \<longrightarrow> j = i" for i
  proof -
    have "i \<noteq> slot_rank fm k" using that(2) assms(3,4) by auto
    then show ?thesis using other [OF _ that(1)] assms(1) that by (auto simp: moved_def)
  qed
  ultimately show ?thesis unfolding moved_def by blast
qed

lemma move_blocks_moved:
  assumes "free_map_wf fm" and "slots_fit fm bs f" and "io_moves io bs" and "k \<le> total_blocks fm"
  obtains f' where "move_blocks io bs (relocation_of fm) [0..<k] f = (False, f')" and "moved fm bs k f f'"
proof -
  have "\<exists>f'. move_blocks io bs (relocation_of fm) [0..<k] f = (False, f') \<and> moved fm bs k f f'"
    using assms(4)
  proof (induction k)
    case 0
    then show ?case by (simp add: moved_def)
  next
    case (Suc k)
    then obtain f1 where f1: "move_blocks io bs (relocation_of fm) [0..<k] f = (False, f1)" "moved fm bs k f f1"
      by auto
    have k: "k < total_blocks fm" using Suc.prems by simp
    have rel: "relocation_of fm ! k = (if k \<in> used_slots fm then Some (slot_rank fm k) else None)"
      using relocation_of_nth [OF k] used_slots_iff [OF assms(1), of k] k by simp
    have step: "move_blocks io bs (relocation_of fm) [0..<Suc k] f = move_blocks io bs (relocation_of fm) [k] f1"
      using f1(1) by (simp add: move_blocks_append)
    show ?case
    proof (cases "k \<in> used_slots fm \<and> slot_rank fm k \<noteq> k")
      case False
      then show ?thesis
        using step rel f1(2) moved_Suc_same [OF f1(2) assms(2)] by (auto split: if_splits)
    next
      case True
      then have "length (file_pread f1 (k * bs) bs) = bs"
        using assms(2) f1(2) by (intro length_file_pread) (simp add: slots_fit_def moved_def)
      then have "move_blocks io bs (relocation_of fm) [k] f1 =
          (False, file_pwrite f1 (slot_rank fm k * bs) (slot_data bs f1 k))"
        using True rel assms(3) by (simp add: io_moves_def slot_data_def min_absorb2)
      then show ?thesis using step moved_Suc_write [OF f1(2) assms(2)] True by auto
    qed
  qed
  then show ?thesis using that by blast
qed

section \<open>The relocation plan\<close>

lemma slot_rank_bound:
  assumes "i \<in> used_slots fm"
  shows "slot_rank fm i < total_blocks fm"
  using slot_rank_le [of fm i] assms by (simp add: used_slots_def)

lemma length_defrag_plan: "length (defrag_plan_bytes n c reloc) = 8 + 8 * length reloc"
proof -
  have "length (concat (map reloc_bytes reloc)) = 8 * length reloc"
    by (rule length_concat_chunks) (simp add: reloc_bytes_def)
  then show ?thesis by (simp add: defrag_plan_bytes_def)
qed

lemma defrag_plan_roundtrip:
  assumes "free_map_wf fm" and "total_blocks fm < 2 ^ 32" and "c \<le> total_blocks fm"
  defines "plan \<equiv> defrag_plan_bytes (total_blocks fm) c (relocation_of fm)"
  shows "le_nat (take 4 plan) = total_blocks fm" and "le_nat (take 4 (drop 4 plan)) = c"
    and "read_relocation (total_blocks fm) (drop 8 plan) = relocation_of fm"
proof -
  show "le_nat (take 4 plan) = total_blocks fm" and "le_nat (take 4 (drop 4 plan)) = c"
    using assms(2,3) by (simp_all add: plan_def defrag_plan_bytes_def)
  have drop: "drop 8 plan = concat (map reloc_bytes (relocation_of fm)) @ []"
    by (simp add: plan_def defrag_plan_bytes_def)
  have nth: "take 8 (drop (8 * i) (drop 8 plan)) = reloc_bytes (relocation_of fm ! i)" if "i < total_blocks fm" for i
    unfolding drop by (rule chunk_nth) (use that in \<open>simp_all add: reloc_bytes_def\<close>)
  have decode: "(let v = le_nat (reloc_bytes r) in if v = 2 ^ 64 - 1 then None else Some v) = r"
    if "\<forall>j. r = Some j \<longrightarrow> j < 2 ^ 32" for r
    using that by (cases r) (simp_all add: reloc_bytes_def)
  have small: "j < 2 ^ 32" if "i < total_blocks fm" and "relocation_of fm ! i = Some j" for i j
    using that relocation_of_nth [OF that(1)] slot_rank_bound [of i fm] used_slots_iff [OF assms(1), of i] assms(2)
    by (auto split: if_splits)
  show "read_relocation (total_blocks fm) (drop 8 plan) = relocation_of fm"
  proof (rule nth_equalityI)
    show "length (read_relocation (total_blocks fm) (drop 8 plan)) = length (relocation_of fm)"
      by (simp add: read_relocation_def)
    fix i assume "i < length (read_relocation (total_blocks fm) (drop 8 plan))"
    then have i: "i < total_blocks fm" by (simp add: read_relocation_def)
    have "read_relocation (total_blocks fm) (drop 8 plan) ! i =
        (let v = le_nat (take 8 (drop (8 * i) (drop 8 plan))) in if v = 2 ^ 64 - 1 then None else Some v)"
      using i by (simp add: read_relocation_def)
    then show "read_relocation (total_blocks fm) (drop 8 plan) ! i = relocation_of fm ! i"
      using nth [OF i] decode [of "relocation_of fm ! i"] small [OF i] by simp
  qed
qed

section \<open>Compaction\<close>

definition io_works :: "section_io \<Rightarrow> section_t \<Rightarrow> bool" where
  "io_works io s \<longleftrightarrow> io_open io \<and> io_truncate io \<and> io_moves io (sec_block_size s) \<and>
     (\<exists>n. io_plan io = Some n \<and> 8 + 8 * total_blocks (sec_free_map s) \<le> n) \<and>
     (\<exists>n. io_meta io = Some n \<and> 4 + 4 * map_capacity (sec_free_map s) \<le> n)"

definition compact :: "free_map_t \<Rightarrow> bool" where
  "compact fm \<longleftrightarrow> used_slots fm = {0..<card (used_slots fm)}"

text \<open>\<open>s'\<close> holds the blocks of \<open>s\<close>, renumbered without gaps in the order of their slots.\<close>

definition renumbered :: "section_t \<Rightarrow> section_t \<Rightarrow> bool" where
  "renumbered s s' \<longleftrightarrow> section_wf s' \<and> dom (section_blocks s') = {0..<card (dom (section_blocks s))} \<and>
     (\<forall>i \<in> dom (section_blocks s). section_blocks s' (slot_rank (sec_free_map s) i) = section_blocks s i)"

lemma compact_rank:
  assumes "compact fm" and "i \<in> used_slots fm"
  shows "slot_rank fm i = i"
proof -
  have "{j \<in> used_slots fm. j < i} = {0..<i}"
    using assms unfolding compact_def by (metis (no_types, lifting) Collect_cong atLeastLessThan_iff
      atLeastLessThan_upt lessThan_atLeast0 lessThan_def less_trans zero_le)
  then show ?thesis by (simp add: slot_rank_def)
qed

lemma renumbered_compact: "section_wf s \<Longrightarrow> compact (sec_free_map s) \<Longrightarrow> renumbered s s"
  by (simp add: renumbered_def dom_section_blocks compact_rank) (simp add: compact_def)

lemma compact_test:
  assumes "free_map_wf fm"
  shows "total_blocks fm - free_map_count_free fm = 0 \<or> free_map_count_free fm = 0 \<or>
      free_map_highest_used fm < total_blocks fm - free_map_count_free fm \<longleftrightarrow> compact fm"
proof -
  have sub: "used_slots fm \<subseteq> {0..<total_blocks fm}" by (auto simp: used_slots_def)
  have low: "compact fm" if "Max (used_slots fm) < card (used_slots fm)"
    unfolding compact_def
  proof (rule card_subset_eq)
    show "used_slots fm \<subseteq> {0..<card (used_slots fm)}"
    proof
      fix i assume "i \<in> used_slots fm"
      then have "i \<le> Max (used_slots fm)" by simp
      then show "i \<in> {0..<card (used_slots fm)}" using that by simp
    qed
  qed simp_all
  have high: "Max (used_slots fm) < card (used_slots fm)" if "compact fm" and "used_slots fm \<noteq> {}"
    using Max_in [OF used_slots_finite that(2)] that(1) by (auto simp: compact_def)
  have full: "compact fm" if "free_slots fm = {}"
    using that by (simp add: compact_def used_slots_def)
  have count: "free_map_count_free fm = 0 \<longleftrightarrow> free_slots fm = {}" by (simp add: free_map_count_free_card)
  show ?thesis
  proof (cases "used_slots fm = {}")
    case True
    then have "compact fm" by (simp add: compact_def)
    then show ?thesis using True used_count [OF assms] by simp
  next
    case False
    then show ?thesis
      unfolding used_count [OF assms] free_map_highest_used_spec [OF assms] count
      using low high full by (simp add: card_eq_0_iff) blast
  qed
qed

lemma not_compact_file:
  assumes "section_wf s" and "\<not> compact (sec_free_map s)"
  shows "card (used_slots (sec_free_map s)) * sec_block_size s < length (sec_contents s)"
proof -
  note wf = section_wfD [OF assms(1)]
  let ?fm = "sec_free_map s"
  have ne: "used_slots ?fm \<noteq> {}" and le: "card (used_slots ?fm) \<le> Max (used_slots ?fm)"
    using compact_test [OF wf(1)] assms(2) used_count [OF wf(1)] free_map_highest_used_spec [OF wf(1)]
    by (auto simp: not_less split: if_splits)
  have "card (used_slots ?fm) * sec_block_size s \<le> Max (used_slots ?fm) * sec_block_size s"
    using le by (rule mult_le_mono1)
  then show ?thesis using wf(3) wf(4) [OF Max_in [OF used_slots_finite ne]] by linarith
qed

lemma compacted_blocks:
  assumes "section_wf s" and "moved (sec_free_map s) (sec_block_size s) (total_blocks (sec_free_map s)) (sec_contents s) f"
    and "sec_free_map s' = compacted (sec_free_map s)" and "sec_block_size s' = sec_block_size s"
    and "sec_contents s' = file_truncate f (card (used_slots (sec_free_map s)) * sec_block_size s)"
    and "card (used_slots (sec_free_map s)) * sec_block_size s \<le> length (sec_contents s)"
  shows "renumbered s s'"
proof -
  note wf = section_wfD [OF assms(1)] and c = compacted_props [OF section_wfD(1) [OF assms(1)]]
  let ?fm = "sec_free_map s" and ?bs = "sec_block_size s"
  let ?n = "card (used_slots ?fm)"
  have len: "length f = length (sec_contents s)" using assms(2) by (simp add: moved_def)
  have fit: "i * ?bs + ?bs \<le> ?n * ?bs" if "i < ?n" for i
    using slot_offsets [OF that] .
  have wf': "section_wf s'"
    using wf c assms(3-5) fit by (simp add: section_wf_def)
  have dom': "dom (section_blocks s') = {0..<?n}" by (simp add: dom_section_blocks assms(3) c)
  have "section_blocks s' (slot_rank ?fm i) = section_blocks s i" if i: "i \<in> used_slots ?fm" for i
  proof -
    have r: "slot_rank ?fm i < ?n" using slot_rank_bij [of ?fm] i by (auto simp: bij_betw_def)
    have "slot_data ?bs (sec_contents s') (slot_rank ?fm i) = slot_data ?bs f (slot_rank ?fm i)"
      unfolding assms(5) slot_data_def by (rule file_pread_truncate) (use fit [OF r] assms(6) len in auto)
    also have "\<dots> = slot_data ?bs (sec_contents s) i"
      using assms(2) i by (auto simp: moved_def used_slots_def)
    finally show ?thesis using i r by (simp add: section_blocks_def assms(3,4) c)
  qed
  then show ?thesis using wf' dom' by (simp add: renumbered_def dom_section_blocks)
qed

lemma section_slots_fit: "section_wf s \<Longrightarrow> slots_fit (sec_free_map s) (sec_block_size s) (sec_contents s)"
  by (simp add: section_wf_def slots_fit_def)

lemma used_card_le: "card (used_slots fm) \<le> total_blocks fm"
  using card_mono [of "{0..<total_blocks fm}" "used_slots fm"] by (auto simp: used_slots_def)

lemma section_plan_write_ok:
  assumes "io_works io s" and "length reloc = total_blocks (sec_free_map s)"
    and "total_blocks (sec_free_map s') = total_blocks (sec_free_map s)"
  shows "section_defrag_plan_write io reloc n s' =
    (0, s'\<lparr>sec_plan := Some (defrag_plan_bytes (total_blocks (sec_free_map s)) n reloc)\<rparr>)"
  using assms length_defrag_plan [of "total_blocks (sec_free_map s)" n reloc]
  by (auto simp: section_defrag_plan_write_def io_works_def Let_def)

lemma section_defragment_moves:
  assumes "section_wf s" and "io_works io s" and "\<not> compact (sec_free_map s)"
    and "section_handle_defragment io s = (s', (c, rel, n), r)"
  shows "c = 0 \<and> rel = Some (relocation_of (sec_free_map s)) \<and> n = card (used_slots (sec_free_map s)) \<and>
    renumbered s s' \<and> length (sec_contents s') = n * sec_block_size s \<and> sec_plan s' = None \<and>
    sec_dirty s' \<and> sec_id s' = sec_id s \<and> sec_block_size s' = sec_block_size s \<and>
    total_blocks (sec_free_map s') = total_blocks (sec_free_map s)"
proof -
  note wf = section_wfD [OF assms(1)] and c = compacted_props [OF section_wfD(1) [OF assms(1)]]
  let ?fm = "sec_free_map s" and ?bs = "sec_block_size s"
  let ?n = "card (used_slots ?fm)"
  obtain f where f: "move_blocks io ?bs (relocation_of ?fm) [0..<total_blocks ?fm] (sec_contents s) = (False, f)"
      "moved ?fm ?bs (total_blocks ?fm) (sec_contents s) f"
    using move_blocks_moved [OF wf(1) section_slots_fit [OF assms(1)], of io "total_blocks ?fm"] assms(2)
    by (auto simp: io_works_def)
  define s3 where "s3 = s\<lparr>sec_free_map := compacted ?fm,
      sec_plan := Some (defrag_plan_bytes (total_blocks ?fm) ?n (relocation_of ?fm)), sec_open := True,
      sec_file := Some (file_truncate f (?n * ?bs)), sec_dirty := True\<rparr>"
  have "section_handle_defragment io s = (section_defrag_plan_delete (section_save_meta io s3),
      (0, Some (relocation_of ?fm), ?n), Some (SECTION_DEFRAGMENT_RESULT 0 (sec_id s) (relocation_of ?fm) ?n))"
    unfolding section_handle_defragment_def Let_def
    using compact_test [OF wf(1)] assms(2,3) f(1) c(2)
    by (simp add: free_map_defragment_eq [OF wf(1)] section_plan_write_ok [OF assms(2)] s3_def io_works_def
        sec_contents_def [of "_\<lparr>sec_plan := _\<rparr>"] sec_contents_def [symmetric])
  then have s': "s' = section_defrag_plan_delete (section_save_meta io s3)" and "c = 0"
      and "rel = Some (relocation_of ?fm)" and n: "n = ?n"
    using assms(4) by auto
  have cont: "sec_contents s' = file_truncate f (?n * ?bs)"
    by (simp add: s' section_defrag_plan_delete_def sec_contents_def) (simp add: s3_def)
  have "renumbered s s'"
    by (rule compacted_blocks [OF assms(1) f(2) _ _ cont])
      (use not_compact_file [OF assms(1,3)] in \<open>simp_all add: s' section_defrag_plan_delete_def s3_def\<close>)
  moreover have "sec_dirty s'" "sec_id s' = sec_id s" "sec_block_size s' = ?bs" "total_blocks (sec_free_map s') = total_blocks ?fm"
    by (simp_all add: s' section_defrag_plan_delete_def section_save_meta_def s3_def c(2) split: option.splits)
  ultimately show ?thesis
    using \<open>c = 0\<close> \<open>rel = _\<close> n cont by (simp add: s' section_defrag_plan_delete_def)
qed

section \<open>Recovery\<close>

text \<open>The files after a crash: the plan is complete and the first \<open>k\<close> slots have been processed, or the
  file has also been truncated. The metadata file still holds the old bitmap.\<close>

definition defrag_plan_of :: "section_t \<Rightarrow> bytes" where
  "defrag_plan_of s = defrag_plan_bytes (total_blocks (sec_free_map s)) (card (used_slots (sec_free_map s)))
     (relocation_of (sec_free_map s))"

definition crashed_in_moves :: "section_io \<Rightarrow> nat \<Rightarrow> section_t \<Rightarrow> bytes option \<times> bytes option \<times> bytes option" where
  "crashed_in_moves io k s =
     (Some (snd (move_blocks io (sec_block_size s) (relocation_of (sec_free_map s)) [0..<k] (sec_contents s))),
      sec_meta s, Some (defrag_plan_of s))"

definition crashed_after_truncate :: "section_io \<Rightarrow> section_t \<Rightarrow> bytes option \<times> bytes option \<times> bytes option" where
  "crashed_after_truncate io s =
     (Some (file_truncate
        (snd (move_blocks io (sec_block_size s) (relocation_of (sec_free_map s)) [0..<total_blocks (sec_free_map s)]
           (sec_contents s)))
        (card (used_slots (sec_free_map s)) * sec_block_size s)),
      sec_meta s, Some (defrag_plan_of s))"

definition meta_current :: "section_t \<Rightarrow> bool" where
  "meta_current s \<longleftrightarrow> sec_meta s = Some (free_map_serialize (sec_free_map s))"

lemma length_free_map_serialize: "length (free_map_serialize fm) = 4 + 4 * map_capacity fm"
proof -
  have "length (concat (map (\<lambda>w. le_bytes 4 (unat w)) (fm_map fm))) = 4 * map_capacity fm"
    by (rule length_concat_chunks) simp
  then show ?thesis by (simp add: free_map_serialize_def)
qed

lemma compacted_rebuild:
  "fm\<lparr>fm_map := set_free_range (card (used_slots fm)) (total_blocks fm) (replicate (map_capacity fm) 0)\<rparr> =
    compacted fm"
  by (simp add: compacted_def)

text \<open>What \<open>section_create\<close> makes of a data file \<open>f\<close> found beside the old metadata and the plan.\<close>

lemma section_create_plan:
  fixes f :: bytes
  assumes "section_wf s" and "meta_current s" and "io_works io s"
  defines "m \<equiv> card (used_slots (sec_free_map s)) * sec_block_size s"
  defines "f' \<equiv> snd (move_blocks io (sec_block_size s) (relocation_of (sec_free_map s))
      [0..<total_blocks (sec_free_map s)] f)"
  assumes "m < length f \<Longrightarrow> \<not> fst (move_blocks io (sec_block_size s) (relocation_of (sec_free_map s))
      [0..<total_blocks (sec_free_map s)] f)"
  obtains s' where "section_create io (Some f, sec_meta s, Some (defrag_plan_of s)) sz ident (sec_block_size s) = Some s'"
    and "sec_free_map s' = compacted (sec_free_map s)" and "sec_block_size s' = sec_block_size s"
    and "sec_contents s' = (if length f \<le> m then f else file_truncate f' m)" and "sec_plan s' = None"
proof -
  note wf = section_wfD [OF assms(1)]
  let ?fm = "sec_free_map s"
  let ?s0 = "\<lparr>sec_id = ident, sec_free_map = ?fm, sec_block_size = sec_block_size s, sec_dirty = False,
      sec_open = False, sec_file = Some f, sec_meta = sec_meta s, sec_plan = Some (defrag_plan_of s)\<rparr>"
  obtain n k where io: "io_plan io = Some n" "8 + 8 * total_blocks ?fm \<le> n" "io_open io" "io_truncate io"
      "io_meta io = Some k" "4 + 4 * map_capacity ?fm \<le> k"
    using assms(3) by (auto simp: io_works_def)
  have plan: "length (defrag_plan_of s) = 8 + 8 * total_blocks ?fm"
    by (simp add: defrag_plan_of_def length_defrag_plan)
  note rt = defrag_plan_roundtrip [OF wf(1,2) used_card_le, folded defrag_plan_of_def]
  have cont: "sec_contents ?s0 = f" by (simp add: sec_contents_def)
  obtain err where mv: "move_blocks io (sec_block_size s) (relocation_of ?fm) [0..<total_blocks ?fm] f = (err, f')"
    by (metis f'_def prod.collapse)
  let ?g = "if length f \<le> m then f else file_truncate f' m"
  have "section_defrag_plan_recover io ?s0 = (0, section_defrag_plan_delete (section_save_meta io
      (?s0\<lparr>sec_open := True, sec_file := Some ?g, sec_free_map := compacted ?fm\<rparr>)))"
    using io plan rt mv assms(6) cont
    by (auto simp: section_defrag_plan_recover_def Let_def m_def [symmetric] compacted_rebuild not_le)
  moreover have "free_map_deserialize (free_map_serialize ?fm) = Some ?fm"
    using free_map_roundtrip [OF wf(1,2), of "[]"] by simp
  ultimately have "section_create io (Some f, sec_meta s, Some (defrag_plan_of s)) sz ident (sec_block_size s) =
      Some (section_defrag_plan_delete (section_save_meta io
        (?s0\<lparr>sec_open := True, sec_file := Some ?g, sec_free_map := compacted ?fm\<rparr>)))"
    using assms(2) io(5,6) length_free_map_serialize [of ?fm]
    by (simp add: section_create_def meta_current_def)
  then show ?thesis
    by (rule that) (simp_all add: section_defrag_plan_delete_def sec_contents_def)
qed

text \<open>The recovery moves every block again, from the file as the crash left it.\<close>

lemma section_recovers_moves:
  assumes "section_wf s" and "meta_current s" and "io_works io s" and "\<not> compact (sec_free_map s)"
    and "k \<le> total_blocks (sec_free_map s)"
  obtains s' f1 where "section_create io (crashed_in_moves io k s) sz ident (sec_block_size s) = Some s'"
    and "sec_free_map s' = compacted (sec_free_map s)" and "sec_block_size s' = sec_block_size s" and "sec_plan s' = None"
    and "moved (sec_free_map s) (sec_block_size s) k (sec_contents s) f1"
    and "renumbered (s\<lparr>sec_file := Some f1\<rparr>) s'"
proof -
  note wf = section_wfD [OF assms(1)]
  let ?fm = "sec_free_map s" and ?bs = "sec_block_size s"
  have io: "io_moves io ?bs" using assms(3) by (simp add: io_works_def)
  obtain f1 where f1: "move_blocks io ?bs (relocation_of ?fm) [0..<k] (sec_contents s) = (False, f1)"
      "moved ?fm ?bs k (sec_contents s) f1"
    using move_blocks_moved [OF wf(1) section_slots_fit [OF assms(1)] io assms(5)] by blast
  have len: "length f1 = length (sec_contents s)" using f1(2) by (simp add: moved_def)
  let ?s1 = "s\<lparr>sec_file := Some f1\<rparr>"
  have c1: "sec_contents ?s1 = f1" by (simp add: sec_contents_def)
  have wf1: "section_wf ?s1" using wf len c1 by (simp add: section_wf_def)
  obtain f2 where f2: "move_blocks io ?bs (relocation_of ?fm) [0..<total_blocks ?fm] f1 = (False, f2)"
      "moved ?fm ?bs (total_blocks ?fm) f1 f2"
    using move_blocks_moved [OF wf(1) _ io order_refl, of f1] section_slots_fit [OF wf1] c1 by auto
  obtain s' where s': "section_create io (Some f1, sec_meta s, Some (defrag_plan_of s)) sz ident ?bs = Some s'"
      "sec_free_map s' = compacted ?fm" "sec_block_size s' = ?bs"
      "sec_contents s' = (if length f1 \<le> card (used_slots ?fm) * ?bs then f1
         else file_truncate (snd (move_blocks io ?bs (relocation_of ?fm) [0..<total_blocks ?fm] f1)) (card (used_slots ?fm) * ?bs))"
      "sec_plan s' = None"
    by (rule section_create_plan [OF assms(1-3), of f1 sz ident]) (use f2 in auto)
  have "renumbered ?s1 s'"
    by (rule compacted_blocks [OF wf1, of f2])
      (use s' f2 c1 len not_compact_file [OF assms(1,4)] in auto)
  then show ?thesis
    using that [OF _ s'(2,3,5) f1(2)] s'(1) f1(1) by (simp add: crashed_in_moves_def)
qed

lemma crash_in_moves_safe:
  assumes "section_wf s" and "moved (sec_free_map s) (sec_block_size s) k (sec_contents s) f1"
    and "\<forall>j \<in> used_slots (sec_free_map s). j < k \<longrightarrow> slot_rank (sec_free_map s) j \<noteq> j \<longrightarrow>
      slot_rank (sec_free_map s) j \<notin> used_slots (sec_free_map s)"
  shows "section_blocks (s\<lparr>sec_file := Some f1\<rparr>) = section_blocks s"
proof
  fix i
  show "section_blocks (s\<lparr>sec_file := Some f1\<rparr>) i = section_blocks s i"
  proof (cases "i \<in> used_slots (sec_free_map s)")
    case True
    then have "\<forall>j \<in> used_slots (sec_free_map s). j < k \<longrightarrow> slot_rank (sec_free_map s) j = i \<longrightarrow> j = i"
      using assms(3) by auto
    then have "slot_data (sec_block_size s) f1 i = slot_data (sec_block_size s) (sec_contents s) i"
      using assms(2) section_wfD(4) [OF assms(1) True] by (simp add: moved_def)
    then show ?thesis using True by (simp add: section_blocks_def sec_contents_def [of "_\<lparr>sec_file := _\<rparr>"])
  qed (simp add: section_blocks_def)
qed

lemma section_recovers_truncated:
  assumes "section_wf s" and "meta_current s" and "io_works io s" and "\<not> compact (sec_free_map s)"
  obtains s' where "section_create io (crashed_after_truncate io s) sz ident (sec_block_size s) = Some s'"
    and "renumbered s s'" and "sec_plan s' = None"
proof -
  note wf = section_wfD [OF assms(1)]
  let ?fm = "sec_free_map s" and ?bs = "sec_block_size s"
  let ?m = "card (used_slots ?fm) * ?bs"
  obtain f where f: "move_blocks io ?bs (relocation_of ?fm) [0..<total_blocks ?fm] (sec_contents s) = (False, f)"
      "moved ?fm ?bs (total_blocks ?fm) (sec_contents s) f"
    using move_blocks_moved [OF wf(1) section_slots_fit [OF assms(1)], of io "total_blocks ?fm"] assms(3)
    by (auto simp: io_works_def)
  obtain s' where s': "section_create io (Some (file_truncate f ?m), sec_meta s, Some (defrag_plan_of s)) sz ident ?bs = Some s'"
      "sec_free_map s' = compacted ?fm" "sec_block_size s' = ?bs" "sec_contents s' = file_truncate f ?m" "sec_plan s' = None"
    by (rule section_create_plan [OF assms(1-3), of "file_truncate f ?m" sz ident]) auto
  have "renumbered s s'"
    by (rule compacted_blocks [OF assms(1) f(2) s'(2-4)]) (use not_compact_file [OF assms(1,4)] in simp)
  then show ?thesis
    using that [OF _ _ s'(5)] s'(1) f(1) by (simp add: crashed_after_truncate_def)
qed

text \<open>Three slots of one byte, the first one free.\<close>

definition example_holes :: section_t where
  "example_holes = \<lparr>sec_id = 1, sec_free_map = \<lparr>fm_map = [1], total_blocks = 3\<rparr>, sec_block_size = 1,
     sec_dirty = False, sec_open = False, sec_file = Some [0, 7, 8],
     sec_meta = Some (free_map_serialize \<lparr>fm_map = [1], total_blocks = 3\<rparr>), sec_plan = None\<rparr>"

lemma example_holes_free: "free_slots \<lparr>fm_map = [1], total_blocks = 3\<rparr> = {0}"
  by (auto simp: free_slots_def slot_free_def bit_1_iff)

lemma example_holes_used: "used_slots (sec_free_map example_holes) = {1, 2}"
  by (auto simp: used_slots_def example_holes_def example_holes_free)

lemma example_holes_rank:
  "slot_rank (sec_free_map example_holes) 1 = 0" "slot_rank (sec_free_map example_holes) 2 = 1"
proof -
  have "{j. (j = Suc 0 \<or> j = 2) \<and> j < Suc 0} = {}" and "{j. (j = Suc 0 \<or> j = 2) \<and> j < 2} = {Suc 0}" by auto
  then show "slot_rank (sec_free_map example_holes) 1 = 0" "slot_rank (sec_free_map example_holes) 2 = 1"
    by (simp_all add: slot_rank_def example_holes_used)
qed

lemma example_holes_ok:
  "section_wf example_holes" "meta_current example_holes" "io_works io_ok example_holes"
  "\<not> compact (sec_free_map example_holes)"
proof -
  have "free_map_wf (sec_free_map example_holes)"
    by (simp add: free_map_wf_def example_holes_def example_holes_free)
  then show "section_wf example_holes"
    using example_holes_used by (simp add: section_wf_def) (simp add: example_holes_def sec_contents_def)
  show "meta_current example_holes" by (simp add: meta_current_def example_holes_def)
  show "io_works io_ok example_holes" by (simp add: io_works_def io_moves_def example_holes_def)
  show "\<not> compact (sec_free_map example_holes)" by (auto simp: compact_def example_holes_used)
qed

lemma example_holes_blocks:
  "section_blocks example_holes = [1 \<mapsto> [7], 2 \<mapsto> [8]]"
  using example_holes_used
  by (auto simp: section_blocks_def slot_data_def file_pread_def fun_eq_iff) (simp_all add: example_holes_def sec_contents_def)

section \<open>Properties\<close>

text \<open>C14. When the file system works, a defragmentation succeeds and is a renumbering of the blocks: the
  blocks occupy the first slots, in the order they had, each with its content. The returned relocation
  gives for every slot its new number, the file is cut to the blocks and the plan is removed; without a
  relocation the section was compact already and is unchanged.\<close>

theorem section_defragment_compacts:
  assumes "section_wf s" and "io_works io s" and "section_handle_defragment io s = (s', (c, rel, n), r)"
  shows "c = 0 \<and> n = card (dom (section_blocks s)) \<and> renumbered s s' \<and>
    (case rel of
       None \<Rightarrow> s' = s
     | Some reloc \<Rightarrow> reloc = map (\<lambda>i. if section_blocks s i = None then None else Some (slot_rank (sec_free_map s) i))
           [0..<total_blocks (sec_free_map s)] \<and>
         length (sec_contents s') = n * sec_block_size s \<and> sec_plan s' = None)"
proof (cases "compact (sec_free_map s)")
  case True
  note wf = section_wfD [OF assms(1)]
  have "section_handle_defragment io s = (s, (0, None, card (used_slots (sec_free_map s))), None)"
    using True unfolding section_handle_defragment_def Let_def compact_test [OF wf(1)]
    by (simp add: used_count [OF wf(1)])
  then show ?thesis
    using assms renumbered_compact [OF assms(1) True] by (auto simp: dom_section_blocks)
next
  case False
  note wf = section_wfD [OF assms(1)]
  have "relocation_of (sec_free_map s) =
      map (\<lambda>i. if section_blocks s i = None then None else Some (slot_rank (sec_free_map s) i)) [0..<total_blocks (sec_free_map s)]"
    using used_slots_iff [OF wf(1)] by (auto simp: relocation_of_def section_blocks_def)
  then show ?thesis
    using section_defragment_moves [OF assms(1,2) False assms(3)] by (simp add: dom_section_blocks)
qed

theorem section_defragment_compacts_witness:
  "\<exists>s' rel r. section_handle_defragment io_ok example_holes = (s', (0, rel, 2), r) \<and> renumbered example_holes s'"
proof -
  obtain s' c rel n r where h: "section_handle_defragment io_ok example_holes = (s', (c, rel, n), r)"
    by (metis prod.collapse)
  have "card (dom (section_blocks example_holes)) = 2"
    by (simp add: dom_section_blocks example_holes_used)
  with section_defragment_compacts [OF example_holes_ok(1,3) h] h show ?thesis by auto
qed

text \<open>C17. A crash during a defragmentation is repaired by \<open>section_create\<close> when it happens after the file was
  truncated, or while the blocks moved so far only went to slots that were free: the section comes up with
  all its blocks renumbered and without a plan.\<close>

theorem section_recovery_completes:
  assumes "section_wf s" and "meta_current s" and "io_works io s" and "\<not> compact (sec_free_map s)"
    and "files = crashed_after_truncate io s \<or>
      (\<exists>k \<le> total_blocks (sec_free_map s). files = crashed_in_moves io k s \<and>
        (\<forall>j \<in> dom (section_blocks s). j < k \<longrightarrow> slot_rank (sec_free_map s) j \<noteq> j \<longrightarrow>
           section_blocks s (slot_rank (sec_free_map s) j) = None))"
  shows "\<exists>s'. section_create io files sz ident (sec_block_size s) = Some s' \<and> renumbered s s' \<and> sec_plan s' = None"
  using assms(5)
proof
  assume "files = crashed_after_truncate io s"
  then show ?thesis using section_recovers_truncated [OF assms(1-4)] by metis
next
  assume "\<exists>k \<le> total_blocks (sec_free_map s). files = crashed_in_moves io k s \<and>
        (\<forall>j \<in> dom (section_blocks s). j < k \<longrightarrow> slot_rank (sec_free_map s) j \<noteq> j \<longrightarrow>
           section_blocks s (slot_rank (sec_free_map s) j) = None)"
  then obtain k where k: "k \<le> total_blocks (sec_free_map s)" "files = crashed_in_moves io k s"
      "\<forall>j \<in> used_slots (sec_free_map s). j < k \<longrightarrow> slot_rank (sec_free_map s) j \<noteq> j \<longrightarrow>
        slot_rank (sec_free_map s) j \<notin> used_slots (sec_free_map s)"
    by (auto simp: domIff dom_section_blocks [symmetric])
  obtain s' f1 where s': "section_create io files sz ident (sec_block_size s) = Some s'" "sec_plan s' = None"
      "moved (sec_free_map s) (sec_block_size s) k (sec_contents s) f1" "renumbered (s\<lparr>sec_file := Some f1\<rparr>) s'"
    using section_recovers_moves [OF assms(1-4) k(1)] k(2) by metis
  have "renumbered s s'"
    using s'(4) crash_in_moves_safe [OF assms(1) s'(3) k(3)] by (simp add: renumbered_def)
  then show ?thesis using s' by blast
qed

theorem section_recovery_completes_witness:
  "\<exists>s'. section_create io_ok (crashed_in_moves io_ok 2 example_holes) 3 1 1 = Some s' \<and>
     renumbered example_holes s' \<and> sec_plan s' = None"
proof -
  have "sec_block_size example_holes = 1" and "total_blocks (sec_free_map example_holes) = 3"
    by (simp_all add: example_holes_def)
  moreover have "\<forall>j \<in> dom (section_blocks example_holes). j < 2 \<longrightarrow>
      section_blocks example_holes (slot_rank (sec_free_map example_holes) j) = None"
    using example_holes_rank by (auto simp: example_holes_blocks)
  ultimately show ?thesis
    using section_recovery_completes [OF example_holes_ok, of "crashed_in_moves io_ok 2 example_holes" 3 1] by fastforce
qed

text \<open>C29. A crash after a block has been moved onto a slot that was in use loses a block: recovery repeats the
  moves on the changed file, so where slot \<open>j\<close> had been moved onto slot \<open>i\<close>, the recovered section has the
  block of \<open>j\<close> in the place of the block of \<open>i\<close>.\<close>

theorem section_recovery_overwrites:
  assumes "section_wf s" and "meta_current s" and "io_works io s" and "\<not> compact (sec_free_map s)"
    and "k \<le> total_blocks (sec_free_map s)" and "j < k" and "section_blocks s j = Some b"
    and "slot_rank (sec_free_map s) j = i" and "section_blocks s i \<noteq> None"
  shows "\<exists>s'. section_create io (crashed_in_moves io k s) sz ident (sec_block_size s) = Some s' \<and>
    section_blocks s' (slot_rank (sec_free_map s) i) = Some b"
proof -
  let ?fm = "sec_free_map s" and ?bs = "sec_block_size s"
  have used: "j \<in> used_slots ?fm" "i \<in> used_slots ?fm" and b: "b = slot_data ?bs (sec_contents s) j"
    using assms(7,9) by (auto simp: section_blocks_def split: if_splits)
  obtain s' f1 where s': "section_create io (crashed_in_moves io k s) sz ident ?bs = Some s'"
      "moved ?fm ?bs k (sec_contents s) f1" "renumbered (s\<lparr>sec_file := Some f1\<rparr>) s'"
    using section_recovers_moves [OF assms(1-5)] by metis
  have "section_blocks (s\<lparr>sec_file := Some f1\<rparr>) i = Some (slot_data ?bs f1 i)"
    using used by (simp add: section_blocks_def sec_contents_def)
  also have "slot_data ?bs f1 i = b"
    using s'(2) used(1) assms(6,8) b by (auto simp: moved_def)
  finally have "section_blocks s' (slot_rank ?fm i) = Some b"
    using s'(3) by (force simp: renumbered_def)
  then show ?thesis using s'(1) by blast
qed

theorem section_recovery_overwrites_witness:
  "section_blocks example_holes 1 = Some [7] \<and> section_blocks example_holes 2 = Some [8] \<and>
   (\<exists>s'. section_create io_ok (crashed_in_moves io_ok 3 example_holes) 3 1 1 = Some s' \<and>
     section_blocks s' 0 = Some [8])"
proof -
  have "sec_block_size example_holes = 1" and "total_blocks (sec_free_map example_holes) = 3"
    by (simp_all add: example_holes_def)
  then show ?thesis
    using section_recovery_overwrites [OF example_holes_ok, of 3 2 "[8]" 1 3 1] example_holes_rank
    by (simp add: example_holes_blocks)
qed

text \<open>C30. A defragmentation whose truncation fails reports an error and restores the bitmap, but the blocks
  have been moved: a slot \<open>i\<close> that received the block of slot \<open>j\<close> now returns that block.\<close>

theorem section_failed_defragment_corrupts:
  assumes "section_wf s" and "io_works (io\<lparr>io_truncate := True\<rparr>) s" and "\<not> io_truncate io"
    and "\<not> compact (sec_free_map s)" and "section_blocks s j = Some b"
    and "slot_rank (sec_free_map s) j = i" and "section_blocks s i \<noteq> None"
  shows "\<exists>s' r. section_handle_defragment io s = (s', (-1, None, 0), r) \<and>
    sec_free_map s' = sec_free_map s \<and> section_blocks s' i = Some b"
proof -
  note wf = section_wfD [OF assms(1)] and c = compacted_props [OF section_wfD(1) [OF assms(1)]]
  let ?fm = "sec_free_map s" and ?bs = "sec_block_size s"
  have used: "j \<in> used_slots ?fm" "i \<in> used_slots ?fm" "j < total_blocks ?fm" and b: "b = slot_data ?bs (sec_contents s) j"
    using assms(5,7) by (auto simp: section_blocks_def used_slots_def split: if_splits)
  have io: "io_moves io ?bs" "io_open io" using assms(2) by (auto simp: io_works_def io_moves_def)
  obtain f where f: "move_blocks io ?bs (relocation_of ?fm) [0..<total_blocks ?fm] (sec_contents s) = (False, f)"
      "moved ?fm ?bs (total_blocks ?fm) (sec_contents s) f"
    using move_blocks_moved [OF wf(1) section_slots_fit [OF assms(1)] io(1) order_refl] by blast
  have plan: "section_defrag_plan_write io reloc n s1 = section_defrag_plan_write (io\<lparr>io_truncate := True\<rparr>) reloc n s1"
    for reloc n s1 by (simp add: section_defrag_plan_write_def)
  define s2 where "s2 = s\<lparr>sec_plan := Some (defrag_plan_of s), sec_open := True, sec_file := Some f\<rparr>"
  have "section_handle_defragment io s = (s2, (-1, None, 0), None)"
    unfolding section_handle_defragment_def Let_def plan
    using compact_test [OF wf(1)] assms(3,4) f(1) c(2) io(2)
    by (simp add: free_map_defragment_eq [OF wf(1)] section_plan_write_ok [OF assms(2)] s2_def defrag_plan_of_def
        sec_contents_def [of "_\<lparr>sec_plan := _\<rparr>"] sec_contents_def [symmetric])
  moreover have "slot_data ?bs f i = b"
    using f(2) used assms(6) b by (auto simp: moved_def)
  then have "section_blocks s2 i = Some b"
    using used(2) by (simp add: section_blocks_def sec_contents_def s2_def)
  moreover have "sec_free_map s2 = ?fm" by (simp add: s2_def)
  ultimately show ?thesis by blast
qed

theorem section_failed_defragment_corrupts_witness:
  "section_blocks example_holes 1 = Some [7] \<and>
   (\<exists>s' r. section_handle_defragment (io_ok\<lparr>io_truncate := False\<rparr>) example_holes = (s', (-1, None, 0), r) \<and>
     sec_free_map s' = sec_free_map example_holes \<and> section_blocks s' 1 = Some [8])"
proof -
  have "io_works (io_ok\<lparr>io_truncate := False, io_truncate := True\<rparr>) example_holes"
    using example_holes_ok(3) by (simp add: io_works_def io_moves_def)
  from section_failed_defragment_corrupts [OF example_holes_ok(1) this, of 2 "[8]" 1]
  show ?thesis
    using example_holes_ok(4) example_holes_rank by (simp add: example_holes_blocks)
qed

text \<open>C18. A section that is closed and created again from its files holds the same blocks, provided its
  metadata was current or it was marked dirty.\<close>

theorem section_reopen_keeps_blocks:
  assumes "section_wf s" and "sec_dirty s \<or> meta_current s" and "sec_plan s = None" and "io_works io s"
  shows "\<exists>s'. section_create io (section_files (section_destroy io s)) sz ident (sec_block_size s) = Some s' \<and>
    section_wf s' \<and> section_blocks s' = section_blocks s"
proof -
  note wf = section_wfD [OF assms(1)]
  let ?fm = "sec_free_map s"
  obtain n where io: "io_meta io = Some n" "4 + 4 * map_capacity ?fm \<le> n" using assms(4) by (auto simp: io_works_def)
  have "section_files (section_destroy io s) = (sec_file s, Some (free_map_serialize ?fm), None)"
    using assms(2,3) io length_free_map_serialize [of ?fm]
    by (auto simp: section_files_def section_destroy_def section_save_meta_def meta_current_def)
  moreover have "free_map_deserialize (free_map_serialize ?fm) = Some ?fm"
    using free_map_roundtrip [OF wf(1,2), of "[]"] by simp
  ultimately have c: "section_create io (section_files (section_destroy io s)) sz ident (sec_block_size s) =
      Some \<lparr>sec_id = ident, sec_free_map = ?fm, sec_block_size = sec_block_size s, sec_dirty = False, sec_open = False,
        sec_file = sec_file s, sec_meta = Some (free_map_serialize ?fm), sec_plan = None\<rparr>" (is "_ = Some ?s'")
    using io length_free_map_serialize [of ?fm]
    by (simp add: section_create_def section_defrag_plan_recover_def)
  have "section_blocks ?s' = section_blocks s" and "section_wf ?s' = section_wf s"
    by (rule section_blocks_cong; simp add: sec_contents_def)+
  then show ?thesis using c assms(1) by blast
qed

theorem section_reopen_keeps_blocks_witness:
  "\<exists>s'. section_create io_ok (section_files (section_destroy io_ok example_holes)) 3 1 1 = Some s' \<and>
     section_blocks s' = [1 \<mapsto> [7], 2 \<mapsto> [8]]"
proof -
  have "sec_plan example_holes = None" and "sec_block_size example_holes = 1" by (simp_all add: example_holes_def)
  then show ?thesis
    using section_reopen_keeps_blocks [OF example_holes_ok(1) _ _ example_holes_ok(3), of 3 1] example_holes_ok(2)
    by (auto simp: example_holes_blocks)
qed

end
