(* ===== verification/Lru.thy ===== *)
theory Lru
  imports Prelude
begin

text \<open>
  The least-recently-used caches \<open>sections_lru_cache_*\<close> (\<open>src/src/BlockCache/sections.c\<close>) and
  \<open>block_lru_cache_*\<close> (\<open>src/src/BlockCache/block_cache.c\<close>): a hash map from keys to nodes that also form
  a doubly linked list, most recent first. The two C copies share their link code, so it is written
  once here for any key and value. A node pointer is the key the node is stored under; a write through
  a null pointer has no effect, and the invariant shows that none occurs.
\<close>

record ('k, 'v) lru_node =
  node_value :: 'v
  node_next :: "'k option"
  node_previous :: "'k option"

record ('k, 'v) lru_cache_t =
  lru_cache :: "'k \<Rightarrow> ('k, 'v) lru_node option"
  lru_count :: nat
  lru_first :: "'k option"
  lru_last :: "'k option"
  lru_size :: nat

section \<open>Operations\<close>

definition lru_cache_create :: "nat \<Rightarrow> ('k, 'v) lru_cache_t" where
  "lru_cache_create n = \<lparr>lru_cache = (\<lambda>_. None), lru_count = 0, lru_first = None, lru_last = None, lru_size = n\<rparr>"

definition node_write ::
  "'k option \<Rightarrow> (('k, 'v) lru_node \<Rightarrow> ('k, 'v) lru_node) \<Rightarrow> ('k, 'v) lru_cache_t \<Rightarrow> ('k, 'v) lru_cache_t" where
  "node_write p f lru =
     (case p of None \<Rightarrow> lru
      | Some k \<Rightarrow> lru\<lparr>lru_cache := (lru_cache lru)(k := map_option f (lru_cache lru k))\<rparr>)"

definition lru_cache_contains :: "('k, 'v) lru_cache_t \<Rightarrow> 'k \<Rightarrow> bool" where
  "lru_cache_contains lru k \<longleftrightarrow> lru_cache lru k \<noteq> None"

definition lru_cache_move :: "('k, 'v) lru_cache_t \<Rightarrow> 'k \<Rightarrow> ('k, 'v) lru_cache_t" where
  "lru_cache_move lru k =
     (case lru_cache lru k of None \<Rightarrow> lru | Some node \<Rightarrow>
      case lru_first lru of
        None \<Rightarrow> lru\<lparr>lru_first := Some k, lru_last := Some k\<rparr>
      | Some first \<Rightarrow>
          if first = k then lru
          else if lru_first lru = lru_last lru
          then let lru = node_write (Some k) (\<lambda>n. n\<lparr>node_next := Some first\<rparr>) lru;
                   lru = node_write (Some first) (\<lambda>n. n\<lparr>node_previous := Some k\<rparr>) lru
               in lru\<lparr>lru_last := Some first, lru_first := Some k\<rparr>
          else if lru_last lru = Some k
          then let lru = lru\<lparr>lru_last := node_previous node\<rparr>;
                   lru = node_write (node_previous node) (\<lambda>n. n\<lparr>node_next := None\<rparr>) lru;
                   lru = node_write (Some k) (\<lambda>n. n\<lparr>node_next := Some first, node_previous := None\<rparr>) lru;
                   lru = node_write (Some first) (\<lambda>n. n\<lparr>node_previous := Some k\<rparr>) lru
               in lru\<lparr>lru_first := Some k\<rparr>
          else if node_next node = None \<and> node_previous node = None
          then let lru = node_write (Some first) (\<lambda>n. n\<lparr>node_previous := Some k\<rparr>) lru;
                   lru = node_write (Some k) (\<lambda>n. n\<lparr>node_next := Some first\<rparr>) lru
               in lru\<lparr>lru_first := Some k\<rparr>
          else let lru = node_write (node_previous node) (\<lambda>n. n\<lparr>node_next := node_next node\<rparr>) lru;
                   lru = node_write (node_next node) (\<lambda>n. n\<lparr>node_previous := node_previous node\<rparr>) lru;
                   lru = node_write (Some first) (\<lambda>n. n\<lparr>node_previous := Some k\<rparr>) lru;
                   lru = node_write (Some k) (\<lambda>n. n\<lparr>node_next := Some first, node_previous := None\<rparr>) lru
               in lru\<lparr>lru_first := Some k\<rparr>)"

definition lru_cache_get :: "('k, 'v) lru_cache_t \<Rightarrow> 'k \<Rightarrow> 'v option \<times> ('k, 'v) lru_cache_t" where
  "lru_cache_get lru k =
     (case lru_cache lru k of
        None \<Rightarrow> (None, lru)
      | Some node \<Rightarrow> (Some (node_value node), lru_cache_move lru k))"

definition hashmap_remove :: "'k \<Rightarrow> ('k, 'v) lru_cache_t \<Rightarrow> ('k, 'v) lru_cache_t" where
  "hashmap_remove k lru =
     (if lru_cache lru k = None then lru
      else lru\<lparr>lru_cache := (lru_cache lru)(k := None), lru_count := lru_count lru - 1\<rparr>)"

definition hashmap_put :: "'k \<Rightarrow> ('k, 'v) lru_node \<Rightarrow> ('k, 'v) lru_cache_t \<Rightarrow> ('k, 'v) lru_cache_t" where
  "hashmap_put k node lru =
     lru\<lparr>lru_cache := (lru_cache lru)(k \<mapsto> node),
         lru_count := (if lru_cache lru k = None then lru_count lru + 1 else lru_count lru)\<rparr>"

definition lru_cache_delete :: "('k, 'v) lru_cache_t \<Rightarrow> 'k \<Rightarrow> ('k, 'v) lru_cache_t" where
  "lru_cache_delete lru k =
     (case lru_cache lru k of
        None \<Rightarrow> lru
      | Some node \<Rightarrow>
          let lru =
            (case node_previous node of
               None \<Rightarrow>
                 (case node_next node of
                    None \<Rightarrow> lru\<lparr>lru_first := None, lru_last := None\<rparr>
                  | Some nx \<Rightarrow> (node_write (Some nx) (\<lambda>n. n\<lparr>node_previous := None\<rparr>) lru)\<lparr>lru_first := Some nx\<rparr>)
             | Some pr \<Rightarrow>
                 (case node_next node of
                    None \<Rightarrow> (node_write (Some pr) (\<lambda>n. n\<lparr>node_next := None\<rparr>) lru)\<lparr>lru_last := Some pr\<rparr>
                  | Some nx \<Rightarrow>
                      node_write (Some pr) (\<lambda>n. n\<lparr>node_next := Some nx\<rparr>)
                        (node_write (Some nx) (\<lambda>n. n\<lparr>node_previous := Some pr\<rparr>) lru)))
          in hashmap_remove k lru)"

text \<open>The tail is unlinked and its value handed to the caller.\<close>

definition lru_evict_last :: "('k, 'v) lru_cache_t \<Rightarrow> ('k \<times> 'v) option \<times> ('k, 'v) lru_cache_t" where
  "lru_evict_last lru =
     (case lru_last lru of
        None \<Rightarrow> (None, lru)
      | Some tail \<Rightarrow>
          (case lru_cache lru tail of
             None \<Rightarrow> (None, lru)
           | Some node \<Rightarrow>
               let lru = (case node_previous node of
                            None \<Rightarrow> lru\<lparr>lru_last := None, lru_first := None\<rparr>
                          | Some pr \<Rightarrow> (node_write (Some pr) (\<lambda>n. n\<lparr>node_next := None\<rparr>) lru)\<lparr>lru_last := Some pr\<rparr>)
               in (Some (tail, node_value node), hashmap_remove tail lru)))"

definition sections_lru_cache_put ::
  "('k, 'v) lru_cache_t \<Rightarrow> 'k \<Rightarrow> 'v \<Rightarrow> ('k \<times> 'v) option \<times> ('k, 'v) lru_cache_t" where
  "sections_lru_cache_put lru k v =
     (if lru_size lru = 0 then (None, lru)
      else case lru_cache lru k of
        Some _ \<Rightarrow> (None, lru_cache_move lru k)
      | None \<Rightarrow>
          (case (if lru_count lru = lru_size lru then lru_evict_last lru else (None, lru)) of
             (ejected, lru) \<Rightarrow>
               (ejected,
                lru_cache_move
                  (hashmap_put k \<lparr>node_value = v, node_next = None, node_previous = None\<rparr> lru) k)))"

text \<open>\<open>block_lru_cache_put\<close> looks the node up before it makes room: when the key is present and is the tail
  of a full cache, the freed node is linked again, and the outcome is undefined.\<close>

definition block_lru_cache_put ::
  "('k, 'v) lru_cache_t \<Rightarrow> 'k \<Rightarrow> 'v \<Rightarrow> (('k \<times> 'v) option \<times> ('k, 'v) lru_cache_t) option" where
  "block_lru_cache_put lru k v =
     (if lru_size lru = 0 then Some (None, lru)
      else if lru_count lru = lru_size lru \<and> lru_last lru = Some k \<and> lru_cache lru k \<noteq> None then None
      else
        case (if lru_count lru = lru_size lru then lru_evict_last lru else (None, lru)) of
          (ejected, lru) \<Rightarrow>
            let node = (case lru_cache lru k of
                          None \<Rightarrow> \<lparr>node_value = v, node_next = None, node_previous = None\<rparr>
                        | Some node \<Rightarrow> node)
            in Some (ejected, lru_cache_move (hashmap_put k node lru) k))"

section \<open>The linked list\<close>

definition hd_opt :: "'a list \<Rightarrow> 'a option \<Rightarrow> 'a option" where
  "hd_opt xs d = (case xs of [] \<Rightarrow> d | x # _ \<Rightarrow> Some x)"

definition last_opt :: "'a option \<Rightarrow> 'a list \<Rightarrow> 'a option" where
  "last_opt d xs = (if xs = [] then d else Some (last xs))"

lemma hd_last_opt_simps [simp]:
  "hd_opt [] d = d" "hd_opt (x # xs) d = Some x" "last_opt d [] = d" "last_opt d (xs @ [x]) = Some x"
  "last_opt d (x # xs) = last_opt (Some x) xs"
  by (simp_all add: hd_opt_def last_opt_def)

lemma hd_opt_append [simp]: "hd_opt (xs @ ys) d = hd_opt xs (hd_opt ys d)"
  by (cases xs) simp_all

lemma last_opt_append [simp]: "last_opt d (xs @ ys) = last_opt (last_opt d xs) ys"
  by (simp add: last_opt_def)

fun dll :: "('k \<Rightarrow> ('k, 'v) lru_node option) \<Rightarrow> 'k option \<Rightarrow> 'k list \<Rightarrow> 'k option \<Rightarrow> bool" where
  "dll c p [] nx \<longleftrightarrow> True"
| "dll c p (x # xs) nx \<longleftrightarrow>
     (\<exists>v. c x = Some \<lparr>node_value = v, node_next = hd_opt xs nx, node_previous = p\<rparr>) \<and> dll c (Some x) xs nx"

lemma dll_append: "dll c p (xs @ ys) nx \<longleftrightarrow> dll c p xs (hd_opt ys nx) \<and> dll c (last_opt p xs) ys nx"
  by (induction xs arbitrary: p) auto

lemma dll_frame: "(\<And>x. x \<in> set xs \<Longrightarrow> c' x = c x) \<Longrightarrow> dll c' p xs nx = dll c p xs nx"
  by (induction xs arbitrary: p) auto

lemma dll_upd [simp]: "x \<notin> set xs \<Longrightarrow> dll (c(x := y)) p xs nx = dll c p xs nx"
  by (rule dll_frame) auto

definition lru_keys :: "('k \<times> 'v) list \<Rightarrow> 'k list" where
  "lru_keys al = map fst al"

text \<open>The cache represents an association list, most recent first.\<close>

definition lru_linked :: "('k, 'v) lru_cache_t \<Rightarrow> 'k list \<Rightarrow> bool" where
  "lru_linked lru xs \<longleftrightarrow> distinct xs \<and> dll (lru_cache lru) None xs None \<and>
     lru_first lru = hd_opt xs None \<and> lru_last lru = last_opt None xs"

definition lru_values :: "('k, 'v) lru_cache_t \<Rightarrow> 'k \<Rightarrow> 'v option" where
  "lru_values lru k = map_option node_value (lru_cache lru k)"

definition lru_rep :: "('k, 'v) lru_cache_t \<Rightarrow> ('k \<times> 'v) list \<Rightarrow> bool" where
  "lru_rep lru al \<longleftrightarrow> lru_linked lru (map fst al) \<and> lru_values lru = map_of al \<and> lru_count lru = length al"

lemma node_write_values [simp]:
  assumes "\<And>n. node_value (f n) = node_value n"
  shows "lru_values (node_write p f lru) = lru_values lru"
  using assms by (auto simp: node_write_def lru_values_def option.map_comp comp_def split: option.splits)

lemma node_write_fields [simp]:
  "lru_count (node_write p f lru) = lru_count lru" "lru_size (node_write p f lru) = lru_size lru"
  "lru_first (node_write p f lru) = lru_first lru" "lru_last (node_write p f lru) = lru_last lru"
  by (simp_all add: node_write_def split: option.splits)

lemma lru_values_update [simp]:
  "lru_values (lru\<lparr>lru_first := a\<rparr>) = lru_values lru" "lru_values (lru\<lparr>lru_last := a\<rparr>) = lru_values lru"
  "lru_values (lru\<lparr>lru_count := n\<rparr>) = lru_values lru"
  by (simp_all add: lru_values_def fun_eq_iff)

lemma lru_move_fields [simp]:
  "lru_values (lru_cache_move lru k) = lru_values lru" "lru_count (lru_cache_move lru k) = lru_count lru"
  "lru_size (lru_cache_move lru k) = lru_size lru"
  by (simp_all add: lru_cache_move_def Let_def split: option.splits)

lemma lru_linked_Cons:
  assumes "lru_linked lru (x # xs)"
  shows "lru_first lru = Some x" and "\<exists>v. lru_cache lru x = Some \<lparr>node_value = v, node_next = hd_opt xs None, node_previous = None\<rparr>"
    and "x \<notin> set xs" and "distinct xs" and "dll (lru_cache lru) (Some x) xs None" and "lru_last lru = last_opt (Some x) xs"
  using assms by (auto simp: lru_linked_def)

text \<open>A fresh node is linked in front.\<close>

lemma lru_move_fresh:
  assumes "lru_linked lru xs" and "k \<notin> set xs"
    and "lru_cache lru k = Some \<lparr>node_value = v, node_next = None, node_previous = None\<rparr>"
  shows "lru_linked (lru_cache_move lru k) (k # xs)"
proof (cases xs)
  case Nil
  then show ?thesis using assms by (auto simp: lru_linked_def lru_cache_move_def)
next
  case (Cons f ys)
  note l = lru_linked_Cons [OF assms(1) [unfolded Cons]]
  have "last_opt (Some f) ys \<noteq> Some k" using assms(2) Cons by (auto simp: last_opt_def)
  then show ?thesis
    using assms(2,3) l Cons
    by (auto simp: lru_linked_def lru_cache_move_def node_write_def Let_def last_opt_def)
qed

text \<open>A linked node is moved to the front.\<close>

lemma lru_move_last:
  assumes "lru_linked lru (ys @ [k])" and "ys \<noteq> []"
  shows "lru_linked (lru_cache_move lru k) (k # ys)"
proof -
  obtain zs p where ys: "ys = zs @ [p]" using assms(2) by (meson rev_exhaust)
  show ?thesis
  proof (cases zs)
    case Nil
    then show ?thesis
      using assms(1) by (auto simp: ys lru_linked_def lru_cache_move_def node_write_def Let_def)
  next
    case (Cons f ws)
    then show ?thesis
      using assms(1) by (auto simp: ys lru_linked_def lru_cache_move_def node_write_def Let_def dll_append)
  qed
qed

lemma lru_move_middle:
  assumes "lru_linked lru (ys @ k # zs)" and "ys \<noteq> []" and "zs \<noteq> []"
  shows "lru_linked (lru_cache_move lru k) (k # ys @ zs)"
proof -
  obtain n zt where zs: "zs = n # zt" using assms(3) by (cases zs) auto
  obtain yt p where ys: "ys = yt @ [p]" using assms(2) by (meson rev_exhaust)
  let ?c = "lru_cache lru" and ?l = "last_opt (Some n) zt"
  have d: "distinct ((yt @ [p]) @ k # n # zt)" and first: "lru_first lru = hd_opt yt (Some p)"
      and last: "lru_last lru = ?l" and yt: "dll ?c None yt (Some p)" and zt: "dll ?c (Some n) zt None"
    using assms(1) by (simp_all add: lru_linked_def zs ys dll_append)
  obtain vp vk vn where p: "?c p = Some \<lparr>node_value = vp, node_next = Some k, node_previous = last_opt None yt\<rparr>"
      and k: "?c k = Some \<lparr>node_value = vk, node_next = Some n, node_previous = Some p\<rparr>"
      and n: "?c n = Some \<lparr>node_value = vn, node_next = hd_opt zt None, node_previous = Some k\<rparr>"
    using assms(1) by (auto simp: lru_linked_def zs ys dll_append)
  have sym: "k \<noteq> p" "p \<noteq> k" "n \<noteq> p" "p \<noteq> n" "n \<noteq> k" "k \<noteq> n" using d by auto
  have ne: "?l \<noteq> Some k" "?l \<noteq> Some p" "\<And>f. f \<in> set yt \<Longrightarrow> ?l \<noteq> Some f"
    using d by (auto simp: last_opt_def split: if_splits)
  show ?thesis
  proof (cases yt)
    case Nil
    have "lru_cache_move lru k = lru\<lparr>lru_cache := ?c(p := Some \<lparr>node_value = vp, node_next = Some n, node_previous = None\<rparr>,
        n := Some \<lparr>node_value = vn, node_next = hd_opt zt None, node_previous = Some p\<rparr>,
        p := Some \<lparr>node_value = vp, node_next = Some n, node_previous = Some k\<rparr>,
        k := Some \<lparr>node_value = vk, node_next = Some p, node_previous = None\<rparr>), lru_first := Some k\<rparr>"
      using d first last p k n ne Nil
      by (simp add: lru_cache_move_def node_write_def Let_def eq_commute [of "Some p"] sym)
    then show ?thesis
      using d zt last sym by (simp add: lru_linked_def zs ys Nil)
  next
    case (Cons f yw)
    obtain vf where f: "?c f = Some \<lparr>node_value = vf, node_next = hd_opt yw (Some p), node_previous = None\<rparr>"
        and yw: "dll ?c (Some f) yw (Some p)"
      using yt Cons by auto
    have symf: "f \<noteq> k" "k \<noteq> f" "f \<noteq> p" "p \<noteq> f" "f \<noteq> n" "n \<noteq> f" using d Cons by auto
    have "lru_cache_move lru k = lru\<lparr>lru_cache := ?c(p := Some \<lparr>node_value = vp, node_next = Some n, node_previous = last_opt None yt\<rparr>,
        n := Some \<lparr>node_value = vn, node_next = hd_opt zt None, node_previous = Some p\<rparr>,
        f := Some \<lparr>node_value = vf, node_next = hd_opt yw (Some p), node_previous = Some k\<rparr>,
        k := Some \<lparr>node_value = vk, node_next = Some f, node_previous = None\<rparr>), lru_first := Some k\<rparr>"
      using d first last p k n f ne Cons sym symf
      by (simp add: lru_cache_move_def node_write_def Let_def eq_commute [of "Some f"])
    then show ?thesis
      using d zt yw last sym Cons by (auto simp: lru_linked_def zs ys dll_append)
  qed
qed

lemma lru_move_linked:
  assumes "lru_linked lru xs" and "k \<in> set xs"
  shows "lru_linked (lru_cache_move lru k) (k # remove1 k xs)"
proof -
  obtain ys zs where xs: "xs = ys @ k # zs" and k: "k \<notin> set ys" using assms(2) by (meson split_list_first)
  then have rem: "remove1 k xs = ys @ zs" by (simp add: remove1_append)
  show ?thesis
  proof (cases ys)
    case Nil
    then have "lru_cache_move lru k = lru"
      using assms(1) xs by (auto simp: lru_cache_move_def lru_linked_def split: option.splits)
    then show ?thesis using assms(1) xs Nil rem by simp
  next
    case (Cons f yt)
    then show ?thesis
      using lru_move_last [of lru ys k] lru_move_middle [of lru ys k zs] assms(1) xs rem by (cases "zs = []") auto
  qed
qed

text \<open>Unlinking: the tail, and any node.\<close>

lemma lru_values_remove: "lru_values (hashmap_remove k lru) = (lru_values lru)(k := None)"
  by (auto simp: hashmap_remove_def lru_values_def fun_eq_iff)

lemma hashmap_remove_fields [simp]:
  "lru_size (hashmap_remove k lru) = lru_size lru"
  "lru_count (hashmap_remove k lru) = (if lru_cache lru k = None then lru_count lru else lru_count lru - 1)"
  by (simp_all add: hashmap_remove_def)

lemma node_write_None_iff [simp]: "lru_cache (node_write p f lru) k = None \<longleftrightarrow> lru_cache lru k = None"
  by (simp add: node_write_def split: option.splits)

lemma lru_evict_last_linked:
  assumes "lru_linked lru (ys @ [k])"
  obtains v where "lru_values lru k = Some v"
    and "fst (lru_evict_last lru) = Some (k, v)" and "lru_linked (snd (lru_evict_last lru)) ys"
    and "lru_values (snd (lru_evict_last lru)) = (lru_values lru)(k := None)"
    and "lru_count (snd (lru_evict_last lru)) = lru_count lru - 1" and "lru_size (snd (lru_evict_last lru)) = lru_size lru"
proof -
  obtain v where k: "lru_cache lru k = Some \<lparr>node_value = v, node_next = None, node_previous = last_opt None ys\<rparr>"
      and last: "lru_last lru = Some k"
    using assms by (auto simp: lru_linked_def dll_append)
  have "lru_linked (snd (lru_evict_last lru)) ys"
  proof (cases ys rule: rev_cases)
    case Nil
    then show ?thesis using k last by (simp add: lru_evict_last_def lru_linked_def hashmap_remove_def)
  next
    case (snoc zs p)
    then show ?thesis
      using assms k last
      by (auto simp: lru_evict_last_def lru_linked_def hashmap_remove_def node_write_def dll_append)
  qed
  moreover have "lru_values (snd (lru_evict_last lru)) = (lru_values lru)(k := None)"
      and "lru_count (snd (lru_evict_last lru)) = lru_count lru - 1"
      and "lru_size (snd (lru_evict_last lru)) = lru_size lru"
    using k last by (simp_all add: lru_evict_last_def lru_values_remove Let_def split: option.splits)
  moreover have "lru_values lru k = Some v" and "fst (lru_evict_last lru) = Some (k, v)"
    using k last by (simp_all add: lru_values_def lru_evict_last_def Let_def)
  ultimately show ?thesis using that by blast
qed

lemma lru_delete_linked:
  assumes "lru_linked lru (ys @ k # zs)"
  shows "lru_linked (lru_cache_delete lru k) (ys @ zs)"
proof (cases zs)
  case Nil
  show ?thesis
  proof (cases ys rule: rev_cases)
    case Nil
    then show ?thesis
      using assms \<open>zs = []\<close> by (auto simp: lru_cache_delete_def lru_linked_def hashmap_remove_def)
  next
    case (snoc yt p)
    then show ?thesis
      using assms Nil
      by (auto simp: lru_cache_delete_def lru_linked_def hashmap_remove_def node_write_def dll_append)
  qed
next
  case (Cons n zt)
  show ?thesis
  proof (cases ys rule: rev_cases)
    case Nil
    then show ?thesis
      using assms Cons by (auto simp: lru_cache_delete_def lru_linked_def hashmap_remove_def node_write_def)
  next
    case (snoc yt p)
    then show ?thesis
      using assms Cons
      by (auto simp: lru_cache_delete_def lru_linked_def hashmap_remove_def node_write_def dll_append)
  qed
qed

lemma lru_delete_values:
  assumes "lru_cache lru k \<noteq> None"
  shows "lru_values (lru_cache_delete lru k) = (lru_values lru)(k := None)"
    and "lru_count (lru_cache_delete lru k) = lru_count lru - 1"
    and "lru_size (lru_cache_delete lru k) = lru_size lru"
  using assms by (auto simp: lru_cache_delete_def lru_values_remove Let_def simp del: not_None_eq split: option.splits)

section \<open>Refinement of a list\<close>

datatype ('k, 'v) lru_op = LruGet 'k | LruPut 'k 'v | LruDelete 'k

datatype ('k, 'v) lru_out = Got "'v option" | Ejected "('k \<times> 'v) option" | Deleted

fun lru_step :: "('k, 'v) lru_op \<Rightarrow> ('k, 'v) lru_cache_t \<Rightarrow> ('k, 'v) lru_out \<times> ('k, 'v) lru_cache_t" where
  "lru_step (LruGet k) lru = (case lru_cache_get lru k of (v, lru) \<Rightarrow> (Got v, lru))"
| "lru_step (LruPut k v) lru = (case sections_lru_cache_put lru k v of (e, lru) \<Rightarrow> (Ejected e, lru))"
| "lru_step (LruDelete k) lru = (Deleted, lru_cache_delete lru k)"

text \<open>The specification: at most \<open>n\<close> pairs, most recent first; a put of a present key keeps its value.\<close>

abbreviation without :: "'k \<Rightarrow> ('k \<times> 'v) list \<Rightarrow> ('k \<times> 'v) list" where
  "without k al \<equiv> filter (\<lambda>p. fst p \<noteq> k) al"

fun lru_spec :: "nat \<Rightarrow> ('k, 'v) lru_op \<Rightarrow> ('k \<times> 'v) list \<Rightarrow> ('k, 'v) lru_out \<times> ('k \<times> 'v) list" where
  "lru_spec n (LruGet k) al =
     (case map_of al k of None \<Rightarrow> (Got None, al) | Some v \<Rightarrow> (Got (Some v), (k, v) # without k al))"
| "lru_spec n (LruPut k v) al =
     (if n = 0 then (Ejected None, al)
      else case map_of al k of
        Some w \<Rightarrow> (Ejected None, (k, w) # without k al)
      | None \<Rightarrow> if length al = n then (Ejected (Some (last al)), (k, v) # butlast al)
                else (Ejected None, (k, v) # al))"
| "lru_spec n (LruDelete k) al = (Deleted, without k al)"

primrec lru_run :: "('k, 'v) lru_op list \<Rightarrow> ('k, 'v) lru_cache_t \<Rightarrow> ('k, 'v) lru_out list \<times> ('k, 'v) lru_cache_t" where
  "lru_run [] lru = ([], lru)"
| "lru_run (op # ops) lru =
     (case lru_step op lru of (out, lru) \<Rightarrow> (case lru_run ops lru of (outs, lru) \<Rightarrow> (out # outs, lru)))"

primrec lru_spec_run :: "nat \<Rightarrow> ('k, 'v) lru_op list \<Rightarrow> ('k \<times> 'v) list \<Rightarrow> ('k, 'v) lru_out list \<times> ('k \<times> 'v) list" where
  "lru_spec_run n [] al = ([], al)"
| "lru_spec_run n (op # ops) al =
     (case lru_spec n op al of (out, al) \<Rightarrow> (case lru_spec_run n ops al of (outs, al) \<Rightarrow> (out # outs, al)))"

lemma keys_without: "distinct (map fst al) \<Longrightarrow> map fst (without k al) = remove1 k (map fst al)"
  by (induction al) (auto simp: remove1_idem)

lemma map_of_without: "map_of (without k al) = (map_of al)(k := None)"
  by (induction al) auto

lemma length_without:
  "distinct (map fst al) \<Longrightarrow> map_of al k = Some v \<Longrightarrow> Suc (length (without k al)) = length al"
proof -
  assume d: "distinct (map fst al)" and "map_of al k = Some v"
  then have "k \<in> set (map fst al)" by (metis map_of_eq_None_iff option.distinct(1) set_map)
  moreover have "length (without k al) = length (remove1 k (map fst al))"
    using keys_without [OF d, of k] by (metis length_map)
  ultimately show ?thesis by (simp add: length_remove1) (metis Suc_pred length_pos_if_in_set list.set_map length_map)
qed

lemma lru_repD:
  assumes "lru_rep lru al"
  shows "lru_linked lru (map fst al)" and "distinct (map fst al)" and "lru_values lru = map_of al"
    and "lru_count lru = length al" and "lru_cache lru k = None \<longleftrightarrow> map_of al k = None"
    and "map_of al k = Some v \<Longrightarrow> k \<in> set (map fst al)"
proof -
  show v: "lru_values lru = map_of al" and "lru_linked lru (map fst al)" and "lru_count lru = length al"
    using assms by (simp_all add: lru_rep_def)
  then show "distinct (map fst al)" by (simp add: lru_linked_def)
  have "lru_values lru k = map_of al k" using v by simp
  then show "lru_cache lru k = None \<longleftrightarrow> map_of al k = None" by (metis lru_values_def map_option_is_None)
  show "map_of al k = Some v \<Longrightarrow> k \<in> set (map fst al)" by (metis map_of_eq_None_iff option.distinct(1) set_map)
qed

lemma lru_rep_create: "lru_rep (lru_cache_create n) []"
  by (simp add: lru_rep_def lru_linked_def lru_cache_create_def lru_values_def fun_eq_iff)

lemma lru_rep_move:
  assumes "lru_rep lru al" and "map_of al k = Some v"
  shows "lru_rep (lru_cache_move lru k) ((k, v) # without k al)"
proof -
  note r = lru_repD [OF assms(1)]
  have "map_of ((k, v) # without k al) = map_of al"
    using assms(2) by (simp add: map_of_without fun_eq_iff)
  then show ?thesis
    using lru_move_linked [OF r(1) r(6) [OF assms(2)]] r(3,4) length_without [OF r(2) assms(2)]
    by (simp add: lru_rep_def keys_without [OF r(2)])
qed

lemma lru_rep_insert:
  assumes "lru_rep lru al" and "map_of al k = None"
  shows "lru_rep (lru_cache_move (hashmap_put k \<lparr>node_value = v, node_next = None, node_previous = None\<rparr> lru) k)
    ((k, v) # al)"
proof -
  note r = lru_repD [OF assms(1)]
  let ?l = "hashmap_put k \<lparr>node_value = v, node_next = None, node_previous = None\<rparr> lru"
  have k: "k \<notin> set (map fst al)" and "lru_cache lru k = None"
    using assms(2) r(5) by (simp_all add: map_of_eq_None_iff)
  then have "lru_linked ?l (map fst al)" and "lru_count ?l = Suc (length al)"
      and "lru_values ?l = (map_of al)(k \<mapsto> v)"
    using r(1,3,4) by (auto simp: lru_linked_def hashmap_put_def lru_values_def fun_eq_iff)
  with lru_move_fresh [OF _ k, of ?l v] show ?thesis
    by (simp add: lru_rep_def) (simp add: hashmap_put_def)
qed

lemma lru_rep_evict:
  assumes "lru_rep lru al" and "al \<noteq> []"
  shows "fst (lru_evict_last lru) = Some (last al)" and "lru_rep (snd (lru_evict_last lru)) (butlast al)"
    and "lru_size (snd (lru_evict_last lru)) = lru_size lru"
proof -
  note r = lru_repD [OF assms(1)]
  obtain bl k v where al: "al = bl @ [(k, v)]" by (metis assms(2) rev_exhaust surj_pair)
  have d: "k \<notin> fst ` set bl" using r(2) by (simp add: al)
  then have none: "map_of bl k = None" by (simp add: map_of_eq_None_iff)
  then have m: "map_of al k = Some v" by (simp add: al map_add_def)
  from r(1) have "lru_linked lru (map fst bl @ [k])" by (simp add: al)
  then obtain w where w: "lru_values lru k = Some w" "fst (lru_evict_last lru) = Some (k, w)"
      "lru_linked (snd (lru_evict_last lru)) (map fst bl)"
      "lru_values (snd (lru_evict_last lru)) = (lru_values lru)(k := None)"
      "lru_count (snd (lru_evict_last lru)) = lru_count lru - 1" "lru_size (snd (lru_evict_last lru)) = lru_size lru"
    by (rule lru_evict_last_linked)
  have "w = v" using w(1) r(3) m by simp
  have "(map_of al)(k := None) = map_of bl"
    using none by (simp add: al fun_eq_iff map_add_def split: option.splits)
  then show "lru_rep (snd (lru_evict_last lru)) (butlast al)"
    using w r(3,4) by (simp add: lru_rep_def al)
  show "fst (lru_evict_last lru) = Some (last al)" using w(2) \<open>w = v\<close> by (simp add: al)
  show "lru_size (snd (lru_evict_last lru)) = lru_size lru" by (rule w(6))
qed

lemma lru_get_refines:
  assumes "lru_rep lru al" and "lru_size lru = n" and "length al \<le> n"
    and "lru_step (LruGet k) lru = (out, lru')" and "lru_spec n (LruGet k) al = (out', al')"
  shows "out = out' \<and> lru_rep lru' al' \<and> lru_size lru' = n \<and> length al' \<le> n"
proof -
  note r = lru_repD [OF assms(1)]
  show ?thesis
  proof (cases "map_of al k")
    case None
    then have "lru_cache lru k = None" using r(5) by simp
    then show ?thesis using assms None by (auto simp: lru_cache_get_def)
  next
    case (Some v)
    then have "\<exists>nd. lru_cache lru k = Some nd \<and> node_value nd = v"
      using r(3) by (metis lru_values_def map_option_eq_Some)
    then show ?thesis
      using assms Some lru_rep_move [OF assms(1) Some] length_without [OF r(2) Some]
      by (auto simp: lru_cache_get_def)
  qed
qed

lemma lru_put_refines:
  assumes "lru_rep lru al" and "lru_size lru = n" and "length al \<le> n"
    and "lru_step (LruPut k v) lru = (out, lru')" and "lru_spec n (LruPut k v) al = (out', al')"
  shows "out = out' \<and> lru_rep lru' al' \<and> lru_size lru' = n \<and> length al' \<le> n"
proof -
  note r = lru_repD [OF assms(1)]
  show ?thesis
  proof (cases "n = 0 \<or> map_of al k \<noteq> None")
    case True
    then show ?thesis
      using assms r(5) [of k] lru_rep_move [OF assms(1), of k] length_without [OF r(2), of k]
      by (auto simp: sections_lru_cache_put_def)
  next
    case False
    then have k: "lru_cache lru k = None" "map_of al k = None" "n \<noteq> 0" using r(5) by auto
    show ?thesis
    proof (cases "length al = n")
      case True
      then have "al \<noteq> []" using k by auto
      note e = lru_rep_evict [OF assms(1) this]
      have "map_of (butlast al) k = None"
        using k(2) by (auto simp: map_of_eq_None_iff dest: in_set_butlastD)
      from lru_rep_insert [OF e(2) this, of v] show ?thesis
        using assms True k r(4) e
        by (auto simp: sections_lru_cache_put_def hashmap_put_def split: prod.splits)
    next
      case False
      then show ?thesis
        using assms k r(4) lru_rep_insert [OF assms(1) k(2), of v]
        by (auto simp: sections_lru_cache_put_def hashmap_put_def)
    qed
  qed
qed

lemma lru_delete_refines:
  assumes "lru_rep lru al" and "lru_size lru = n" and "length al \<le> n"
    and "lru_step (LruDelete k) lru = (out, lru')" and "lru_spec n (LruDelete k) al = (out', al')"
  shows "out = out' \<and> lru_rep lru' al' \<and> lru_size lru' = n \<and> length al' \<le> n"
proof -
  note r = lru_repD [OF assms(1)]
  show ?thesis
  proof (cases "map_of al k")
    case None
    then have "lru_cache lru k = None" and "without k al = al"
      using r(5) by (auto simp: filter_id_conv map_of_eq_None_iff)
    then show ?thesis using assms by (auto simp: lru_cache_delete_def)
  next
    case (Some v)
    then have c: "lru_cache lru k \<noteq> None" using r(5) by simp
    obtain ys zs where "map fst al = ys @ k # zs" and "k \<notin> set ys" using r(6) [OF Some] by (meson split_list_first)
    then have "lru_linked (lru_cache_delete lru k) (map fst (without k al))"
      using lru_delete_linked [of lru ys k zs] r(1) keys_without [OF r(2), of k] by (simp add: remove1_append)
    then show ?thesis
      using assms lru_delete_values [OF c] r(3,4) length_without [OF r(2) Some]
      by (auto simp: lru_rep_def map_of_without)
  qed
qed

lemma lru_step_refines:
  assumes "lru_rep lru al" and "lru_size lru = n" and "length al \<le> n"
    and "lru_step op lru = (out, lru')" and "lru_spec n op al = (out', al')"
  shows "out = out' \<and> lru_rep lru' al' \<and> lru_size lru' = n \<and> length al' \<le> n"
  using assms lru_get_refines [OF assms(1-3)] lru_put_refines [OF assms(1-3)] lru_delete_refines [OF assms(1-3)]
  by (cases op) (simp_all only:)

lemma lru_run_refines:
  assumes "lru_rep lru al" and "lru_size lru = n" and "length al \<le> n"
  shows "fst (lru_run ops lru) = fst (lru_spec_run n ops al) \<and>
    lru_rep (snd (lru_run ops lru)) (snd (lru_spec_run n ops al))"
  using assms
proof (induction ops arbitrary: lru al)
  case (Cons op ops)
  obtain out lru' where s: "lru_step op lru = (out, lru')" by fastforce
  obtain out' al' where t: "lru_spec n op al = (out', al')" by fastforce
  from lru_step_refines [OF Cons.prems s t] Cons.IH [of lru' al'] show ?case
    using s t by (auto split: prod.splits)
qed simp

text \<open>What the users of a cache need: its operations in terms of the values it holds.\<close>

definition lru_ok :: "('k, 'v) lru_cache_t \<Rightarrow> bool" where
  "lru_ok lru \<longleftrightarrow> (\<exists>al. lru_rep lru al \<and> length al \<le> lru_size lru)"

lemma lru_ok_create: "lru_ok (lru_cache_create n)"
  using lru_rep_create by (fastforce simp: lru_ok_def)

lemma lru_values_create [simp]: "lru_values (lru_cache_create n) k = None" "lru_size (lru_cache_create n) = n"
  by (simp_all add: lru_values_def lru_cache_create_def)

lemma lru_ok_get:
  assumes "lru_ok lru"
  obtains lru' where "lru_cache_get lru k = (lru_values lru k, lru')" and "lru_ok lru'"
    and "lru_values lru' = lru_values lru" and "lru_size lru' = lru_size lru"
proof (cases "lru_cache lru k")
  case None
  then show ?thesis using that [of lru] assms by (simp add: lru_cache_get_def lru_values_def)
next
  case (Some node)
  obtain al where al: "lru_rep lru al" "length al \<le> lru_size lru" using assms by (auto simp: lru_ok_def)
  have m: "map_of al k = Some (node_value node)"
    using lru_repD(3) [OF al(1)] Some by (metis lru_values_def option.simps(9))
  have "lru_ok (lru_cache_move lru k)"
    unfolding lru_ok_def using lru_rep_move [OF al(1) m] length_without [OF lru_repD(2) [OF al(1)] m] al(2)
    by (auto intro!: exI [of _ "(k, node_value node) # without k al"])
  then show ?thesis
    using that [of "lru_cache_move lru k"] Some by (simp add: lru_cache_get_def lru_values_def)
qed

lemma map_of_butlast:
  assumes "distinct (map fst al)" and "al \<noteq> []"
  shows "map_of al (fst (last al)) = Some (snd (last al))"
    and "map_of (butlast al) = (map_of al)(fst (last al) := None)"
proof -
  obtain bl k v where al: "al = bl @ [(k, v)]" by (metis assms(2) rev_exhaust surj_pair)
  have none: "map_of bl k = None" using assms(1) by (simp add: al map_of_eq_None_iff)
  show "map_of al (fst (last al)) = Some (snd (last al))" using none by (simp add: al map_add_def)
  show "map_of (butlast al) = (map_of al)(fst (last al) := None)"
    using none by (simp add: al fun_eq_iff map_add_def split: option.splits)
qed

lemma lru_ok_put_new:
  assumes "lru_ok lru" and "lru_values lru k = None" and "0 < lru_size lru"
  obtains e lru' where "sections_lru_cache_put lru k v = (e, lru')" and "lru_ok lru'" and "lru_size lru' = lru_size lru"
    and "e = None \<and> lru_values lru' = (lru_values lru)(k \<mapsto> v) \<or>
      (\<exists>j w. e = Some (j, w) \<and> j \<noteq> k \<and> lru_values lru j = Some w \<and>
        lru_values lru' = (lru_values lru)(j := None, k \<mapsto> v))"
proof -
  obtain al where al: "lru_rep lru al" "length al \<le> lru_size lru" using assms by (auto simp: lru_ok_def)
  note r = lru_repD [OF al(1)]
  have k: "map_of al k = None" using r(3) assms(2) by simp
  obtain e lru' where p: "sections_lru_cache_put lru k v = (e, lru')" by fastforce
  obtain out al' where sp: "lru_spec (lru_size lru) (LruPut k v) al = (out, al')" by fastforce
  have step: "lru_step (LruPut k v) lru = (Ejected e, lru')" by (simp add: p)
  from lru_put_refines [OF al(1) refl al(2) step sp]
  have res: "Ejected e = out" "lru_rep lru' al'" "lru_size lru' = lru_size lru" "length al' \<le> lru_size lru" by auto
  have ok: "lru_ok lru'" using res by (auto simp: lru_ok_def)
  have v: "lru_values lru' = map_of al'" using lru_repD(3) [OF res(2)] .
  show ?thesis
  proof (cases "length al = lru_size lru")
    case True
    then have ne: "al \<noteq> []" using assms(3) by auto
    have "e = Some (last al)" and al': "al' = (k, v) # butlast al" using sp res(1) k True assms(3) by auto
    moreover have "fst (last al) \<noteq> k" using map_of_butlast(1) [OF r(2) ne] k by auto
    ultimately show ?thesis
      using that [OF p ok res(3)] v map_of_butlast [OF r(2) ne] r(3)
      by (metis map_of_Cons_code(2) map_of.simps(2) prod.collapse fst_conv snd_conv)
  next
    case False
    then have "e = None" and "al' = (k, v) # al" using sp res(1) k assms(3) by auto
    then show ?thesis using that [OF p ok res(3)] v r(3) by simp
  qed
qed

lemma node_links_iff:
  "(\<exists>v. o1 = Some \<lparr>node_value = v, node_next = a, node_previous = b\<rparr>) \<longleftrightarrow>
    map_option (\<lambda>n. (node_next n, node_previous n)) o1 = Some (a, b)"
proof (cases o1)
  case (Some n)
  then show ?thesis by (cases n) auto
qed simp

lemma dll_links:
  assumes "\<And>x. map_option (\<lambda>n. (node_next n, node_previous n)) (c' x) = map_option (\<lambda>n. (node_next n, node_previous n)) (c x)"
  shows "dll c' p xs nx = dll c p xs nx"
  by (induction xs arbitrary: p) (simp_all only: dll.simps node_links_iff assms)

lemma lru_ok_set_value:
  assumes "lru_ok lru"
  shows "lru_ok (node_write (Some k) (\<lambda>n. n\<lparr>node_value := v\<rparr>) lru)"
    and "lru_values (node_write (Some k) (\<lambda>n. n\<lparr>node_value := v\<rparr>) lru) =
      (if lru_values lru k = None then lru_values lru else (lru_values lru)(k \<mapsto> v))"
proof -
  let ?l = "node_write (Some k) (\<lambda>n. n\<lparr>node_value := v\<rparr>) lru"
  show vals: "lru_values ?l = (if lru_values lru k = None then lru_values lru else (lru_values lru)(k \<mapsto> v))"
    by (auto simp: lru_values_def node_write_def fun_eq_iff split: option.splits)
  obtain al where al: "lru_rep lru al" "length al \<le> lru_size lru" using assms by (auto simp: lru_ok_def)
  note r = lru_repD [OF al(1)]
  let ?al = "map (\<lambda>(a, w). (a, if a = k then v else w)) al"
  have keys: "map fst ?al = map fst al" by (induction al) auto
  have "dll (lru_cache ?l) p xs nx = dll (lru_cache lru) p xs nx" for p xs nx
    by (rule dll_links) (simp add: node_write_def option.map_comp comp_def)
  then have "lru_linked ?l (map fst ?al)"
    using r(1) unfolding lru_linked_def keys by simp
  moreover have "map_of ?al = (if map_of al k = None then map_of al else (map_of al)(k \<mapsto> v))"
    by (induction al) (auto simp: fun_eq_iff)
  ultimately have "lru_rep ?l ?al" using r(3,4) vals by (simp add: lru_rep_def)
  then show "lru_ok ?l" using al(2) by (auto simp: lru_ok_def intro!: exI [of _ ?al])
qed

lemma lru_ok_map_values:
  assumes "lru_ok lru"
    and "l = lru\<lparr>lru_cache := \<lambda>k. map_option (\<lambda>n. n\<lparr>node_value := f k (node_value n)\<rparr>) (lru_cache lru k)\<rparr>"
  shows "lru_ok l" and "lru_values l = (\<lambda>k. map_option (f k) (lru_values lru k))" and "lru_size l = lru_size lru"
proof -
  show vals: "lru_values l = (\<lambda>k. map_option (f k) (lru_values lru k))"
    by (simp add: assms(2) lru_values_def fun_eq_iff option.map_comp comp_def)
  show "lru_size l = lru_size lru" by (simp add: assms(2))
  obtain al where al: "lru_rep lru al" "length al \<le> lru_size lru" using assms(1) by (auto simp: lru_ok_def)
  note r = lru_repD [OF al(1)]
  let ?al = "map (\<lambda>(a, w). (a, f a w)) al"
  have keys: "map fst ?al = map fst al" by (induction al) auto
  have "dll (lru_cache l) p xs nx = dll (lru_cache lru) p xs nx" for p xs nx
    by (rule dll_links) (simp add: assms(2) option.map_comp comp_def)
  then have "lru_linked l (map fst ?al)"
    using r(1) assms(2) unfolding lru_linked_def keys by simp
  moreover have "map_of ?al = (\<lambda>k. map_option (f k) (map_of al k))"
    by (induction al) (auto simp: fun_eq_iff)
  ultimately have "lru_rep l ?al" using r(3,4) vals assms(2) by (simp add: lru_rep_def)
  then show "lru_ok l" using al(2) assms(2) by (auto simp: lru_ok_def intro!: exI [of _ ?al])
qed

lemma lru_ok_delete:
  assumes "lru_ok lru"
  shows "lru_ok (lru_cache_delete lru k)" and "lru_values (lru_cache_delete lru k) = (lru_values lru)(k := None)"
proof -
  obtain al where al: "lru_rep lru al" "length al \<le> lru_size lru" using assms by (auto simp: lru_ok_def)
  obtain out al' where sp: "lru_spec (lru_size lru) (LruDelete k) al = (out, al')" by fastforce
  from lru_delete_refines [OF al(1) refl al(2) _ sp, of Deleted "lru_cache_delete lru k"]
  show "lru_ok (lru_cache_delete lru k)" by (auto simp: lru_ok_def)
  show "lru_values (lru_cache_delete lru k) = (lru_values lru)(k := None)"
  proof (cases "lru_cache lru k")
    case None
    then show ?thesis by (auto simp: lru_cache_delete_def lru_values_def)
  next
    case (Some n)
    then show ?thesis using lru_delete_values(1) [of lru k] by simp
  qed
qed

lemma lru_evict_last_absent:
  "lru_cache lru k = None \<Longrightarrow> lru_cache (snd (lru_evict_last lru)) k = None"
  by (auto simp: lru_evict_last_def hashmap_remove_def node_write_def Let_def split: option.splits)

lemma block_lru_put_absent:
  assumes "lru_values lru k = None"
  shows "block_lru_cache_put lru k v = Some (sections_lru_cache_put lru k v)"
  using assms lru_evict_last_absent [of lru k]
  by (auto simp: block_lru_cache_put_def sections_lru_cache_put_def lru_values_def Let_def split: prod.splits if_splits)

lemma block_lru_ok_put:
  assumes "lru_ok lru" and "lru_values lru k = None"
  shows "\<exists>e lru'. block_lru_cache_put lru k v = Some (e, lru') \<and> lru_ok lru' \<and>
    (\<forall>j w. lru_values lru' j = Some w \<longrightarrow> j = k \<and> w = v \<or> lru_values lru j = Some w) \<and>
    (\<forall>j w. e = Some (j, w) \<longrightarrow> j \<noteq> k \<and> lru_values lru j = Some w)"
proof (cases "lru_size lru = 0")
  case True
  then show ?thesis using assms by (simp add: block_lru_cache_put_def)
next
  case False
  then have sz: "0 < lru_size lru" by simp
  obtain e lru' where p: "sections_lru_cache_put lru k v = (e, lru')" "lru_ok lru'"
      "e = None \<and> lru_values lru' = (lru_values lru)(k \<mapsto> v) \<or>
      (\<exists>j w. e = Some (j, w) \<and> j \<noteq> k \<and> lru_values lru j = Some w \<and>
        lru_values lru' = (lru_values lru)(j := None, k \<mapsto> v))"
    by (rule lru_ok_put_new [OF assms sz, of v])
  from p(3) have "\<forall>j w. lru_values lru' j = Some w \<longrightarrow> j = k \<and> w = v \<or> lru_values lru j = Some w"
    by (elim disjE exE conjE) (simp_all add: fun_upd_apply)
  moreover have "\<forall>j w. e = Some (j, w) \<longrightarrow> j \<noteq> k \<and> lru_values lru j = Some w" using p(3) by blast
  ultimately show ?thesis
    using block_lru_put_absent [OF assms(2), of v] p(1,2) by simp
qed

text \<open>C21. The linked caches behave like a list of at most \<open>n\<close> pairs, most recent first: for every sequence of
  lookups, insertions and deletions on a fresh cache the returned values and the ejected entries are
  those of the list, and the nodes reachable from the head are its pairs in order.\<close>

theorem lru_refines_list:
  "fst (lru_run ops (lru_cache_create n)) = fst (lru_spec_run n ops []) \<and>
   lru_rep (snd (lru_run ops (lru_cache_create n))) (snd (lru_spec_run n ops []))"
  by (rule lru_run_refines) (simp_all add: lru_rep_create)

end
