(* ===== verification/Sections.thy ===== *)
theory Sections
  imports Block Section_Defrag Lru
begin

text \<open>
  \<open>src/src/BlockCache/sections.c\<close>: the pool of sections. Open sections are kept in a
  least-recently-used cache, the files of the others are in \<open>disk\<close>; a round robin holds the numbers of
  the sections that take writes. The linked list of the robin is a list here, first to last. \<open>io\<close> gives
  the behaviour of the file system for each section; \<open>None\<close> is the use of a null section, and for the
  write loop also that it does not end. The debounce timer only delays the messages
  \<open>SECTION_SAVE_META\<close> and \<open>SECTION_WRITE_META\<close>, which are operations of their own.
\<close>

section \<open>Round robin\<close>

type_synonym round_robin_t = "nat list"

definition round_robin_add :: "round_robin_t \<Rightarrow> nat \<Rightarrow> round_robin_t" where
  "round_robin_add robin i = robin @ [i]"

definition round_robin_unshift :: "round_robin_t \<Rightarrow> nat \<Rightarrow> round_robin_t" where
  "round_robin_unshift robin i = i # robin"

definition round_robin_next :: "round_robin_t \<Rightarrow> (nat \<times> round_robin_t) option" where
  "round_robin_next robin = (case robin of [] \<Rightarrow> None | i # rest \<Rightarrow> Some (i, rest @ [i]))"

definition round_robin_remove :: "round_robin_t \<Rightarrow> nat \<Rightarrow> round_robin_t" where
  "round_robin_remove robin i = remove1 i robin"

definition round_robin_contains :: "round_robin_t \<Rightarrow> nat \<Rightarrow> bool" where
  "round_robin_contains robin i \<longleftrightarrow> i \<in> set robin"

definition round_robin_to_cbor :: "('i, 'm) cbor_api_scheme \<Rightarrow> round_robin_t \<Rightarrow> 'i option" where
  "round_robin_to_cbor C robin =
     (case cbor_push_all C (True, cbor_new_indefinite_array C) (map (\<lambda>i. cbor_build_uint64 C (of_nat i)) robin) of
        (ok, a) \<Rightarrow> if ok then Some a else None)"

definition cbor_to_round_robin :: "('i, 'm) cbor_api_scheme \<Rightarrow> 'i \<Rightarrow> round_robin_t option" where
  "cbor_to_round_robin C c =
     (if \<not> cbor_isa_array C c then None
      else Some (fold (\<lambda>i robin. round_robin_add robin (unat (cbor_get_int C (cbor_array_get C c i))))
        [0..<cbor_array_size C c] []))"

section \<open>State\<close>

record sections_t =
  sx_lru :: "(nat, section_t) lru_cache_t"
  sx_robin :: round_robin_t
  sx_max_tuple_size :: nat
  sx_next_id :: nat
  sx_size :: nat
  sx_type :: block_size_e
  sx_max_bytes :: nat
  sx_timer :: bool
  sx_disk :: "nat \<Rightarrow> bytes option \<times> bytes option \<times> bytes option"
  sx_robin_file :: "bytes option"

fun sections_bytes_for_type :: "block_size_e \<Rightarrow> nat" where
  "sections_bytes_for_type mega = 1000000"
| "sections_bytes_for_type standard = 128000"
| "sections_bytes_for_type mini = 64000"
| "sections_bytes_for_type nano = 136"

definition sections_target_count :: "sections_t \<Rightarrow> nat" where
  "sections_target_count S =
     (if sx_max_bytes S = 0 then 0
      else let section_bytes = sx_size S * sections_bytes_for_type (sx_type S) in
        if section_bytes = 0 then 0
        else (sx_max_bytes S + section_bytes - 1) div section_bytes + 1)"

text \<open>A section is put into the cache; an ejected one is destroyed, which leaves its files. The value of
  a section in use is in its cache node, or only in its files when the cache has no room at all.\<close>

definition sections_cache :: "(nat \<Rightarrow> section_io) \<Rightarrow> section_t \<Rightarrow> sections_t \<Rightarrow> sections_t" where
  "sections_cache io s S =
     (case sections_lru_cache_put (sx_lru S) (sec_id s) s of
        (ejected, lru) \<Rightarrow>
          S\<lparr>sx_lru := lru,
            sx_disk := (case ejected of
                          None \<Rightarrow> sx_disk S
                        | Some (k, v) \<Rightarrow> (sx_disk S)(k := section_files (section_destroy (io k) v)))\<rparr>)"

definition sections_store :: "section_t \<Rightarrow> sections_t \<Rightarrow> sections_t" where
  "sections_store s S =
     (if lru_cache_contains (sx_lru S) (sec_id s)
      then S\<lparr>sx_lru := node_write (Some (sec_id s)) (\<lambda>n. n\<lparr>node_value := s\<rparr>) (sx_lru S)\<rparr>
      else S\<lparr>sx_disk := (sx_disk S)(sec_id s := section_files s)\<rparr>)"

definition sections_open :: "(nat \<Rightarrow> section_io) \<Rightarrow> nat \<Rightarrow> sections_t \<Rightarrow> (section_t \<times> sections_t) option" where
  "sections_open io sid S =
     (case section_create (io sid) (sx_disk S sid) (sx_size S) sid (block_size_bytes (sx_type S)) of
        None \<Rightarrow> None
      | Some s \<Rightarrow> Some (s, sections_store s (sections_cache io s S)))"

definition section_on_dirty :: "(nat \<Rightarrow> section_io) \<Rightarrow> sections_t \<Rightarrow> section_t \<Rightarrow> section_t" where
  "section_on_dirty io S s =
     (if sx_timer S then s else (section_save_meta (io (sec_id s)) s)\<lparr>sec_dirty := False\<rparr>)"

section \<open>Growth\<close>

definition sections_create_fresh :: "(nat \<Rightarrow> section_io) \<Rightarrow> sections_t \<Rightarrow> (nat \<times> sections_t) option" where
  "sections_create_fresh io S =
     (case sections_open io (sx_next_id S) S of
        None \<Rightarrow> None
      | Some (s, S') \<Rightarrow> Some (sec_id s, S'\<lparr>sx_next_id := sx_next_id S + 1\<rparr>))"

definition sections_grow :: "(nat \<Rightarrow> section_io) \<Rightarrow> sections_t \<Rightarrow> int \<times> sections_t" where
  "sections_grow io S =
     (case sections_create_fresh io S of
        None \<Rightarrow> (-1, S)
      | Some (i, S') \<Rightarrow> (0, S'\<lparr>sx_robin := round_robin_add (sx_robin S') i\<rparr>))"

definition sections_maybe_grow :: "(nat \<Rightarrow> section_io) \<Rightarrow> sections_t \<Rightarrow> bool \<times> sections_t" where
  "sections_maybe_grow io S =
     (let target = sections_target_count S in
      if target = 0 \<or> target \<le> length (sx_robin S) then (False, S)
      else case sections_grow io S of (r, S') \<Rightarrow> (r = 0, S'))"

text \<open>The two loops of \<open>sections_full\<close>: each round adds one section, so the number of rounds is the
  distance to the bound.\<close>

primrec sections_refill :: "nat \<Rightarrow> (nat \<Rightarrow> section_io) \<Rightarrow> sections_t \<Rightarrow> sections_t" where
  "sections_refill 0 io S = S"
| "sections_refill (Suc n) io S =
     (case sections_create_fresh io S of
        None \<Rightarrow> S
      | Some (i, S') \<Rightarrow> sections_refill n io (S'\<lparr>sx_robin := round_robin_unshift (sx_robin S') i\<rparr>))"

primrec sections_grow_by :: "nat \<Rightarrow> (nat \<Rightarrow> section_io) \<Rightarrow> sections_t \<Rightarrow> sections_t" where
  "sections_grow_by 0 io S = S"
| "sections_grow_by (Suc n) io S =
     (case sections_grow io S of (r, S') \<Rightarrow> if r \<noteq> 0 then S' else sections_grow_by n io S')"

definition sections_full :: "(nat \<Rightarrow> section_io) \<Rightarrow> nat \<Rightarrow> sections_t \<Rightarrow> sections_t" where
  "sections_full io sid S =
     (let pre_remove = length (sx_robin S);
          S1 = S\<lparr>sx_robin := round_robin_remove (sx_robin S) sid\<rparr>;
          S2 = sections_refill (sx_max_tuple_size S1 - length (sx_robin S1)) io S1;
          target = sections_target_count S2;
          size = length (sx_robin S2)
      in if target \<noteq> 0 \<and> size < target
         then let want = (if size \<le> pre_remove then pre_remove else size) + 1;
                  want = (if target < want then target else want)
              in sections_grow_by (want - size) io S2
         else S2)"

definition sections_free :: "nat \<Rightarrow> sections_t \<Rightarrow> sections_t" where
  "sections_free sid S =
     (if round_robin_contains (sx_robin S) sid then S
      else S\<lparr>sx_robin := round_robin_add (sx_robin S) sid\<rparr>)"

definition sections_set_max_bytes :: "nat \<Rightarrow> sections_t \<Rightarrow> sections_t" where
  "sections_set_max_bytes n S = S\<lparr>sx_max_bytes := n\<rparr>"

section \<open>Requests\<close>

type_synonym write_result = "int \<times> nat \<times> nat"

definition sections_get :: "nat \<Rightarrow> sections_t \<Rightarrow> section_t option \<times> sections_t" where
  "sections_get sid S = (case lru_cache_get (sx_lru S) sid of (s, lru) \<Rightarrow> (s, S\<lparr>sx_lru := lru\<rparr>))"

text \<open>One write into section \<open>s\<close>, with what follows it in the loop.\<close>

definition sections_write_to ::
  "(nat \<Rightarrow> section_io) \<Rightarrow> bytes \<Rightarrow> nat \<Rightarrow> section_t \<Rightarrow> sections_t \<Rightarrow> write_result \<times> sections_t" where
  "sections_write_to io data sid s S =
     (case section_handle_write (io sid) data s of
        (s', (r, i, full), _) \<Rightarrow>
          let S1 = sections_store (if r = 0 then section_on_dirty io S s' else s') S;
              S2 = (if r = 2 \<or> full
                    then let S' = sections_full io sid S1
                         in if r = 2 \<and> (length (sx_robin S') \<le> sx_max_tuple_size S' \<or>
                                        length (sx_robin S') < sections_target_count S')
                            then snd (sections_grow io S') else S'
                    else S1)
          in ((r, sid, i), S2))"

partial_function (option) sections_write_loop ::
  "(nat \<Rightarrow> section_io) \<Rightarrow> bytes \<Rightarrow> nat \<Rightarrow> nat \<Rightarrow> write_result \<Rightarrow> sections_t \<Rightarrow> (write_result \<times> sections_t) option" where
  [code]: "sections_write_loop io data attempts full_rotations p S =
     (if length (sx_robin S) + full_rotations + sx_max_tuple_size S \<le> attempts then Some (p, S)
      else case round_robin_next (sx_robin S) of
        None \<Rightarrow> Some (p, S)
      | Some next \<Rightarrow>
          let sid = fst next;
              found = sections_get sid (S\<lparr>sx_robin := snd next\<rparr>);
              opened = (case fst found of
                          Some s \<Rightarrow> Some (s, snd found, False)
                        | None \<Rightarrow> map_option (\<lambda>(s, S'). (s, S', section_full s)) (sections_open io sid (snd found)))
          in case opened of
               None \<Rightarrow> Some ((-1, sid, snd (snd p)), snd found)
             | Some o1 \<Rightarrow>
                 if snd (snd o1)
                 then sections_write_loop io data (attempts + 1) full_rotations (fst p, sid, snd (snd p))
                        (sections_full io sid (fst (snd o1)))
                 else let written = sections_write_to io data sid (fst o1) (fst (snd o1))
                      in if fst (fst written) \<noteq> 2 then Some written
                         else sections_write_loop io data (attempts + 1) (full_rotations + 1) (fst written) (snd written))"

definition sections_write :: "(nat \<Rightarrow> section_io) \<Rightarrow> bytes \<Rightarrow> sections_t \<Rightarrow> (write_result \<times> sections_t) option" where
  "sections_write io data S = sections_write_loop io data 0 0 (-1, 0, 0) S"

text \<open>The cached section, or the one opened from its files; one that has room joins the robin.\<close>

definition sections_find :: "(nat \<Rightarrow> section_io) \<Rightarrow> nat \<Rightarrow> sections_t \<Rightarrow> (section_t \<times> sections_t) option" where
  "sections_find io sid S =
     (case sections_get sid S of
        (Some s, S') \<Rightarrow> Some (s, S')
      | (None, S') \<Rightarrow>
          map_option (\<lambda>(s, S''). (s,
            if \<not> section_full s \<and> \<not> round_robin_contains (sx_robin S'') sid
            then S''\<lparr>sx_robin := round_robin_add (sx_robin S'') sid\<rparr> else S''))
          (sections_open io sid S'))"

definition sections_read :: "(nat \<Rightarrow> section_io) \<Rightarrow> nat \<Rightarrow> nat \<Rightarrow> sections_t \<Rightarrow> (bytes option \<times> sections_t) option" where
  "sections_read io sid i S =
     map_option (\<lambda>(s, S'). (fst (section_handle_read (io sid) i s), S')) (sections_find io sid S)"

definition sections_deallocate :: "(nat \<Rightarrow> section_io) \<Rightarrow> nat \<Rightarrow> nat \<Rightarrow> sections_t \<Rightarrow> (int \<times> sections_t) option" where
  "sections_deallocate io sid i S =
     map_option (\<lambda>(s, S').
       case section_handle_deallocate i s of (s', r, _) \<Rightarrow>
         let S1 = sections_store (if r = 0 then section_on_dirty io S' s' else s') S'
         in (r, if r = 0 then sections_free sid S1 else S1)) (sections_find io sid S)"

definition round_robin_save :: "('i, 'm) cbor_api_scheme \<Rightarrow> bool \<Rightarrow> sections_t \<Rightarrow> sections_t" where
  "round_robin_save C ok S =
     (case round_robin_to_cbor C (sx_robin S) of
        None \<Rightarrow> S
      | Some c \<Rightarrow> if ok then S\<lparr>sx_robin_file := Some (cbor_serialize C c)\<rparr> else S)"

definition sections_write_meta :: "(nat \<Rightarrow> section_io) \<Rightarrow> sections_t \<Rightarrow> sections_t" where
  "sections_write_meta io S =
     S\<lparr>sx_lru := (sx_lru S)\<lparr>lru_cache := (\<lambda>k. map_option (\<lambda>n.
         if sec_dirty (node_value n)
         then n\<lparr>node_value := (section_save_meta (io k) (node_value n))\<lparr>sec_dirty := False\<rparr>\<rparr>
         else n) (lru_cache (sx_lru S) k))\<rparr>\<rparr>"

text \<open>Defragmentation goes over the cached sections in the order of the hash map, \<open>order\<close>; \<open>dense\<close> is the
  comparison of the occupancy (used slots over all slots) with the threshold of the request.\<close>

type_synonym block_relocation = "nat \<times> nat \<times> nat"

definition block_relocations :: "nat \<Rightarrow> relocation \<Rightarrow> block_relocation list" where
  "block_relocations sid reloc =
     concat (map (\<lambda>i. case reloc ! i of None \<Rightarrow> [] | Some j \<Rightarrow> if j = i then [] else [(sid, i, j)]) [0..<length reloc])"

definition sections_defragment_one ::
  "(nat \<Rightarrow> section_io) \<Rightarrow> (nat \<Rightarrow> nat \<Rightarrow> bool) \<Rightarrow> nat \<Rightarrow>
     nat \<times> block_relocation list \<times> sections_t \<Rightarrow> nat \<times> block_relocation list \<times> sections_t" where
  "sections_defragment_one io dense sid st =
     (case st of (n, relocs, S) \<Rightarrow>
       (case lru_values (sx_lru S) sid of
          None \<Rightarrow> st
        | Some s \<Rightarrow>
            let tot = total_blocks (sec_free_map s); free_count = section_count_free s; used = tot - free_count
            in if tot = 0 \<or> dense used tot \<or> free_count = tot \<or> used \<le> 1 then st
               else case section_handle_defragment (io sid) s of
                 (s', (r, rel, _), _) \<Rightarrow>
                   (case (if r = 0 then rel else None) of
                      Some reloc \<Rightarrow> (n + 1, relocs @ block_relocations (sec_id s) reloc, sections_store s' S)
                    | None \<Rightarrow> (n, relocs, sections_store s' S))))"

definition sections_defragment ::
  "(nat \<Rightarrow> section_io) \<Rightarrow> (nat \<Rightarrow> nat \<Rightarrow> bool) \<Rightarrow> nat list \<Rightarrow> sections_t \<Rightarrow> nat \<times> block_relocation list \<times> sections_t" where
  "sections_defragment io dense order S = fold (sections_defragment_one io dense) order (0, [], S)"

section \<open>The dispatch of the actor\<close>

text \<open>The messages the actor handles and the fields its payload is left with. In \<open>SECTIONS_DEFRAGMENT\<close> the
  threshold is the test \<open>dense\<close> and the order of the hash map is given; in \<open>SECTION_SAVE_META\<close> the argument
  tells whether the robin file could be written. Other messages, among them
  \<open>SECTION_DEALLOCATE\<close>, which is a message of a single section, are ignored.\<close>

datatype sections_msg =
  SECTIONS_WRITE bytes
| SECTIONS_READ nat nat
| SECTIONS_DEALLOCATE nat nat
| SECTIONS_SECTION_FULL nat
| SECTION_SAVE_META bool
| SECTION_WRITE_META
| SECTIONS_DEFRAGMENT "nat \<Rightarrow> nat \<Rightarrow> bool" "nat list"
| SECTION_DEALLOCATE nat
| SECTIONS_OTHER

datatype sections_reply =
  SECTIONS_WRITE_RESULT write_result
| SECTIONS_READ_RESULT "bytes option"
| SECTIONS_DEALLOCATE_RESULT int
| SECTIONS_DEFRAGMENT_RESULT nat "block_relocation list"
| SECTIONS_NO_RESULT

fun sections_dispatch ::
  "('i, 'm) cbor_api_scheme \<Rightarrow> (nat \<Rightarrow> section_io) \<Rightarrow> sections_msg \<Rightarrow> sections_t \<Rightarrow> (sections_reply \<times> sections_t) option" where
  "sections_dispatch C io (SECTIONS_WRITE data) S = map_option (map_prod SECTIONS_WRITE_RESULT id) (sections_write io data S)"
| "sections_dispatch C io (SECTIONS_READ sid i) S = map_option (map_prod SECTIONS_READ_RESULT id) (sections_read io sid i S)"
| "sections_dispatch C io (SECTIONS_DEALLOCATE sid i) S =
     map_option (map_prod SECTIONS_DEALLOCATE_RESULT id) (sections_deallocate io sid i S)"
| "sections_dispatch C io (SECTIONS_SECTION_FULL sid) S = Some (SECTIONS_NO_RESULT, sections_full io sid S)"
| "sections_dispatch C io (SECTION_SAVE_META ok) S = Some (SECTIONS_NO_RESULT, round_robin_save C ok S)"
| "sections_dispatch C io SECTION_WRITE_META S = Some (SECTIONS_NO_RESULT, sections_write_meta io S)"
| "sections_dispatch C io (SECTIONS_DEFRAGMENT dense order) S =
     (case sections_defragment io dense order S of
        (n, relocs, S') \<Rightarrow> Some (SECTIONS_DEFRAGMENT_RESULT n relocs, S'))"
| "sections_dispatch C io (SECTION_DEALLOCATE i) S = Some (SECTIONS_NO_RESULT, S)"
| "sections_dispatch C io SECTIONS_OTHER S = Some (SECTIONS_NO_RESULT, S)"

section \<open>Creation\<close>

text \<open>The robin file is loaded or replaced by an empty robin; full sections are taken out of it and new
  ones opened up to \<open>max_tuple_size\<close>. \<open>last_meta\<close> is the number of the last metadata file.\<close>

definition sections_load_robin ::
  "('i, 'm) cbor_api_scheme \<Rightarrow> bytes option \<Rightarrow> round_robin_t \<times> bytes option" where
  "sections_load_robin C file =
     (case file of
        None \<Rightarrow> ([], None)
      | Some buf \<Rightarrow>
          (case Option.bind (cbor_load C buf) (cbor_to_round_robin C) of
             None \<Rightarrow> ([], None)
           | Some robin \<Rightarrow> (robin, file)))"

primrec sections_check_robin :: "(nat \<Rightarrow> section_io) \<Rightarrow> nat list \<Rightarrow> sections_t \<Rightarrow> sections_t option" where
  "sections_check_robin io [] S = Some S"
| "sections_check_robin io (sid # sids) S =
     (case sections_open io sid S of
        None \<Rightarrow> None
      | Some (s, S') \<Rightarrow> sections_check_robin io sids (if section_full s then sections_full io sid S' else S'))"

primrec sections_top_up :: "nat \<Rightarrow> (nat \<Rightarrow> section_io) \<Rightarrow> sections_t \<Rightarrow> sections_t option" where
  "sections_top_up 0 io S = Some S"
| "sections_top_up (Suc n) io S =
     (case sections_open io (sx_next_id S) (S\<lparr>sx_next_id := sx_next_id S + 1\<rparr>) of
        None \<Rightarrow> None
      | Some (s, S') \<Rightarrow> sections_top_up n io (S'\<lparr>sx_robin := round_robin_add (sx_robin S') (sec_id s)\<rparr>))"

definition sections_create ::
  "('i, 'm) cbor_api_scheme \<Rightarrow> (nat \<Rightarrow> section_io) \<Rightarrow> (nat \<Rightarrow> bytes option \<times> bytes option \<times> bytes option) \<Rightarrow>
     bytes option \<Rightarrow> nat option \<Rightarrow> nat \<Rightarrow> nat \<Rightarrow> nat \<Rightarrow> block_size_e \<Rightarrow> bool \<Rightarrow> sections_t option" where
  "sections_create C io files robin_file last_meta sz cache_size tuple_size type timer =
     (let S = \<lparr>sx_lru = lru_cache_create cache_size, sx_robin = fst (sections_load_robin C robin_file),
               sx_max_tuple_size = tuple_size,
               sx_next_id = (case last_meta of None \<Rightarrow> 0 | Some i \<Rightarrow> i + 1),
               sx_size = sz, sx_type = type, sx_max_bytes = 0, sx_timer = timer, sx_disk = files,
               sx_robin_file = snd (sections_load_robin C robin_file)\<rparr>
      in Option.bind (sections_check_robin io (sx_robin S) S)
           (\<lambda>S. sections_top_up (sx_max_tuple_size S - length (sx_robin S)) io S))"

end
