(* ===== verification/Sections_Store.thy ===== *)
theory Sections_Store
  imports Sections
begin

text \<open>
  What the pool of sections promises: it stores blocks under pairs of a section number and a slot.
  \<open>stored\<close> is the state of a section wherever it is, in the cache or in its files; opening, ejecting and
  growing leave it alone, so the requests act on one map from addresses to blocks.
\<close>

section \<open>Sections and their files\<close>

type_synonym slot_state = "free_map_t \<times> bytes"

definition section_state :: "section_t \<Rightarrow> slot_state" where
  "section_state s = (sec_free_map s, sec_contents s)"

definition state_wf :: "nat \<Rightarrow> slot_state \<Rightarrow> bool" where
  "state_wf bs st \<longleftrightarrow> free_map_wf (fst st) \<and> total_blocks (fst st) < 2 ^ 32 \<and> slots_fit (fst st) bs (snd st)"

definition state_blocks :: "nat \<Rightarrow> slot_state \<Rightarrow> nat \<Rightarrow> bytes option" where
  "state_blocks bs st i = (if i \<in> used_slots (fst st) then Some (slot_data bs (snd st) i) else None)"

lemma section_blocks_state: "section_blocks s = state_blocks (sec_block_size s) (section_state s)"
  by (simp add: fun_eq_iff section_blocks_def state_blocks_def section_state_def)

lemma section_wf_state: "section_wf s \<longleftrightarrow> state_wf (sec_block_size s) (section_state s) \<and> 0 < sec_block_size s"
  by (auto simp: section_wf_def state_wf_def section_state_def slots_fit_def)

definition disk_state :: "nat \<Rightarrow> bytes option \<times> bytes option \<times> bytes option \<Rightarrow> slot_state" where
  "disk_state sz files =
     (case files of (data, meta, plan) \<Rightarrow>
       (case Option.bind meta free_map_deserialize of None \<Rightarrow> free_map_init sz | Some fm \<Rightarrow> fm,
        case data of None \<Rightarrow> [] | Some f \<Rightarrow> f))"

text \<open>Files that can be opened: no interrupted defragmentation and readable metadata.\<close>

definition disk_wf :: "bytes option \<times> bytes option \<times> bytes option \<Rightarrow> bool" where
  "disk_wf files \<longleftrightarrow>
     (case files of (data, meta, plan) \<Rightarrow>
       plan = None \<and> (\<forall>b. meta = Some b \<longrightarrow> free_map_deserialize b \<noteq> None \<and> length b \<le> 2 ^ 30))"

definition pool_io :: "(nat \<Rightarrow> section_io) \<Rightarrow> bool" where
  "pool_io io \<longleftrightarrow> (\<forall>sid. io_open (io sid) \<and> io_moves (io sid) 1000000 \<and> (\<exists>n \<ge> 2 ^ 30. io_meta (io sid) = Some n))"

lemma block_size_le: "block_size_bytes t \<le> 1000000" "0 < block_size_bytes t"
  by (cases t; simp)+

lemma meta_length:
  assumes "free_map_wf fm" and "total_blocks fm < 2 ^ 32"
  shows "length (free_map_serialize fm) \<le> 2 ^ 30"
proof -
  have "(total_blocks fm + 31) div 32 \<le> 2 ^ 27" using assms(2) by simp
  then show ?thesis using assms(1) by (simp add: length_free_map_serialize free_map_wf_def)
qed

lemma section_create_files:
  assumes "disk_wf files" and "pool_io io"
  shows "section_create (io sid) files sz sid bs =
    Some \<lparr>sec_id = sid, sec_free_map = fst (disk_state sz files), sec_block_size = bs, sec_dirty = False,
      sec_open = False, sec_file = fst files, sec_meta = fst (snd files), sec_plan = None\<rparr>"
proof -
  obtain d mt p where files: "files = (d, mt, p)" by (cases files)
  obtain n where n: "io_meta (io sid) = Some n" "2 ^ 30 \<le> n" using assms(2) by (auto simp: pool_io_def)
  show ?thesis
  proof (cases mt)
    case None
    then show ?thesis
      using assms(1) by (simp add: files section_create_def disk_state_def disk_wf_def section_defrag_plan_recover_def)
  next
    case (Some b)
    then obtain fm where "free_map_deserialize b = Some fm" and "length b \<le> n"
      using assms(1) n by (auto simp: files disk_wf_def)
    then show ?thesis
      using assms(1) n Some
      by (simp add: files section_create_def disk_state_def disk_wf_def section_defrag_plan_recover_def)
  qed
qed

section \<open>The pool\<close>

abbreviation sx_bytes :: "sections_t \<Rightarrow> nat" where
  "sx_bytes S \<equiv> block_size_bytes (sx_type S)"

definition stored :: "sections_t \<Rightarrow> nat \<Rightarrow> slot_state" where
  "stored S sid =
     (case lru_values (sx_lru S) sid of
        Some s \<Rightarrow> section_state s
      | None \<Rightarrow> disk_state (sx_size S) (sx_disk S sid))"

text \<open>A cached section whose files are current unless it is dirty.\<close>

definition cached_wf :: "sections_t \<Rightarrow> nat \<Rightarrow> section_t \<Rightarrow> bool" where
  "cached_wf S sid s \<longleftrightarrow> sec_id s = sid \<and> sec_block_size s = sx_bytes S \<and> sec_plan s = None \<and>
     (sec_dirty s \<or> disk_wf (section_files s) \<and> disk_state (sx_size S) (section_files s) = section_state s)"

definition pool_wf :: "sections_t \<Rightarrow> bool" where
  "pool_wf S \<longleftrightarrow> lru_ok (sx_lru S) \<and> 0 < lru_size (sx_lru S) \<and> 0 < sx_size S \<and> sx_size S < 2 ^ 32 \<and>
     (\<forall>sid s. lru_values (sx_lru S) sid = Some s \<longrightarrow> cached_wf S sid s) \<and>
     (\<forall>sid. lru_values (sx_lru S) sid = None \<longrightarrow> disk_wf (sx_disk S sid)) \<and>
     (\<forall>sid. state_wf (sx_bytes S) (stored S sid)) \<and>
     (\<forall>sid \<ge> sx_next_id S. lru_values (sx_lru S) sid = None \<and> stored S sid = (free_map_init (sx_size S), []))"

lemma pool_wfD:
  assumes "pool_wf S"
  shows "lru_ok (sx_lru S)" and "0 < lru_size (sx_lru S)" and "0 < sx_size S" and "sx_size S < 2 ^ 32"
    and "lru_values (sx_lru S) sid = Some s \<Longrightarrow> cached_wf S sid s"
    and "lru_values (sx_lru S) sid = None \<Longrightarrow> disk_wf (sx_disk S sid)"
    and "state_wf (sx_bytes S) (stored S sid)"
    and "sx_next_id S \<le> sid \<Longrightarrow> lru_values (sx_lru S) sid = None"
    and "sx_next_id S \<le> sid \<Longrightarrow> stored S sid = (free_map_init (sx_size S), [])"
  using assms by (auto simp: pool_wf_def)

definition sections_blocks :: "sections_t \<Rightarrow> nat \<times> nat \<Rightarrow> bytes option" where
  "sections_blocks S a = state_blocks (sx_bytes S) (stored S (fst a)) (snd a)"

text \<open>The fields that stay the same while sections are opened and ejected.\<close>

definition same_pool :: "sections_t \<Rightarrow> sections_t \<Rightarrow> bool" where
  "same_pool S S' \<longleftrightarrow> sx_max_tuple_size S' = sx_max_tuple_size S \<and> sx_size S' = sx_size S \<and>
     sx_type S' = sx_type S \<and> sx_max_bytes S' = sx_max_bytes S \<and> sx_timer S' = sx_timer S"

lemma same_pool_refl [simp]: "same_pool S S"
  by (simp add: same_pool_def)

lemma same_pool_trans: "same_pool S S' \<Longrightarrow> same_pool S' S'' \<Longrightarrow> same_pool S S''"
  by (simp add: same_pool_def)

text \<open>A destroyed section leaves files with its state.\<close>

lemma destroyed_files:
  assumes "cached_wf S sid s" and "state_wf (sx_bytes S) (section_state s)" and "pool_io io"
  shows "disk_wf (section_files (section_destroy (io sid) s)) \<and>
    disk_state (sx_size S) (section_files (section_destroy (io sid) s)) = section_state s"
proof (cases "sec_dirty s")
  case True
  let ?fm = "sec_free_map s"
  obtain n where n: "io_meta (io sid) = Some n" "2 ^ 30 \<le> n" using assms(3) by (auto simp: pool_io_def)
  have fm: "free_map_wf ?fm" "total_blocks ?fm < 2 ^ 32" using assms(2) by (auto simp: state_wf_def section_state_def)
  have len: "length (free_map_serialize ?fm) \<le> 2 ^ 30" by (rule meta_length [OF fm])
  have "section_files (section_destroy (io sid) s) = (sec_file s, Some (free_map_serialize ?fm), None)"
    using True n len assms(1) by (simp add: section_files_def section_destroy_def section_save_meta_def cached_wf_def)
  then show ?thesis
    using free_map_roundtrip [OF fm, of "[]"] len
    by (simp add: disk_wf_def disk_state_def section_state_def sec_contents_def)
next
  case False
  then have "section_files (section_destroy (io sid) s) = section_files s"
    by (simp add: section_destroy_def section_files_def)
  then show ?thesis using assms(1) False by (simp add: cached_wf_def)
qed

lemma lru_contains_values: "lru_cache_contains lru k \<longleftrightarrow> lru_values lru k \<noteq> None"
  by (simp add: lru_cache_contains_def lru_values_def)

lemma stored_cong:
  "lru_values (sx_lru S') = lru_values (sx_lru S) \<Longrightarrow> sx_disk S' = sx_disk S \<Longrightarrow> sx_size S' = sx_size S \<Longrightarrow>
    stored S' = stored S"
  by (simp add: stored_def fun_eq_iff split: option.splits)

text \<open>Putting a section into the cache: the states of all sections stay, the section is cached.\<close>

lemma sections_cache_new:
  assumes "pool_wf S" and "pool_io io" and "lru_values (sx_lru S) (sec_id s) = None"
    and "section_state s = stored S (sec_id s)" and "cached_wf S (sec_id s) s"
  shows "\<exists>lru d. sections_cache io s S = S\<lparr>sx_lru := lru, sx_disk := d\<rparr> \<and> lru_ok lru \<and>
    lru_size lru = lru_size (sx_lru S) \<and> lru_values lru (sec_id s) = Some s \<and>
    (\<forall>sid v. lru_values lru sid = Some v \<longrightarrow> sid = sec_id s \<and> v = s \<or> lru_values (sx_lru S) sid = Some v) \<and>
    (\<forall>sid. lru_values lru sid = None \<longrightarrow> disk_wf (d sid)) \<and>
    stored (S\<lparr>sx_lru := lru, sx_disk := d\<rparr>) = stored S"
proof -
  note wf = pool_wfD [OF assms(1)]
  obtain e lru where p: "sections_lru_cache_put (sx_lru S) (sec_id s) s = (e, lru)" and ok: "lru_ok lru"
      and sz: "lru_size lru = lru_size (sx_lru S)"
      and c: "e = None \<and> lru_values lru = (lru_values (sx_lru S))(sec_id s \<mapsto> s) \<or>
        (\<exists>j w. e = Some (j, w) \<and> j \<noteq> sec_id s \<and> lru_values (sx_lru S) j = Some w \<and>
          lru_values lru = (lru_values (sx_lru S))(j := None, sec_id s \<mapsto> s))"
    using lru_ok_put_new [OF wf(1) assms(3) wf(2)] by blast
  from c show ?thesis
  proof
    assume e: "e = None \<and> lru_values lru = (lru_values (sx_lru S))(sec_id s \<mapsto> s)"
    have "stored (S\<lparr>sx_lru := lru, sx_disk := sx_disk S\<rparr>) = stored S"
      using e assms(3,4) by (auto simp: stored_def fun_eq_iff split: option.splits)
    then show ?thesis
      by (intro exI [of _ lru] exI [of _ "sx_disk S"])
        (use e ok sz p wf(6) in \<open>auto simp: sections_cache_def split: if_splits\<close>)
  next
    assume "\<exists>j w. e = Some (j, w) \<and> j \<noteq> sec_id s \<and> lru_values (sx_lru S) j = Some w \<and>
        lru_values lru = (lru_values (sx_lru S))(j := None, sec_id s \<mapsto> s)"
    then obtain j w where e: "e = Some (j, w)" "j \<noteq> sec_id s" "lru_values (sx_lru S) j = Some w"
        "lru_values lru = (lru_values (sx_lru S))(j := None, sec_id s \<mapsto> s)" by blast
    let ?d = "(sx_disk S)(j := section_files (section_destroy (io j) w))"
    have j: "disk_wf (?d j) \<and> disk_state (sx_size S) (?d j) = section_state w"
      using destroyed_files [OF wf(5) [OF e(3)] _ assms(2)] wf(7) [of j] e(3) by (simp add: stored_def)
    then have "stored (S\<lparr>sx_lru := lru, sx_disk := ?d\<rparr>) = stored S"
      using e assms(3,4) by (auto simp: stored_def fun_eq_iff split: option.splits)
    then show ?thesis
      by (intro exI [of _ lru] exI [of _ ?d])
        (use e ok sz p wf(6) j in \<open>auto simp: sections_cache_def split: if_splits\<close>)
  qed
qed

lemma sections_open_new:
  assumes "pool_wf S" and "pool_io io" and "lru_values (sx_lru S) sid = None"
    and "sid < n" and "sx_next_id S \<le> n"
  shows "\<exists>s S'. sections_open io sid S = Some (s, S') \<and> section_state s = stored S sid \<and> sec_id s = sid \<and>
    sec_block_size s = sx_bytes S \<and> sec_plan s = None \<and> lru_values (sx_lru S') sid = Some s \<and>
    stored S' = stored S \<and> same_pool S S' \<and> sx_robin S' = sx_robin S \<and> sx_next_id S' = sx_next_id S \<and>
    pool_wf (S'\<lparr>sx_next_id := n\<rparr>) \<and>
    (\<forall>x. x \<noteq> sid \<longrightarrow> lru_values (sx_lru S) x = None \<longrightarrow> lru_values (sx_lru S') x = None)"
proof -
  note wf = pool_wfD [OF assms(1)]
  let ?files = "sx_disk S sid"
  have dw: "disk_wf ?files" by (rule wf(6) [OF assms(3)])
  define s where "s = \<lparr>sec_id = sid, sec_free_map = fst (disk_state (sx_size S) ?files), sec_block_size = sx_bytes S,
      sec_dirty = False, sec_open = False, sec_file = fst ?files, sec_meta = fst (snd ?files), sec_plan = None\<rparr>"
  have create: "section_create (io sid) ?files (sx_size S) sid (sx_bytes S) = Some s"
    unfolding s_def by (rule section_create_files [OF dw assms(2)])
  have id: "sec_id s = sid" by (simp add: s_def)
  have st: "section_state s = stored S sid"
    using assms(3) by (simp add: s_def section_state_def stored_def disk_state_def sec_contents_def split: prod.splits)
  have files: "section_files s = ?files"
    using dw by (simp add: s_def section_files_def disk_wf_def split: prod.splits)
  have cw: "cached_wf S sid s"
    using st assms(3) dw by (simp add: cached_wf_def files stored_def) (simp add: s_def)
  obtain lru d where c: "sections_cache io s S = S\<lparr>sx_lru := lru, sx_disk := d\<rparr>" "lru_ok lru"
      "lru_size lru = lru_size (sx_lru S)" "lru_values lru sid = Some s"
      "\<forall>x v. lru_values lru x = Some v \<longrightarrow> x = sid \<and> v = s \<or> lru_values (sx_lru S) x = Some v"
      "\<forall>x. lru_values lru x = None \<longrightarrow> disk_wf (d x)" "stored (S\<lparr>sx_lru := lru, sx_disk := d\<rparr>) = stored S"
    using sections_cache_new [OF assms(1,2), of s, unfolded id, OF assms(3) st cw] by blast
  let ?l = "node_write (Some sid) (\<lambda>n. n\<lparr>node_value := s\<rparr>) lru"
  let ?S = "S\<lparr>sx_lru := ?l, sx_disk := d\<rparr>"
  have vals: "lru_values ?l = lru_values lru"
    using lru_ok_set_value(2) [OF c(2), of sid s] c(4) by (auto simp: fun_eq_iff)
  have open_eq: "sections_open io sid S = Some (s, ?S)"
    using c(1,4) create id by (simp add: sections_open_def sections_store_def lru_contains_values)
  have stored: "stored ?S = stored S"
    by (rule trans [OF stored_cong c(7)]) (use vals in simp_all)
  define T where "T = ?S\<lparr>sx_next_id := n\<rparr>"
  have T: "sx_lru T = ?l" "sx_disk T = d" "sx_size T = sx_size S" "sx_type T = sx_type S" "sx_next_id T = n"
    by (simp_all add: T_def)
  have stT: "stored T = stored S" by (rule trans [OF stored_cong stored]) (simp_all add: T_def)
  have cwT: "cached_wf T x v" if "lru_values lru x = Some v" for x v
    using c(5) that cw wf(5) [of x v] by (auto simp: cached_wf_def T)
  have nT: "lru_values lru x = None" if "n \<le> x" for x
  proof -
    have "lru_values (sx_lru S) x = None" using wf(8) assms(5) that by simp
    then show ?thesis using c(5) that assms(4) by (cases "lru_values lru x") fastforce+
  qed
  have "pool_wf T"
    unfolding pool_wf_def T vals stT
  proof (intro conjI allI impI)
    show "lru_ok ?l" by (rule lru_ok_set_value(1) [OF c(2)])
    show "0 < lru_size ?l" using wf(2) c(3) by simp
    show "stored S x = (free_map_init (sx_size S), [])" if "n \<le> x" for x
      using wf(9) assms(5) that by simp
  qed (use wf(3,4,7) cwT c(6) nT in simp_all)
  then have "pool_wf (?S\<lparr>sx_next_id := n\<rparr>)" by (simp add: T_def)
  moreover have "lru_values lru x = None" if "x \<noteq> sid" "lru_values (sx_lru S) x = None" for x
    using c(5) that by (cases "lru_values lru x") fastforce+
  ultimately show ?thesis
    by (intro exI [of _ s] exI [of _ ?S]) (use open_eq st id c(4) vals stored in \<open>simp add: s_def same_pool_def\<close>)
qed

section \<open>Growth\<close>

lemma stored_robin [simp]: "stored (S\<lparr>sx_robin := r\<rparr>) = stored S" "stored (S\<lparr>sx_next_id := n\<rparr>) = stored S"
  by (rule stored_cong; simp)+

lemma pool_wf_robin [simp]: "pool_wf (S\<lparr>sx_robin := r\<rparr>) = pool_wf S"
  by (simp add: pool_wf_def cached_wf_def)

lemma same_pool_robin [simp]: "same_pool S (S'\<lparr>sx_robin := r\<rparr>) = same_pool S S'"
    "same_pool S (S'\<lparr>sx_next_id := n\<rparr>) = same_pool S S'" "same_pool (S\<lparr>sx_robin := r\<rparr>) S' = same_pool S S'"
  by (simp_all add: same_pool_def)

lemma same_pool_target: "same_pool S S' \<Longrightarrow> sections_target_count S' = sections_target_count S"
  by (simp add: same_pool_def sections_target_count_def Let_def)

text \<open>The robin holds existing sections with room, those in \<open>A\<close> excepted.\<close>

definition has_room :: "sections_t \<Rightarrow> nat \<Rightarrow> bool" where
  "has_room S sid \<longleftrightarrow> sid < sx_next_id S \<and> free_slots (fst (stored S sid)) \<noteq> {}"

definition robin_but :: "nat set \<Rightarrow> sections_t \<Rightarrow> bool" where
  "robin_but A S \<longleftrightarrow> distinct (sx_robin S) \<and>
     (\<forall>sid \<in> set (sx_robin S). sid < sx_next_id S \<and> (sid \<in> A \<or> has_room S sid))"

abbreviation robin_ok :: "sections_t \<Rightarrow> bool" where
  "robin_ok \<equiv> robin_but {}"

lemma robin_ok_def: "robin_ok S \<longleftrightarrow> distinct (sx_robin S) \<and> (\<forall>sid \<in> set (sx_robin S). has_room S sid)"
  by (auto simp: robin_but_def has_room_def)

text \<open>\<open>S'\<close> is \<open>S\<close> with more sections opened.\<close>

definition grown :: "sections_t \<Rightarrow> sections_t \<Rightarrow> bool" where
  "grown S S' \<longleftrightarrow> pool_wf S' \<and> stored S' = stored S \<and> same_pool S S' \<and> sx_next_id S \<le> sx_next_id S'"

lemma grown_refl: "pool_wf S \<Longrightarrow> grown S S"
  by (simp add: grown_def)

lemma grown_trans: "grown S S' \<Longrightarrow> grown S' S'' \<Longrightarrow> grown S S''"
  by (auto simp: grown_def intro: same_pool_trans)

lemma grown_robin [simp]: "grown S (S'\<lparr>sx_robin := r\<rparr>) = grown S S'" "grown (S\<lparr>sx_robin := r\<rparr>) S' = grown S S'"
  by (simp_all add: grown_def)

lemma grown_has_room: "grown S S' \<Longrightarrow> has_room S sid \<Longrightarrow> has_room S' sid"
  by (auto simp: grown_def has_room_def)

lemma sections_create_fresh_ok:
  assumes "pool_wf S" and "pool_io io"
  shows "\<exists>S'. sections_create_fresh io S = Some (sx_next_id S, S') \<and> grown S S' \<and> sx_robin S' = sx_robin S \<and>
    sx_next_id S' = Suc (sx_next_id S) \<and> has_room S' (sx_next_id S)"
proof -
  note wf = pool_wfD [OF assms(1)]
  let ?n = "sx_next_id S"
  obtain s S' where o: "sections_open io ?n S = Some (s, S')" "sec_id s = ?n" "stored S' = stored S" "same_pool S S'"
      "sx_robin S' = sx_robin S" "pool_wf (S'\<lparr>sx_next_id := Suc ?n\<rparr>)"
    using sections_open_new [OF assms wf(8) [OF order_refl], of "Suc ?n"] by auto
  have "free_slots (fst (stored S ?n)) \<noteq> {}" using wf(3) wf(9) [OF order_refl] by simp
  then show ?thesis
    using o by (auto simp: sections_create_fresh_def grown_def has_room_def)
qed

text \<open>Growth opens new sections only.\<close>

definition opens_new :: "sections_t \<Rightarrow> sections_t \<Rightarrow> bool" where
  "opens_new S S' \<longleftrightarrow> sx_next_id S \<le> sx_next_id S' \<and>
     (\<forall>x < sx_next_id S. lru_values (sx_lru S) x = None \<longrightarrow> lru_values (sx_lru S') x = None)"

lemma opens_new_refl: "opens_new S S"
  by (simp add: opens_new_def)

lemma opens_new_trans: "opens_new S S' \<Longrightarrow> opens_new S' S'' \<Longrightarrow> opens_new S S''"
  by (auto simp: opens_new_def)

lemma opens_new_robin [simp]: "opens_new S (S'\<lparr>sx_robin := r\<rparr>) = opens_new S S'" "opens_new (S\<lparr>sx_robin := r\<rparr>) S' = opens_new S S'"
  by (simp_all add: opens_new_def)

lemma sections_create_fresh_new:
  assumes "pool_wf S" and "pool_io io" and "sections_create_fresh io S = Some (i, S')"
  shows "opens_new S S'"
  using sections_open_new [OF assms(1,2) pool_wfD(8) [OF assms(1) order_refl], of "Suc (sx_next_id S)"] assms(3)
  by (auto simp: sections_create_fresh_def opens_new_def)

lemma robin_ok_more:
  assumes "robin_but A S" and "grown S S'" and "sx_robin S' = sx_robin S"
    and "has_room S' (sx_next_id S)"
    and "set r = insert (sx_next_id S) (set (sx_robin S))" and "length r = Suc (length (sx_robin S))"
  shows "robin_but A (S'\<lparr>sx_robin := r\<rparr>)"
proof -
  have "sx_next_id S \<notin> set (sx_robin S)" using assms(1) by (auto simp: robin_but_def has_room_def)
  then have "distinct r"
    using assms(1,5,6) by (simp add: card_distinct distinct_card robin_but_def)
  then show ?thesis
    using assms(1,2,4,5) by (auto simp: robin_but_def has_room_def grown_def)
qed

lemma sections_refill_ok:
  assumes "pool_wf S" and "robin_but A S" and "pool_io io"
  shows "grown S (sections_refill n io S) \<and> robin_but A (sections_refill n io S) \<and>
    length (sx_robin (sections_refill n io S)) = length (sx_robin S) + n"
  using assms(1,2)
proof (induction n arbitrary: S)
  case 0
  then show ?case by (simp add: grown_refl)
next
  case (Suc n)
  obtain S' where f: "sections_create_fresh io S = Some (sx_next_id S, S')" "grown S S'" "sx_robin S' = sx_robin S"
      "has_room S' (sx_next_id S)"
    using sections_create_fresh_ok [OF Suc.prems(1) assms(3)] by blast
  let ?S = "S'\<lparr>sx_robin := round_robin_unshift (sx_robin S') (sx_next_id S)\<rparr>"
  have ok: "robin_but A ?S"
    by (rule robin_ok_more [OF Suc.prems(2) f(2-4)]) (simp_all add: round_robin_unshift_def f(3))
  have "pool_wf ?S" using f(2) by (simp add: grown_def)
  from Suc.IH [OF this ok] show ?case
    using f grown_trans by (auto simp: round_robin_unshift_def)
qed

lemma sections_grow_ok:
  assumes "pool_wf S" and "robin_but A S" and "pool_io io"
  shows "\<exists>S'. sections_grow io S = (0, S') \<and> grown S S' \<and> robin_but A S' \<and> length (sx_robin S') = Suc (length (sx_robin S))"
proof -
  obtain S' where f: "sections_create_fresh io S = Some (sx_next_id S, S')" "grown S S'" "sx_robin S' = sx_robin S"
      "has_room S' (sx_next_id S)"
    using sections_create_fresh_ok [OF assms(1,3)] by blast
  have "robin_but A (S'\<lparr>sx_robin := round_robin_add (sx_robin S') (sx_next_id S)\<rparr>)"
    by (rule robin_ok_more [OF assms(2) f(2-4)]) (simp_all add: round_robin_add_def f(3))
  then show ?thesis using f by (simp add: sections_grow_def round_robin_add_def)
qed

lemma sections_grow_by_ok:
  assumes "pool_wf S" and "robin_but A S" and "pool_io io"
  shows "grown S (sections_grow_by n io S) \<and> robin_but A (sections_grow_by n io S) \<and>
    length (sx_robin (sections_grow_by n io S)) = length (sx_robin S) + n"
  using assms(1,2)
proof (induction n arbitrary: S)
  case 0
  then show ?case by (simp add: grown_refl)
next
  case (Suc n)
  obtain S' where g: "sections_grow io S = (0, S')" "grown S S'" "robin_but A S'" "length (sx_robin S') = Suc (length (sx_robin S))"
    using sections_grow_ok [OF Suc.prems assms(3)] by blast
  then have "pool_wf S'" by (simp add: grown_def)
  from Suc.IH [OF this g(3)] show ?case using g grown_trans by auto
qed

text \<open>Taking a full section out of the robin: afterwards every section in it has room and there are at
  least \<open>max_tuple_size\<close> of them.\<close>

lemma sections_full_ok:
  assumes "pool_wf S" and "pool_io io" and "robin_but (insert sid A) S"
  shows "grown S (sections_full io sid S) \<and> robin_but A (sections_full io sid S) \<and>
    sx_max_tuple_size S \<le> length (sx_robin (sections_full io sid S))"
proof -
  let ?S1 = "S\<lparr>sx_robin := round_robin_remove (sx_robin S) sid\<rparr>"
  let ?S2 = "sections_refill (sx_max_tuple_size S - length (sx_robin ?S1)) io ?S1"
  have ok: "robin_but A ?S1"
    using assms(3) by (auto simp: robin_but_def round_robin_remove_def has_room_def)
  from sections_refill_ok [OF _ ok assms(2)] assms(1)
  have S2: "grown S ?S2" "robin_but A ?S2" "sx_max_tuple_size S \<le> length (sx_robin ?S2)" by auto
  then have "pool_wf ?S2" by (simp add: grown_def)
  from sections_grow_by_ok [OF this S2(2) assms(2)] show ?thesis
    using S2 grown_trans by (auto simp: sections_full_def Let_def intro: order_trans)
qed

text \<open>How many sections a full one may add.\<close>

lemma sections_create_fresh_next:
  "sections_create_fresh io S = Some (i, S') \<Longrightarrow> sx_next_id S' = Suc (sx_next_id S) \<and> sx_robin S' = sx_robin S"
  by (auto simp: sections_create_fresh_def sections_open_def sections_store_def sections_cache_def split: option.splits prod.splits)

lemma sections_refill_next:
  "sx_next_id (sections_refill n io S) \<le> sx_next_id S + n \<and> length (sx_robin S) \<le> length (sx_robin (sections_refill n io S))"
proof (induction n arbitrary: S)
  case (Suc n)
  show ?case
  proof (cases "sections_create_fresh io S")
    case (Some f)
    obtain i S' where f: "f = (i, S')" by (cases f)
    let ?S = "S'\<lparr>sx_robin := round_robin_unshift (sx_robin S') i\<rparr>"
    show ?thesis using Suc.IH [of ?S] sections_create_fresh_next [of io S i S'] Some f by (simp add: round_robin_unshift_def)
  qed simp
qed simp

lemma sections_grow_by_next: "sx_next_id (sections_grow_by n io S) \<le> sx_next_id S + n"
proof (induction n arbitrary: S)
  case (Suc n)
  show ?case
  proof (cases "sections_create_fresh io S")
    case (Some f)
    obtain i S' where f: "f = (i, S')" by (cases f)
    let ?S = "S'\<lparr>sx_robin := round_robin_add (sx_robin S') i\<rparr>"
    show ?thesis using Suc.IH [of ?S] sections_create_fresh_next [of io S i S'] Some f by (simp add: sections_grow_def)
  qed (simp add: sections_grow_def)
qed simp

lemma sections_full_next:
  assumes "sx_max_tuple_size S \<le> length (sx_robin S)"
  shows "sx_next_id (sections_full io sid S) \<le> sx_next_id S + 3"
proof -
  let ?S1 = "S\<lparr>sx_robin := round_robin_remove (sx_robin S) sid\<rparr>" and ?n = "length (sx_robin S)"
  let ?k = "sx_max_tuple_size S - length (sx_robin ?S1)"
  let ?S2 = "sections_refill ?k io ?S1"
  have "?n \<le> length (sx_robin ?S1) + 1" by (auto simp: round_robin_remove_def length_remove1)
  then have r: "sx_next_id ?S2 \<le> sx_next_id S + 1" "?n \<le> length (sx_robin ?S2) + 1"
    using sections_refill_next [of ?k io ?S1] assms by auto
  have g: "sx_next_id (sections_grow_by (w - length (sx_robin ?S2)) io ?S2) \<le> sx_next_id S + 3" if "w \<le> length (sx_robin ?S2) + 2" for w
    using sections_grow_by_next [of "w - length (sx_robin ?S2)" io ?S2] r(1) that by arith
  show ?thesis using g r by (simp add: sections_full_def Let_def)
qed

lemma sections_refill_new:
  assumes "pool_wf S" and "pool_io io"
  shows "opens_new S (sections_refill n io S) \<and> pool_wf (sections_refill n io S)"
  using assms(1)
proof (induction n arbitrary: S)
  case (Suc n)
  obtain S' where f: "sections_create_fresh io S = Some (sx_next_id S, S')" "grown S S'"
    using sections_create_fresh_ok [OF Suc.prems assms(2)] by blast
  then have "pool_wf (S'\<lparr>sx_robin := r\<rparr>)" for r by (simp add: grown_def)
  from Suc.IH [OF this] show ?case
    using f(1) sections_create_fresh_new [OF Suc.prems assms(2) f(1)] opens_new_trans by simp
qed (simp add: opens_new_refl)

lemma sections_grow_by_new:
  assumes "pool_wf S" and "pool_io io"
  shows "opens_new S (sections_grow_by n io S)"
  using assms(1)
proof (induction n arbitrary: S)
  case (Suc n)
  obtain S' where f: "sections_create_fresh io S = Some (sx_next_id S, S')" "grown S S'"
    using sections_create_fresh_ok [OF Suc.prems assms(2)] by blast
  then have "pool_wf (S'\<lparr>sx_robin := r\<rparr>)" for r by (simp add: grown_def)
  from Suc.IH [OF this] show ?case
    using f(1) sections_create_fresh_new [OF Suc.prems assms(2) f(1)] opens_new_trans
    by (simp add: sections_grow_def)
qed (simp add: opens_new_refl)

lemma sections_full_new:
  assumes "pool_wf S" and "pool_io io"
  shows "opens_new S (sections_full io sid S)"
proof -
  let ?S1 = "S\<lparr>sx_robin := round_robin_remove (sx_robin S) sid\<rparr>"
  have S2: "opens_new S (sections_refill n io ?S1)" "pool_wf (sections_refill n io ?S1)" for n
    using sections_refill_new [of ?S1 io n] assms by auto
  then have "opens_new S (sections_grow_by k io (sections_refill n io ?S1))" for n k
    using sections_grow_by_new [OF _ assms(2)] opens_new_trans by blast
  then show ?thesis using S2(1) by (simp add: sections_full_def Let_def)
qed

section \<open>Requests\<close>

lemma sections_get_ok:
  assumes "pool_wf S"
  shows "\<exists>S'. sections_get sid S = (lru_values (sx_lru S) sid, S') \<and> grown S S' \<and> sx_robin S' = sx_robin S \<and>
    sx_next_id S' = sx_next_id S \<and> lru_values (sx_lru S') = lru_values (sx_lru S)"
proof -
  note wf = pool_wfD [OF assms]
  obtain l where l: "lru_cache_get (sx_lru S) sid = (lru_values (sx_lru S) sid, l)" "lru_ok l"
      "lru_values l = lru_values (sx_lru S)" "lru_size l = lru_size (sx_lru S)"
    using lru_ok_get [OF wf(1)] by metis
  have st: "stored (S\<lparr>sx_lru := l\<rparr>) = stored S" by (rule stored_cong) (simp_all add: l)
  have "pool_wf (S\<lparr>sx_lru := l\<rparr>)"
    using assms l st by (simp add: pool_wf_def cached_wf_def)
  then show ?thesis
    using l st by (simp add: sections_get_def grown_def same_pool_def)
qed

text \<open>The cached section or the one opened from its files.\<close>

definition sections_acquire ::
  "(nat \<Rightarrow> section_io) \<Rightarrow> nat \<Rightarrow> sections_t \<Rightarrow> (section_t \<times> sections_t) option" where
  "sections_acquire io sid S =
     (case sections_get sid S of (Some s, S') \<Rightarrow> Some (s, S') | (None, S') \<Rightarrow> sections_open io sid S')"

lemma sections_acquire_ok:
  assumes "pool_wf S" and "pool_io io" and "sid < sx_next_id S"
  shows "\<exists>s S'. sections_acquire io sid S = Some (s, S') \<and> grown S S' \<and> section_state s = stored S sid \<and>
    lru_values (sx_lru S') sid = Some s \<and> sx_robin S' = sx_robin S \<and> sx_next_id S' = sx_next_id S"
proof -
  obtain S1 where g: "sections_get sid S = (lru_values (sx_lru S) sid, S1)" "grown S S1" "sx_robin S1 = sx_robin S"
      "sx_next_id S1 = sx_next_id S" "lru_values (sx_lru S1) = lru_values (sx_lru S)"
    using sections_get_ok [OF assms(1)] by blast
  show ?thesis
  proof (cases "lru_values (sx_lru S) sid")
    case (Some s)
    then show ?thesis using g by (simp add: sections_acquire_def stored_def)
  next
    case None
    have "pool_wf S1" using g(2) by (simp add: grown_def)
    moreover have "lru_values (sx_lru S1) sid = None" using None g(5) by simp
    ultimately obtain s S' where o: "sections_open io sid S1 = Some (s, S')" "section_state s = stored S1 sid"
        "lru_values (sx_lru S') sid = Some s" "stored S' = stored S1" "same_pool S1 S'" "sx_robin S' = sx_robin S1"
        "sx_next_id S' = sx_next_id S1" "pool_wf (S'\<lparr>sx_next_id := sx_next_id S\<rparr>)"
      using sections_open_new [OF _ assms(2), of S1 sid "sx_next_id S"] assms(3) g(4) by auto
    have "sx_next_id S = sx_next_id S'" using o(7) g(4) by simp
    with o(8) have "pool_wf S'" by simp
    then have "grown S S'" using o g by (auto simp: grown_def intro: same_pool_trans)
    then show ?thesis
      using o g None by (auto simp: sections_acquire_def grown_def)
  qed
qed

lemma cached_before_next:
  assumes "pool_wf S" and "lru_values (sx_lru S) sid = Some s"
  shows "sid < sx_next_id S"
  using pool_wfD(8) [OF assms(1), of sid] assms(2) by fastforce

lemma sections_store_ok:
  assumes "pool_wf S" and "lru_values (sx_lru S) sid = Some s" and "cached_wf S sid s'"
    and "state_wf (sx_bytes S) (section_state s')"
  shows "pool_wf (sections_store s' S)" and "stored (sections_store s' S) = (stored S)(sid := section_state s')"
    and "same_pool S (sections_store s' S)" and "sx_robin (sections_store s' S) = sx_robin S"
    and "sx_next_id (sections_store s' S) = sx_next_id S"
proof -
  note wf = pool_wfD [OF assms(1)]
  let ?l = "node_write (Some sid) (\<lambda>n. n\<lparr>node_value := s'\<rparr>) (sx_lru S)"
  have id: "sec_id s' = sid" using assms(3) by (simp add: cached_wf_def)
  have eq: "sections_store s' S = S\<lparr>sx_lru := ?l\<rparr>"
    using assms(2) by (simp add: sections_store_def id lru_contains_values)
  have vals: "lru_values ?l = (lru_values (sx_lru S))(sid \<mapsto> s')"
    using lru_ok_set_value(2) [OF wf(1), of sid s'] assms(2) by simp
  show st: "stored (sections_store s' S) = (stored S)(sid := section_state s')"
    using vals by (auto simp: eq stored_def fun_eq_iff split: option.splits)
  have "sid < sx_next_id S" by (rule cached_before_next [OF assms(1,2)])
  then show "pool_wf (sections_store s' S)"
    unfolding pool_wf_def st using wf assms(3,4) lru_ok_set_value(1) [OF wf(1), of sid s']
    by (auto simp: eq vals cached_wf_def split: if_splits)
  show "same_pool S (sections_store s' S)" and "sx_robin (sections_store s' S) = sx_robin S"
    and "sx_next_id (sections_store s' S) = sx_next_id S"
    by (simp_all add: eq same_pool_def)
qed

lemma section_on_dirty_ok:
  assumes "sec_dirty s" and "sec_id s = sid" and "sec_block_size s = sx_bytes S" and "sec_plan s = None"
    and "state_wf (sx_bytes S) (section_state s)" and "pool_io io"
  shows "cached_wf S sid (section_on_dirty io S s)" and "section_state (section_on_dirty io S s) = section_state s"
proof -
  let ?s = "section_save_meta (io sid) s"
  have "section_state (section_on_dirty io S s) = section_state ?s \<or> section_on_dirty io S s = s"
    by (simp add: section_on_dirty_def section_state_def sec_contents_def assms(2))
  then show st: "section_state (section_on_dirty io S s) = section_state s"
    by (auto simp: section_state_def)
  show "cached_wf S sid (section_on_dirty io S s)"
  proof (cases "sx_timer S")
    case True
    then show ?thesis using assms by (simp add: section_on_dirty_def cached_wf_def)
  next
    case False
    have "cached_wf S sid s" using assms by (simp add: cached_wf_def)
    from destroyed_files [OF this assms(5,6)] False assms st show ?thesis
      by (simp add: section_on_dirty_def cached_wf_def section_destroy_def section_files_def section_save_meta_def
          split: option.splits)
  qed
qed

lemma section_handle_write_succeeds:
  assumes "section_wf s" and "length d = sec_block_size s" and "free_slots (sec_free_map s) \<noteq> {}"
    and "io_open io" and "io_moves io (sec_block_size s)"
  shows "\<exists>s' i full r. section_handle_write io d s = (s', (0, i, full), r) \<and>
    sec_id s' = sec_id s \<and> sec_plan s' = sec_plan s"
proof -
  obtain i fm where a: "free_map_alloc (sec_free_map s) = Some (i, fm)"
    using free_map_alloc_None [of "sec_free_map s"] assms(3) by (cases "free_map_alloc (sec_free_map s)") auto
  have "sec_block_size s \<le> io_pwrite io (sec_block_size s * i)" using assms(5) by (simp add: io_moves_def)
  then show ?thesis
    using a assms(2,4) by (simp add: section_handle_write_def Let_def min_def)
qed

lemma state_free_used:
  assumes "state_wf bs st" and "state_blocks bs st i = None"
  shows "i \<notin> used_slots (fst st)"
  using assms by (simp add: state_blocks_def split: if_splits)

definition sections_wf :: "sections_t \<Rightarrow> bool" where
  "sections_wf S \<longleftrightarrow> pool_wf S \<and> robin_ok S \<and> sx_max_tuple_size S \<le> length (sx_robin S) \<and> 0 < sx_max_tuple_size S"

lemma cached_section_wf:
  assumes "pool_wf S" and "lru_values (sx_lru S) sid = Some s"
  shows "section_wf s" and "stored S sid = section_state s" and "sec_id s = sid" and "sec_block_size s = sx_bytes S"
    and "sec_plan s = None"
proof -
  note wf = pool_wfD [OF assms(1)]
  show st: "stored S sid = section_state s" using assms(2) by (simp add: stored_def)
  show "sec_id s = sid" and bs: "sec_block_size s = sx_bytes S" and "sec_plan s = None"
    using wf(5) [OF assms(2)] by (simp_all add: cached_wf_def)
  show "section_wf s" using wf(7) [of sid] st bs block_size_le by (simp add: section_wf_state)
qed

lemma sections_write_to_ok:
  assumes "pool_wf S" and "pool_io io" and "lru_values (sx_lru S) sid = Some s" and "robin_ok S" and "has_room S sid"
    and "sx_max_tuple_size S \<le> length (sx_robin S)" and "length data = sx_bytes S"
  shows "\<exists>i S' st. sections_write_to io data sid s S = ((0, sid, i), S') \<and> pool_wf S' \<and> robin_ok S' \<and>
    sx_max_tuple_size S \<le> length (sx_robin S') \<and> same_pool S S' \<and> sx_next_id S \<le> sx_next_id S' \<and>
    sx_next_id S' \<le> sx_next_id S + 3 \<and> state_blocks (sx_bytes S) (stored S sid) i = None \<and>
    stored S' = (stored S)(sid := st) \<and> state_blocks (sx_bytes S) st = (state_blocks (sx_bytes S) (stored S sid))(i \<mapsto> data)"
proof -
  note c = cached_section_wf [OF assms(1,3)]
  have free: "free_slots (sec_free_map s) \<noteq> {}"
    using assms(5) c(2) by (simp add: has_room_def section_state_def)
  have io: "io_open (io sid)" "io_moves (io sid) (sec_block_size s)"
    using assms(2) block_size_le(1) [of "sx_type S"] c(4) by (auto simp: pool_io_def io_moves_def intro: order_trans)
  obtain s' i full r where w: "section_handle_write (io sid) data s = (s', (0, i, full), r)" "sec_id s' = sid" "sec_plan s' = None"
    using section_handle_write_succeeds [OF c(1) _ free io, of data] assms(7) c(3-5) by auto
  note ok = section_handle_write_ok [OF c(1) w(1)]
  define st where "st = section_state s'"
  let ?s = "section_on_dirty io S s'"
  have stw: "state_wf (sx_bytes S) st" and bs: "sec_block_size s' = sx_bytes S"
    using ok(1,9) c(4) by (auto simp: st_def section_wf_state)
  have cw: "cached_wf S sid ?s" "section_state ?s = st"
    using section_on_dirty_ok [OF ok(7) w(2) bs w(3) _ assms(2)] stw by (auto simp: st_def)
  note S1 = sections_store_ok [OF assms(1,3) cw(1) stw [folded cw(2)], unfolded cw(2)]
  let ?S1 = "sections_store ?s S"
  have room: "has_room ?S1 x" if "x \<in> set (sx_robin S)" and "x \<noteq> sid" for x
    using assms(4) that S1(2,5) by (auto simp: robin_ok_def has_room_def)
  have blocks: "state_blocks (sx_bytes S) (stored S sid) i = None"
      "state_blocks (sx_bytes S) st = (state_blocks (sx_bytes S) (stored S sid))(i \<mapsto> data)"
    using ok(3,4) c(2,4) bs by (auto simp: section_blocks_state st_def)
  define S' where "S' = (if full then sections_full io sid ?S1 else ?S1)"
  have eq: "sections_write_to io data sid s S = ((0, sid, i), S')"
    by (simp add: sections_write_to_def w(1) S'_def Let_def)
  have "grown ?S1 S' \<and> robin_ok S' \<and> sx_max_tuple_size S \<le> length (sx_robin S')"
  proof (cases full)
    case True
    have "robin_but {sid} ?S1"
      using assms(4) room S1(4,5) by (auto simp: robin_but_def)
    from sections_full_ok [OF S1(1) assms(2) this] True S1(3) show ?thesis
      by (simp add: S'_def same_pool_def)
  next
    case False
    then have "free_slots (fst st) \<noteq> {}"
      using ok(5) by (simp add: section_full_def free_map_is_full_iff st_def section_state_def)
    then have "has_room ?S1 x" if "x \<in> set (sx_robin S)" for x
      using room that assms(5) S1(2,5) by (cases "x = sid") (auto simp: has_room_def)
    then show ?thesis
      using False S1(1,4) assms(4,6) by (simp add: S'_def robin_ok_def grown_refl)
  qed
  moreover have "sx_next_id S' \<le> sx_next_id S + 3"
    using sections_full_next [of ?S1 io sid] S1(3,4,5) assms(6) by (simp add: S'_def same_pool_def)
  ultimately show ?thesis
    using eq blocks S1(2,3,5) by (intro exI [of _ i] exI [of _ S'] exI [of _ st])
      (auto simp: grown_def intro: same_pool_trans)
qed

lemma sections_write_ok:
  assumes "sections_wf S" and "pool_io io" and "length data = sx_bytes S"
  shows "\<exists>sid i S'. sections_write io data S = Some ((0, sid, i), S') \<and> sections_wf S' \<and> sx_bytes S' = sx_bytes S \<and>
    sections_blocks S (sid, i) = None \<and> sections_blocks S' = (sections_blocks S)((sid, i) \<mapsto> data) \<and>
    sx_next_id S' \<le> sx_next_id S + 3"
proof -
  have wf: "pool_wf S" "robin_ok S" "sx_max_tuple_size S \<le> length (sx_robin S)" "0 < sx_max_tuple_size S"
    using assms(1) by (auto simp: sections_wf_def)
  obtain sid rest where rb: "sx_robin S = sid # rest" using wf(3,4) by (cases "sx_robin S") auto
  let ?S0 = "S\<lparr>sx_robin := rest @ [sid]\<rparr>"
  have room: "has_room S sid" using wf(2) rb by (simp add: robin_ok_def)
  have rb0: "robin_ok ?S0" using wf(2) rb by (auto simp: robin_ok_def has_room_def)
  obtain s S1 where a: "sections_acquire io sid ?S0 = Some (s, S1)" "grown ?S0 S1" "lru_values (sx_lru S1) sid = Some s"
      "sx_robin S1 = rest @ [sid]" "section_state s = stored S sid" "sx_next_id S1 = sx_next_id S"
    using sections_acquire_ok [OF _ assms(2), of ?S0 sid] wf(1) room by (auto simp: has_room_def)
  have S1: "pool_wf S1" "stored S1 = stored S" "same_pool S S1" using a(2) by (simp_all add: grown_def)
  have rb1: "robin_ok S1" using rb0 grown_has_room [OF a(2)] a(4) by (auto simp: robin_ok_def)
  have room1: "has_room S1 sid" using grown_has_room [OF a(2)] room by (simp add: has_room_def)
  have notfull: "\<not> section_full s"
    using room a(5) by (simp add: has_room_def section_full_def free_map_is_full_iff section_state_def prod_eq_iff)
  have fit: "sx_max_tuple_size S1 \<le> length (sx_robin S1)" "length data = sx_bytes S1"
    using wf(3) a(4) rb S1(3) assms(3) by (simp_all add: same_pool_def)
  obtain i S' st where w: "sections_write_to io data sid s S1 = ((0, sid, i), S')" "pool_wf S'" "robin_ok S'"
      "sx_max_tuple_size S1 \<le> length (sx_robin S')" "same_pool S1 S'" "state_blocks (sx_bytes S1) (stored S1 sid) i = None"
      "stored S' = (stored S1)(sid := st)"
      "state_blocks (sx_bytes S1) st = (state_blocks (sx_bytes S1) (stored S1 sid))(i \<mapsto> data)" "sx_next_id S' \<le> sx_next_id S1 + 3"
    using sections_write_to_ok [OF S1(1) assms(2) a(3) rb1 room1 fit] by blast
  have "sections_write io data S = Some ((0, sid, i), S')"
    using a(1) w(1) wf(4) rb notfull unfolding sections_write_def
    by (subst sections_write_loop.simps)
      (auto simp: round_robin_next_def sections_acquire_def Let_def split: prod.splits option.splits)
  moreover have "sections_wf S'"
    using w(2-5) S1(3) wf(4) by (auto simp: sections_wf_def same_pool_def)
  moreover have "sx_bytes S' = sx_bytes S" "sx_bytes S1 = sx_bytes S" using w(5) S1(3) by (simp_all add: same_pool_def)
  ultimately show ?thesis
    using w(6-9) S1(2) a(6) by (intro exI [of _ sid] exI [of _ i] exI [of _ S']) (auto simp: sections_blocks_def fun_eq_iff)
qed

lemma used_slots_init: "used_slots (free_map_init n) = {}"
  by (simp add: used_slots_def) (simp add: free_map_init_def)

lemma sections_blocks_before_next:
  assumes "pool_wf S" and "sections_blocks S (sid, i) = Some d"
  shows "sid < sx_next_id S"
proof (rule ccontr)
  assume "\<not> sid < sx_next_id S"
  then have "stored S sid = (free_map_init (sx_size S), [])" using pool_wfD(9) [OF assms(1)] by simp
  then show False
    using assms(2) by (simp add: sections_blocks_def state_blocks_def used_slots_init split: if_splits)
qed

lemma grown_sections_wf:
  assumes "sections_wf S" and "grown S S'" and "sx_robin S' = sx_robin S"
  shows "sections_wf S'" and "sections_blocks S' = sections_blocks S" and "sx_bytes S' = sx_bytes S"
  using assms grown_has_room [OF assms(2)]
  by (auto simp: sections_wf_def robin_ok_def grown_def same_pool_def sections_blocks_def fun_eq_iff)

lemma sections_wf_join:
  assumes "sections_wf S" and "has_room S sid" and "sid \<notin> set (sx_robin S)"
  shows "sections_wf (S\<lparr>sx_robin := round_robin_add (sx_robin S) sid\<rparr>)"
  using assms by (auto simp: sections_wf_def robin_ok_def round_robin_add_def has_room_def)

lemma sections_find_ok:
  assumes "sections_wf S" and "pool_io io" and "sid < sx_next_id S"
  shows "\<exists>s S'. sections_find io sid S = Some (s, S') \<and> sections_wf S' \<and> stored S' = stored S \<and>
    sx_bytes S' = sx_bytes S \<and> lru_values (sx_lru S') sid = Some s"
proof -
  have "pool_wf S" using assms(1) by (simp add: sections_wf_def)
  then obtain s S1 where a: "sections_acquire io sid S = Some (s, S1)" "grown S S1" "section_state s = stored S sid"
      "lru_values (sx_lru S1) sid = Some s" "sx_robin S1 = sx_robin S" "sx_next_id S1 = sx_next_id S"
    using sections_acquire_ok [OF _ assms(2,3)] by blast
  note w = grown_sections_wf [OF assms(1) a(2,5)]
  have st: "stored S1 = stored S" using a(2) by (simp add: grown_def)
  let ?S2 = "S1\<lparr>sx_robin := round_robin_add (sx_robin S1) sid\<rparr>"
  have "sections_wf ?S2" if "\<not> section_full s" and "\<not> round_robin_contains (sx_robin S1) sid"
    using sections_wf_join [OF w(1)] that a(3,6) assms(3) st
    by (auto simp: has_room_def section_full_def free_map_is_full_iff section_state_def round_robin_contains_def prod_eq_iff)
  then show ?thesis
    using a(1,4) w(1,3) st
    by (cases "sections_get sid S"; cases "fst (sections_get sid S)")
       (auto simp: sections_find_def sections_acquire_def)
qed

lemma sections_read_next: "sections_read io sid i S = Some (d, S') \<Longrightarrow> sx_next_id S' = sx_next_id S"
  by (auto simp: sections_read_def sections_find_def sections_get_def sections_open_def sections_store_def sections_cache_def
      split: option.splits prod.splits if_splits)

lemma sections_read_ok:
  assumes "sections_wf S" and "pool_io io" and "sections_blocks S (sid, i) = Some d"
  shows "\<exists>S'. sections_read io sid i S = Some (Some d, S') \<and> sections_wf S' \<and> sx_bytes S' = sx_bytes S \<and>
    sections_blocks S' = sections_blocks S"
proof -
  have "pool_wf S" using assms(1) by (simp add: sections_wf_def)
  from sections_find_ok [OF assms(1,2) sections_blocks_before_next [OF this assms(3)]]
  obtain s S' where f: "sections_find io sid S = Some (s, S')" "sections_wf S'" "stored S' = stored S" "sx_bytes S' = sx_bytes S"
      "lru_values (sx_lru S') sid = Some s" by blast
  note c = cached_section_wf [OF _ f(5)]
  have p: "pool_wf S'" using f(2) by (simp add: sections_wf_def)
  have "section_blocks s i = Some d"
    using c(2,4) [OF p] assms(3) f(3,4) by (simp add: section_blocks_state sections_blocks_def)
  moreover have "io_open (io sid)" "io_pread (io sid) off" for off
    using assms(2) by (simp_all add: pool_io_def io_moves_def)
  ultimately have "fst (section_handle_read (io sid) i s) = Some d"
    using section_handle_read_used(2) [OF c(1) [OF p], of i d "io sid"] by simp
  then show ?thesis using f by (simp add: sections_read_def sections_blocks_def fun_eq_iff)
qed

lemma sections_deallocate_free:
  assumes "sections_wf S" and "pool_io io" and "sid < sx_next_id S" and "sections_blocks S (sid, i) = None"
  shows "\<exists>S'. sections_deallocate io sid i S = Some (1, S') \<and> sections_wf S' \<and> sx_bytes S' = sx_bytes S \<and>
    sections_blocks S' = sections_blocks S"
proof -
  obtain s S1 where f: "sections_find io sid S = Some (s, S1)" "sections_wf S1" "stored S1 = stored S" "sx_bytes S1 = sx_bytes S"
      "lru_values (sx_lru S1) sid = Some s" using sections_find_ok [OF assms(1-3)] by blast
  have p: "pool_wf S1" using f(2) by (simp add: sections_wf_def)
  note c = cached_section_wf [OF p f(5)]
  have "i \<notin> used_slots (sec_free_map s)"
  proof -
    have "section_blocks s i = None"
      using c(2,4) assms(4) f(3,4) by (simp add: section_blocks_state sections_blocks_def)
    then show ?thesis using dom_section_blocks [of s] by (auto simp: domIff)
  qed
  then have h: "section_handle_deallocate i s = (s, 1, Some (SECTION_DEALLOCATE_RESULT 1))"
    using free_map_dealloc_spec(2) [OF section_wfD(1) [OF c(1)]] by (simp add: section_handle_deallocate_def)
  have st: "state_wf (sx_bytes S1) (section_state s)" using pool_wfD(7) [OF p, of sid] c(2) by simp
  note S2 = sections_store_ok [OF p f(5) pool_wfD(5) [OF p f(5)] st]
  have same: "stored (sections_store s S1) = stored S1" using S2(2) c(2) by auto
  then have "grown S1 (sections_store s S1)" using S2 by (simp add: grown_def)
  note w = grown_sections_wf [OF f(2) this S2(4)]
  then show ?thesis
    using f h same by (simp add: sections_deallocate_def sections_blocks_def fun_eq_iff)
qed

lemma sections_deallocate_ok:
  assumes "sections_wf S" and "pool_io io" and "sections_blocks S (sid, i) = Some d"
  shows "\<exists>S'. sections_deallocate io sid i S = Some (0, S') \<and> sections_wf S' \<and> sx_bytes S' = sx_bytes S \<and>
    sections_blocks S' = (sections_blocks S)((sid, i) := None)"
proof -
  have "pool_wf S" using assms(1) by (simp add: sections_wf_def)
  from sections_find_ok [OF assms(1,2) sections_blocks_before_next [OF this assms(3)]]
  obtain s S1 where f: "sections_find io sid S = Some (s, S1)" "sections_wf S1" "stored S1 = stored S" "sx_bytes S1 = sx_bytes S"
      "lru_values (sx_lru S1) sid = Some s" by blast
  have p: "pool_wf S1" using f(2) by (simp add: sections_wf_def)
  note c = cached_section_wf [OF p f(5)]
  obtain s' r rep where h: "section_handle_deallocate i s = (s', r, rep)" by (metis prod.collapse)
  note spec = section_handle_deallocate_spec [OF c(1) h]
  have blk: "section_blocks s i = Some d"
    using c(2,4) assms(3) f(3,4) by (simp add: section_blocks_state sections_blocks_def)
  then have r: "r = 0" using spec(3) by (simp add: domIff)
  then have s': "sec_dirty s'" "sec_id s' = sid" "sec_plan s' = None" "sec_block_size s' = sx_bytes S1"
    using h c(3-5) by (auto simp: section_handle_deallocate_def split: prod.splits)
  let ?s = "section_on_dirty io S1 s'"
  have stw: "state_wf (sx_bytes S1) (section_state s')" using spec(1) s'(4) by (simp add: section_wf_state)
  note d = section_on_dirty_ok [OF s'(1,2,4,3) stw assms(2)]
  note S2 = sections_store_ok [OF p f(5) d(1), unfolded d(2), OF stw]
  let ?S2 = "sections_store ?s S1"
  have used: "i \<notin> used_slots (sec_free_map s')"
    using spec(4) by (metis dom_section_blocks domIff fun_upd_same)
  have "i \<in> used_slots (sec_free_map s)" using blk by (metis dom_section_blocks domIff option.distinct(1))
  then have "i < total_blocks (sec_free_map s')"
    using h free_map_dealloc_spec [OF section_wfD(1) [OF c(1)], of i]
    by (auto simp: section_handle_deallocate_def used_slots_def split: prod.splits)
  then have "i \<in> free_slots (sec_free_map s')" using used by (simp add: used_slots_def)
  then have room: "has_room ?S2 sid"
    using S2(2,5) cached_before_next [OF p f(5)] by (auto simp: has_room_def section_state_def)
  have "has_room ?S2 x" if "has_room S1 x" for x
    using that room S2(2,5) by (cases "x = sid") (auto simp: has_room_def)
  then have wf2: "sections_wf ?S2"
    using f(2) S2 by (auto simp: sections_wf_def robin_ok_def same_pool_def)
  have wf3: "sections_wf (sections_free sid ?S2)"
    using wf2 sections_wf_join [OF wf2 room] by (auto simp: sections_free_def round_robin_contains_def)
  have "stored (sections_free sid ?S2) = stored ?S2" "sx_bytes (sections_free sid ?S2) = sx_bytes S1"
    using S2(3) by (simp_all add: sections_free_def same_pool_def)
  moreover have "state_blocks (sx_bytes S1) (section_state s') = (state_blocks (sx_bytes S1) (stored S1 sid))(i := None)"
    using spec(4) c(2,4) s'(4) by (simp add: section_blocks_state)
  ultimately have "sections_blocks (sections_free sid ?S2) = (sections_blocks S)((sid, i) := None)"
    using S2(2) f(3,4) by (auto simp: sections_blocks_def fun_eq_iff)
  then show ?thesis
    using f(1,4) h r wf3 \<open>sx_bytes (sections_free sid ?S2) = sx_bytes S1\<close>
    by (simp add: sections_deallocate_def)
qed

lemma section_write_back_ok:
  assumes "pool_wf S" and "pool_io io" and "lru_values (sx_lru S) sid = Some s" and "sec_dirty s"
  defines "s' \<equiv> (section_save_meta (io sid) s)\<lparr>sec_dirty := False\<rparr>"
  shows "cached_wf S sid s'" and "section_state s' = section_state s"
proof -
  note c = cached_section_wf [OF assms(1,3)] and wf = pool_wfD [OF assms(1)]
  have st: "state_wf (sx_bytes S) (section_state s)" using wf(7) [of sid] c(2) by simp
  show same: "section_state s' = section_state s" by (simp add: s'_def section_state_def sec_contents_def)
  from destroyed_files [OF wf(5) [OF assms(3)] st assms(2)] assms(4) c same show "cached_wf S sid s'"
    by (simp add: s'_def cached_wf_def section_destroy_def section_files_def section_save_meta_def split: option.splits)
qed

lemma sections_write_meta_ok:
  assumes "sections_wf S" and "pool_io io"
  shows "sections_wf (sections_write_meta io S)" and "sections_blocks (sections_write_meta io S) = sections_blocks S"
    and "sx_bytes (sections_write_meta io S) = sx_bytes S"
proof -
  have p: "pool_wf S" using assms(1) by (simp add: sections_wf_def)
  note wf = pool_wfD [OF p]
  define f where "f k s = (if sec_dirty s then (section_save_meta (io k) s)\<lparr>sec_dirty := False\<rparr> else s)" for k s
  let ?S = "sections_write_meta io S"
  have eq: "sx_lru ?S = (sx_lru S)\<lparr>lru_cache := \<lambda>k. map_option (\<lambda>n. n\<lparr>node_value := f k (node_value n)\<rparr>) (lru_cache (sx_lru S) k)\<rparr>"
  proof -
    have "(if sec_dirty (node_value n) then n\<lparr>node_value := (section_save_meta (io k) (node_value n))\<lparr>sec_dirty := False\<rparr>\<rparr> else n) =
        n\<lparr>node_value := f k (node_value n)\<rparr>" for k and n :: "(nat, section_t) lru_node"
      by (simp add: f_def)
    then show ?thesis by (simp add: sections_write_meta_def)
  qed
  note l = lru_ok_map_values [OF wf(1) eq]
  have other: "sx_robin ?S = sx_robin S" "sx_next_id ?S = sx_next_id S" "same_pool S ?S" "sx_disk ?S = sx_disk S" "sx_size ?S = sx_size S"
    "sx_type ?S = sx_type S"
    by (simp_all add: sections_write_meta_def same_pool_def)
  have v: "cached_wf S sid (f sid s) \<and> section_state (f sid s) = section_state s" if "lru_values (sx_lru S) sid = Some s" for sid s
    using section_write_back_ok [OF p assms(2) that] wf(5) [OF that] by (simp add: f_def)
  have st: "stored ?S = stored S"
    using v by (auto simp: stored_def fun_eq_iff l other split: option.splits)
  have "pool_wf ?S"
    using p v l other st by (auto simp: pool_wf_def cached_wf_def)
  then have "grown S ?S" using st other by (simp add: grown_def)
  from grown_sections_wf [OF assms(1) this other(1)]
  show "sections_wf ?S" and "sections_blocks ?S = sections_blocks S" and "sx_bytes ?S = sx_bytes S" by auto
qed

lemma sections_full_keeps:
  assumes "sections_wf S" and "pool_io io"
  shows "sections_wf (sections_full io sid S)" and "sections_blocks (sections_full io sid S) = sections_blocks S"
    and "sx_bytes (sections_full io sid S) = sx_bytes S"
proof -
  have "robin_but {sid} S" using assms(1) by (auto simp: sections_wf_def robin_but_def)
  from sections_full_ok [OF _ assms(2) this] assms
  show "sections_wf (sections_full io sid S)" and "sections_blocks (sections_full io sid S) = sections_blocks S"
    and "sx_bytes (sections_full io sid S) = sx_bytes S"
    by (auto simp: sections_wf_def grown_def same_pool_def sections_blocks_def fun_eq_iff)
qed

lemma round_robin_save_keeps:
  assumes "sections_wf S"
  shows "sections_wf (round_robin_save C ok S)" and "sections_blocks (round_robin_save C ok S) = sections_blocks S"
    and "sx_bytes (round_robin_save C ok S) = sx_bytes S"
proof -
  have "stored (S\<lparr>sx_robin_file := f\<rparr>) = stored S" for f by (rule stored_cong) simp_all
  then have "sections_wf (S\<lparr>sx_robin_file := f\<rparr>) \<and> sections_blocks (S\<lparr>sx_robin_file := f\<rparr>) = sections_blocks S" for f
    using assms by (auto simp: sections_wf_def robin_ok_def has_room_def pool_wf_def cached_wf_def sections_blocks_def fun_eq_iff)
  then show "sections_wf (round_robin_save C ok S)" and "sections_blocks (round_robin_save C ok S) = sections_blocks S"
    and "sx_bytes (round_robin_save C ok S) = sx_bytes S"
    using assms by (auto simp: round_robin_save_def split: option.splits)
qed

end
