(* ===== verification/Sections_Pool.thy ===== *)
theory Sections_Pool
  imports Sections_Store
begin

text \<open>
  The pool of sections as its clients see it. \<open>block_pool\<close> is the contract: a map from addresses to
  blocks with a write that always finds a place, a read and a deallocation. The interpretation discharges
  it for the handlers of \<open>sections_dispatch\<close>; the lemmas of the locale then speak of any sequence of
  requests. Defragmentation moves blocks and returns the moves; it is a renaming of the addresses.
\<close>

section \<open>Defragmentation of the pool\<close>

definition defrag_io :: "(nat \<Rightarrow> section_io) \<Rightarrow> bool" where
  "defrag_io io \<longleftrightarrow> pool_io io \<and> (\<forall>sid. io_truncate (io sid) \<and> (\<exists>n \<ge> 2 ^ 36. io_plan (io sid) = Some n))"

text \<open>Where a block is after the moves \<open>rs\<close>.\<close>

definition relocate :: "block_relocation list \<Rightarrow> nat \<times> nat \<Rightarrow> nat \<times> nat" where
  "relocate rs a =
     (case map_of (map (\<lambda>(sid, i, j). ((sid, i), j)) rs) a of None \<Rightarrow> a | Some j \<Rightarrow> (fst a, j))"

lemma relocate_Nil [simp]: "relocate [] a = a"
  by (simp add: relocate_def)

lemma relocate_fst [simp]: "fst (relocate rs a) = fst a"
  by (simp add: relocate_def split: option.splits)

lemma relocate_other: "fst a \<notin> fst ` set rs \<Longrightarrow> relocate rs a = a"
  by (cases a) (force simp: relocate_def map_of_eq_None_iff split: option.splits dest: map_of_SomeD)

lemma relocate_append:
  assumes "fst ` set rs \<inter> fst ` set rs' = {}"
  shows "relocate (rs @ rs') a = relocate rs' (relocate rs a)"
proof (cases "fst a \<in> fst ` set rs")
  case True
  then have "fst a \<notin> fst ` set rs'" using assms by auto
  moreover have "map_of (map (\<lambda>(sid, i, j). ((sid, i), j)) rs') a = None"
    using calculation by (cases a) (force simp: map_of_eq_None_iff)
  ultimately show ?thesis
    by (simp add: relocate_other) (simp add: relocate_def map_add_def split: option.splits)
next
  case False
  then have "map_of (map (\<lambda>(sid, i, j). ((sid, i), j)) rs) a = None"
    by (cases a) (force simp: map_of_eq_None_iff)
  then show ?thesis using False
    by (simp add: relocate_other) (simp add: relocate_def map_add_def)
qed

lemma relocate_section:
  assumes "i < length reloc"
  shows "relocate (block_relocations sid reloc) (sid, i) = (sid, case reloc ! i of None \<Rightarrow> i | Some j \<Rightarrow> j)"
proof -
  let ?rs = "map (\<lambda>(sid, i, j). ((sid, i), j)) (block_relocations sid reloc)"
  have mem: "((sid, k), j) \<in> set ?rs \<longleftrightarrow> k < length reloc \<and> reloc ! k = Some j \<and> j \<noteq> k" for k j
    by (force simp: block_relocations_def split: option.splits if_splits)
  show ?thesis
  proof (cases "map_of ?rs (sid, i)")
    case None
    then have "((sid, i), j) \<notin> set ?rs" for j by (auto simp: map_of_eq_None_iff image_iff)
    then show ?thesis using None mem assms by (auto simp: relocate_def split: option.splits)
  next
    case (Some j)
    then show ?thesis using mem map_of_SomeD [OF Some] by (auto simp: relocate_def)
  qed
qed

lemma block_relocations_fst: "fst ` set (block_relocations sid reloc) \<subseteq> {sid}"
  by (auto simp: block_relocations_def split: option.splits if_splits)

text \<open>\<open>S'\<close> holds the blocks of \<open>S\<close> at the addresses the moves give.\<close>

definition moved_to :: "block_relocation list \<Rightarrow> sections_t \<Rightarrow> sections_t \<Rightarrow> bool" where
  "moved_to rs S S' \<longleftrightarrow> (\<forall>a d. sections_blocks S a = Some d \<longrightarrow> sections_blocks S' (relocate rs a) = Some d) \<and>
     dom (sections_blocks S') = relocate rs ` dom (sections_blocks S)"

lemma moved_to_refl: "moved_to [] S S"
  by (simp add: moved_to_def)

lemma moved_to_append:
  assumes "moved_to rs S S'" and "moved_to rs' S' S''" and "fst ` set rs \<inter> fst ` set rs' = {}"
  shows "moved_to (rs @ rs') S S''"
proof -
  have "relocate (rs @ rs') = relocate rs' \<circ> relocate rs"
    using relocate_append [OF assms(3)] by (simp add: fun_eq_iff)
  then show ?thesis
    using assms(1,2) unfolding moved_to_def by (metis comp_apply image_comp)
qed

lemma section_defragment_ok:
  assumes "section_wf s" and "io_works io s" and "section_handle_defragment io s = (s', (c, rel, n), r)"
  shows "c = 0 \<and> renumbered s s' \<and> (rel = None \<and> s' = s \<and> compact (sec_free_map s) \<or>
    rel = Some (relocation_of (sec_free_map s)) \<and> sec_plan s' = None \<and> sec_dirty s' \<and> sec_id s' = sec_id s \<and>
    sec_block_size s' = sec_block_size s \<and> total_blocks (sec_free_map s') = total_blocks (sec_free_map s))"
proof (cases "compact (sec_free_map s)")
  case True
  note wf = section_wfD [OF assms(1)]
  have "section_handle_defragment io s = (s, (0, None, card (used_slots (sec_free_map s))), None)"
    using True unfolding section_handle_defragment_def Let_def compact_test [OF wf(1)]
    by (simp add: used_count [OF wf(1)])
  then show ?thesis using assms(3) True renumbered_compact [OF assms(1) True] by auto
next
  case False
  then show ?thesis using section_defragment_moves [OF assms(1,2) False assms(3)] by auto
qed

lemma defrag_io_works:
  assumes "pool_wf S" and "defrag_io io" and "lru_values (sx_lru S) sid = Some s"
  shows "io_works (io sid) s"
proof -
  note c = cached_section_wf [OF assms(1,3)]
  have "state_wf (sx_bytes S) (section_state s)" using pool_wfD(7) [OF assms(1), of sid] c(2) by simp
  then have fm: "free_map_wf (sec_free_map s)" "total_blocks (sec_free_map s) < 2 ^ 32"
    by (auto simp: state_wf_def section_state_def)
  have "4 + 4 * map_capacity (sec_free_map s) \<le> 2 ^ 30"
    using meta_length [OF fm] by (simp add: length_free_map_serialize)
  moreover obtain n k where "io_plan (io sid) = Some n" "2 ^ 36 \<le> n" "io_meta (io sid) = Some k" "2 ^ 30 \<le> k"
    using assms(2) unfolding defrag_io_def pool_io_def by meson
  moreover have "8 + 8 * total_blocks (sec_free_map s) \<le> 2 ^ 36" using fm(2) by simp
  ultimately show ?thesis
    using assms(2) c(4) block_size_le(1) [of "sx_type S"]
    by (auto simp: io_works_def defrag_io_def pool_io_def io_moves_def intro: order_trans)
qed

lemma sections_store_same:
  assumes "sections_wf S" and "lru_values (sx_lru S) sid = Some s"
  shows "sections_wf (sections_store s S)" and "sections_blocks (sections_store s S) = sections_blocks S"
    and "sx_bytes (sections_store s S) = sx_bytes S"
proof -
  have p: "pool_wf S" using assms(1) by (simp add: sections_wf_def)
  note c = cached_section_wf [OF p assms(2)]
  have st: "state_wf (sx_bytes S) (section_state s)" using pool_wfD(7) [OF p, of sid] c(2) by simp
  note S' = sections_store_ok [OF p assms(2) pool_wfD(5) [OF p assms(2)] st]
  have "stored (sections_store s S) = stored S" using S'(2) c(2) by auto
  then have "grown S (sections_store s S)" using S' by (simp add: grown_def)
  note grown_sections_wf [OF assms(1) this S'(4)]
  then show "sections_wf (sections_store s S)" and "sections_blocks (sections_store s S) = sections_blocks S"
    and "sx_bytes (sections_store s S) = sx_bytes S" by auto
qed

lemma renumbered_room:
  assumes "renumbered s s'" and "section_wf s" and "free_slots (sec_free_map s) \<noteq> {}"
    and "total_blocks (sec_free_map s') = total_blocks (sec_free_map s)"
  shows "free_slots (sec_free_map s') \<noteq> {}"
proof -
  let ?fm = "sec_free_map s" and ?fm' = "sec_free_map s'"
  have wf: "free_map_wf ?fm" "free_map_wf ?fm'" using assms(1,2) by (auto simp: renumbered_def section_wf_def)
  have u: "used_slots ?fm' = {0..<card (used_slots ?fm)}" using assms(1) by (simp add: renumbered_def dom_section_blocks)
  obtain i where "i \<in> free_slots ?fm" using assms(3) by auto
  then have "used_slots ?fm \<subseteq> {0..<total_blocks ?fm} - {i}" "i < total_blocks ?fm"
    using wf(1) by (auto simp: used_slots_def free_map_wf_def)
  then have "card (used_slots ?fm) < total_blocks ?fm"
    using card_mono [of "{0..<total_blocks ?fm} - {i}" "used_slots ?fm"] by simp
  moreover have "card (used_slots ?fm) \<notin> used_slots ?fm'" using u by simp
  ultimately have "card (used_slots ?fm) \<in> free_slots ?fm'" using assms(4) by (simp add: used_slots_def)
  then show ?thesis by auto
qed

lemma sections_moved:
  assumes "sections_wf S" and "lru_values (sx_lru S) sid = Some s" and "renumbered s s'"
    and "sec_plan s' = None" "sec_dirty s'" "sec_id s' = sec_id s" "sec_block_size s' = sec_block_size s"
    and "total_blocks (sec_free_map s') = total_blocks (sec_free_map s)"
  shows "sections_wf (sections_store s' S)" and "sx_bytes (sections_store s' S) = sx_bytes S"
    and "moved_to (block_relocations sid (relocation_of (sec_free_map s))) S (sections_store s' S)"
proof -
  have p: "pool_wf S" using assms(1) by (simp add: sections_wf_def)
  note c = cached_section_wf [OF p assms(2)]
  let ?fm = "sec_free_map s" and ?S = "sections_store s' S"
  have st: "state_wf (sx_bytes S) (section_state s')"
    using assms(3,7) c(4) by (simp add: renumbered_def section_wf_state)
  have cw: "cached_wf S sid s'" using assms c by (simp add: cached_wf_def)
  note S' = sections_store_ok [OF p assms(2) cw st]
  have "has_room ?S x" if "has_room S x" for x
    using that S'(2,5) renumbered_room [OF assms(3) c(1) _ assms(8)] c(2)
    by (cases "x = sid") (auto simp: has_room_def section_state_def)
  then show "sections_wf ?S" using assms(1) S' by (auto simp: sections_wf_def robin_ok_def same_pool_def)
  show bytes: "sx_bytes ?S = sx_bytes S" using S'(3) by (simp add: same_pool_def)
  have old: "sections_blocks S (sid, i) = section_blocks s i" for i
    using c(2,4) by (simp add: sections_blocks_def section_blocks_state)
  have new: "sections_blocks ?S (x, i) = (if x = sid then section_blocks s' i else sections_blocks S (x, i))" for x i
    using S'(2) bytes assms(7) c(4) by (simp add: sections_blocks_def section_blocks_state)
  let ?rs = "block_relocations sid (relocation_of ?fm)"
  have reloc: "relocate ?rs (x, i) = (if x = sid then (sid, slot_rank ?fm i) else (x, i))" if "x = sid \<longrightarrow> i \<in> used_slots ?fm" for x i
  proof (cases "x = sid")
    case True
    then show ?thesis using that used_slots_iff [OF section_wfD(1) [OF c(1)]]
      by (simp add: relocate_section relocation_of_nth)
  next
    case False
    then show ?thesis using relocate_other [of "(x, i)" ?rs] block_relocations_fst by fastforce
  qed
  have used: "i \<in> used_slots ?fm \<longleftrightarrow> sections_blocks S (sid, i) \<noteq> None" for i
    using dom_section_blocks [of s] old by (auto simp: domIff)
  have "sections_blocks ?S (relocate ?rs (x, i)) = Some d" if "sections_blocks S (x, i) = Some d" for x i d
    using that reloc [of x i] used [of i] assms(3) old new dom_section_blocks [of s]
    by (cases "x = sid") (auto simp: renumbered_def)
  moreover have "(x, i) \<in> relocate ?rs ` dom (sections_blocks S)" if b: "sections_blocks ?S (x, i) = Some d" for x i d
  proof (cases "x = sid")
    case True
    then have "i \<in> dom (section_blocks s')" using b new by auto
    then have "i \<in> slot_rank ?fm ` used_slots ?fm"
      using assms(3) slot_rank_bij [of ?fm] unfolding renumbered_def bij_betw_def dom_section_blocks by auto
    then obtain j where "j \<in> used_slots ?fm" "i = slot_rank ?fm j" by auto
    then show ?thesis using True reloc [of sid j] used [of j] by (auto intro!: rev_image_eqI [of "(sid, j)"])
  next
    case False
    then show ?thesis using b new reloc [of x i] by (auto intro!: rev_image_eqI [of "(x, i)"])
  qed
  ultimately show "moved_to ?rs S ?S" by (fastforce simp: moved_to_def)
qed

lemma sections_defragment_one_ok:
  assumes "sections_wf S" and "defrag_io io"
  shows "\<exists>n' rs S'. sections_defragment_one io dense sid (n, rs0, S) = (n', rs0 @ rs, S') \<and> sections_wf S' \<and>
    sx_bytes S' = sx_bytes S \<and> moved_to rs S S' \<and> fst ` set rs \<subseteq> {sid}"
proof (cases "sections_defragment_one io dense sid (n, rs0, S) = (n, rs0, S)")
  case True
  then show ?thesis using assms(1) moved_to_refl by (intro exI [of _ n] exI [of _ "[]"] exI [of _ S]) auto
next
  case False
  have p: "pool_wf S" using assms(1) by (simp add: sections_wf_def)
  obtain s where s: "lru_values (sx_lru S) sid = Some s"
    using False by (auto simp: sections_defragment_one_def split: option.splits)
  note c = cached_section_wf [OF p s]
  obtain s' r rel k rep where h: "section_handle_defragment (io sid) s = (s', (r, rel, k), rep)" by (metis prod.collapse)
  let ?rs = "block_relocations sid (relocation_of (sec_free_map s))"
  have eq: "sections_defragment_one io dense sid (n, rs0, S) =
      (case (if r = 0 then rel else None) of Some reloc \<Rightarrow> (n + 1, rs0 @ block_relocations sid reloc, sections_store s' S)
       | None \<Rightarrow> (n, rs0, sections_store s' S))"
    using False by (cases "r = 0"; cases rel) (auto simp: sections_defragment_one_def s h c(3) Let_def split: if_splits)
  from section_defragment_ok [OF c(1) defrag_io_works [OF p assms(2) s] h]
  consider "r = 0" "rel = None" "s' = s"
    | "r = 0" "rel = Some (relocation_of (sec_free_map s))" "renumbered s s'" "sec_plan s' = None" "sec_dirty s'" "sec_id s' = sec_id s"
      "sec_block_size s' = sec_block_size s" "total_blocks (sec_free_map s') = total_blocks (sec_free_map s)" by metis
  then show ?thesis
  proof cases
    case 1
    then show ?thesis
      using eq sections_store_same [OF assms(1) s] moved_to_refl [of S]
      by (intro exI [of _ n] exI [of _ "[]"] exI [of _ "sections_store s S"]) (simp add: moved_to_def)
  next
    case 2
    then show ?thesis
      using eq sections_moved [OF assms(1) s 2(3-8)] block_relocations_fst
      by (intro exI [of _ "n + 1"] exI [of _ ?rs] exI [of _ "sections_store s' S"]) simp
  qed
qed

lemma sections_defragment_fold:
  assumes "sections_wf S" and "defrag_io io" and "distinct order"
  shows "\<exists>n' rs S'. fold (sections_defragment_one io dense) order (n, rs0, S) = (n', rs0 @ rs, S') \<and> sections_wf S' \<and>
    sx_bytes S' = sx_bytes S \<and> moved_to rs S S' \<and> fst ` set rs \<subseteq> set order"
  using assms(1,3)
proof (induction order arbitrary: n rs0 S)
  case Nil
  then show ?case using moved_to_refl [of S] by (intro exI [of _ n] exI [of _ "[]"] exI [of _ S]) auto
next
  case (Cons sid order)
  obtain n1 rs S1 where 1: "sections_defragment_one io dense sid (n, rs0, S) = (n1, rs0 @ rs, S1)" "sections_wf S1"
      "sx_bytes S1 = sx_bytes S" "moved_to rs S S1" "fst ` set rs \<subseteq> {sid}"
    using sections_defragment_one_ok [OF Cons.prems(1) assms(2)] by metis
  obtain n2 rs' S2 where 2: "fold (sections_defragment_one io dense) order (n1, rs0 @ rs, S1) = (n2, (rs0 @ rs) @ rs', S2)"
      "sections_wf S2" "sx_bytes S2 = sx_bytes S1" "moved_to rs' S1 S2" "fst ` set rs' \<subseteq> set order"
    using Cons.IH [OF 1(2)] Cons.prems(2) by (metis distinct.simps(2))
  have "fst ` set rs \<inter> fst ` set rs' = {}" using 1(5) 2(5) Cons.prems(2) by auto
  from moved_to_append [OF 1(4) 2(4) this] show ?case
    using 1 2 by (intro exI [of _ n2] exI [of _ "rs @ rs'"] exI [of _ S2]) auto
qed

lemma sections_defragment_ok:
  assumes "sections_wf S" and "defrag_io io" and "distinct order"
  shows "\<exists>n rs S'. sections_defragment io dense order S = (n, rs, S') \<and> sections_wf S' \<and> sx_bytes S' = sx_bytes S \<and>
    moved_to rs S S'"
  using sections_defragment_fold [OF assms, of dense 0 "[]"] by (auto simp: sections_defragment_def)

lemma sections_defragment_next: "sections_defragment io dense order S = (n, rs, S') \<Longrightarrow> sx_next_id S' = sx_next_id S"
proof -
  have "sx_next_id (sections_store s S) = sx_next_id S" for s S by (simp add: sections_store_def)
  then have one: "sx_next_id (snd (snd (sections_defragment_one io dense sid st))) = sx_next_id (snd (snd st))" for sid st
    by (auto simp: sections_defragment_one_def Let_def split: prod.splits option.splits)
  have "sx_next_id (snd (snd (fold (sections_defragment_one io dense) order st))) = sx_next_id (snd (snd st))" for st
    by (induction order arbitrary: st) (simp_all add: one)
  from this [of "(0, [], S)"] show "sections_defragment io dense order S = (n, rs, S') \<Longrightarrow> sx_next_id S' = sx_next_id S"
    by (simp add: sections_defragment_def)
qed

section \<open>Opening a pool\<close>

text \<open>The files of a pool: sections that can be opened, none past the last metadata file.\<close>

definition pool_files :: "nat \<Rightarrow> nat \<Rightarrow> nat option \<Rightarrow> (nat \<Rightarrow> bytes option \<times> bytes option \<times> bytes option) \<Rightarrow> bool" where
  "pool_files bs sz last_meta files \<longleftrightarrow> (\<forall>sid. disk_wf (files sid) \<and> state_wf bs (disk_state sz (files sid))) \<and>
     (\<forall>sid. (case last_meta of None \<Rightarrow> True | Some n \<Rightarrow> n < sid) \<longrightarrow> files sid = (None, None, None))"

lemma sections_check_robin_ok:
  assumes "pool_io io"
  shows "pool_wf S \<Longrightarrow> robin_but (set sids) S \<Longrightarrow> distinct sids \<Longrightarrow>
    \<forall>x \<in> set sids. x < sx_next_id S \<and> lru_values (sx_lru S) x = None \<Longrightarrow>
    \<exists>S'. sections_check_robin io sids S = Some S' \<and> grown S S' \<and> robin_ok S'"
proof (induction sids arbitrary: S)
  case Nil
  then show ?case by (simp add: grown_refl)
next
  case (Cons sid sids)
  have sid: "lru_values (sx_lru S) sid = None" "sid < sx_next_id S" using Cons.prems(4) by auto
  obtain s S1 where o: "sections_open io sid S = Some (s, S1)" "section_state s = stored S sid" "stored S1 = stored S"
      "same_pool S S1" "sx_robin S1 = sx_robin S" "sx_next_id S1 = sx_next_id S" "pool_wf (S1\<lparr>sx_next_id := sx_next_id S\<rparr>)"
      "\<forall>x. x \<noteq> sid \<longrightarrow> lru_values (sx_lru S) x = None \<longrightarrow> lru_values (sx_lru S1) x = None"
    using sections_open_new [OF Cons.prems(1) assms sid order_refl] by auto
  have "S1\<lparr>sx_next_id := sx_next_id S1\<rparr> = S1" by simp
  then have "pool_wf S1" using o(6,7) by metis
  then have g1: "grown S S1" using o(3,4,6) by (simp add: grown_def)
  have room: "has_room S1 x \<longleftrightarrow> has_room S x" for x by (simp add: has_room_def o)
  have rb: "robin_but (insert sid (set sids)) S1" using Cons.prems(2) o(5,6) room by (simp add: robin_but_def)
  define S2 where "S2 = (if section_full s then sections_full io sid S1 else S1)"
  have S2: "grown S1 S2 \<and> robin_but (set sids) S2 \<and> opens_new S1 S2"
  proof (cases "section_full s")
    case True
    then show ?thesis
      using sections_full_ok [OF _ assms rb] sections_full_new [OF _ assms] g1 by (simp add: S2_def grown_def)
  next
    case False
    then have "has_room S1 sid"
      using o(2,3,6) sid(2)
      by (auto simp: has_room_def section_full_def free_map_is_full_iff section_state_def dest: arg_cong [of _ _ fst])
    then show ?thesis
      using False rb g1 by (auto simp: S2_def robin_but_def grown_def opens_new_refl)
  qed
  moreover have "\<forall>x \<in> set sids. x < sx_next_id S2 \<and> lru_values (sx_lru S2) x = None"
    using calculation Cons.prems(3,4) o(6,8) by (auto simp: opens_new_def)
  moreover have "pool_wf S2" using S2 by (simp add: grown_def)
  ultimately obtain S' where S': "sections_check_robin io sids S2 = Some S'" "grown S2 S'" "robin_ok S'"
    using Cons.IH [of S2] Cons.prems(3) by (meson distinct.simps(2))
  have "sections_check_robin io (sid # sids) S = sections_check_robin io sids S2"
    using o(1) by (simp add: S2_def)
  moreover have "grown S S'" using grown_trans [OF g1] grown_trans S2 S'(2) by blast
  ultimately show ?case using S' by auto
qed

lemma sections_open_next_id:
  "sections_open io sid (S\<lparr>sx_next_id := n\<rparr>) = map_option (map_prod id (\<lambda>S'. S'\<lparr>sx_next_id := n\<rparr>)) (sections_open io sid S)"
  by (auto simp: sections_open_def sections_store_def sections_cache_def split: option.splits prod.splits)

lemma sections_top_up_ok:
  assumes "pool_io io"
  shows "pool_wf S \<Longrightarrow> robin_ok S \<Longrightarrow>
    \<exists>S'. sections_top_up n io S = Some S' \<and> grown S S' \<and> robin_ok S' \<and> length (sx_robin S') = length (sx_robin S) + n"
proof (induction n arbitrary: S)
  case 0
  then show ?case by (simp add: grown_refl)
next
  case (Suc n)
  obtain S1 where g: "sections_grow io S = (0, S1)" "grown S S1" "robin_ok S1" "length (sx_robin S1) = Suc (length (sx_robin S))"
    using sections_grow_ok [OF Suc.prems assms] by blast
  have "sections_top_up (Suc n) io S = sections_top_up n io S1"
    using g(1) by (auto simp: sections_grow_def sections_create_fresh_def sections_open_next_id split: option.splits prod.splits)
  moreover obtain S' where "sections_top_up n io S1 = Some S'" "grown S1 S'" "robin_ok S'" "length (sx_robin S') = length (sx_robin S1) + n"
    using Suc.IH [OF _ g(3)] g(2) by (auto simp: grown_def)
  ultimately show ?case using g(2,4) grown_trans by auto
qed

lemma sections_create_ok:
  assumes "pool_io io" and "0 < sz" "sz < 2 ^ 32" "0 < cache_size" "0 < tuple_size"
    and "pool_files (block_size_bytes type) sz last_meta files"
    and "distinct (fst (sections_load_robin C robin_file))"
    and "\<forall>sid \<in> set (fst (sections_load_robin C robin_file)). \<exists>n. last_meta = Some n \<and> sid \<le> n"
  shows "\<exists>S. sections_create C io files robin_file last_meta sz cache_size tuple_size type timer = Some S \<and>
    sections_wf S \<and> sx_bytes S = block_size_bytes type \<and>
    (\<forall>a. sections_blocks S a = state_blocks (block_size_bytes type) (disk_state sz (files (fst a))) (snd a))"
proof -
  define S where "S = \<lparr>sx_lru = lru_cache_create cache_size, sx_robin = fst (sections_load_robin C robin_file),
               sx_max_tuple_size = tuple_size,
               sx_next_id = (case last_meta of None \<Rightarrow> 0 | Some i \<Rightarrow> i + 1),
               sx_size = sz, sx_type = type, sx_max_bytes = 0, sx_timer = timer, sx_disk = files,
               sx_robin_file = snd (sections_load_robin C robin_file)\<rparr>"
  have empty: "lru_values (sx_lru S) = Map.empty" "lru_size (sx_lru S) = cache_size"
    by (simp_all add: S_def lru_cache_create_def lru_values_def fun_eq_iff)
  have st: "stored S sid = disk_state sz (files sid)" for sid using empty by (simp add: stored_def) (simp add: S_def)
  have "files sid = (None, None, None)" if "sx_next_id S \<le> sid" for sid
    using that assms(6) by (auto simp: pool_files_def S_def split: option.splits)
  then have wf: "pool_wf S"
    using assms(2-4,6) empty lru_ok_create [of cache_size]
    by (simp add: pool_wf_def st pool_files_def) (simp add: S_def disk_state_def)
  have "robin_but (set (sx_robin S)) S" "distinct (sx_robin S)"
    using assms(7,8) by (auto simp: robin_but_def S_def)
  then obtain S1 where 1: "sections_check_robin io (sx_robin S) S = Some S1" "grown S S1" "robin_ok S1"
    using sections_check_robin_ok [OF assms(1) wf, of "sx_robin S"] empty by (auto simp: robin_but_def)
  then obtain S2 where 2: "sections_top_up (sx_max_tuple_size S1 - length (sx_robin S1)) io S1 = Some S2" "grown S1 S2"
      "robin_ok S2" "length (sx_robin S2) = length (sx_robin S1) + (sx_max_tuple_size S1 - length (sx_robin S1))"
    using sections_top_up_ok [OF assms(1)] by (auto simp: grown_def) metis
  have "sections_create C io files robin_file last_meta sz cache_size tuple_size type timer = Some S2"
    using 1(1) 2(1) unfolding sections_create_def S_def [symmetric] Let_def by simp
  moreover have "grown S S2" using 1(2) 2(2) grown_trans by blast
  moreover have "sx_max_tuple_size S = tuple_size" "sx_type S = type" by (simp_all add: S_def)
  ultimately show ?thesis
    using 2(3,4) 1(2) assms(5) st by (auto simp: sections_wf_def grown_def same_pool_def sections_blocks_def)
qed

section \<open>The contract with the block cache\<close>

text \<open>\<open>io\<close> is the working environment, \<open>fits\<close> the blocks the pool takes. A write always finds a place, a read
  returns what was written and a deallocation gives the place back.\<close>

locale block_pool =
  fixes ok :: "'e \<Rightarrow> bool"
    and wf :: "'s \<Rightarrow> bool"
    and fits :: "'s \<Rightarrow> 'd \<Rightarrow> bool"
    and blocks :: "'s \<Rightarrow> nat \<times> nat \<Rightarrow> 'd option"
    and put :: "'e \<Rightarrow> 'd \<Rightarrow> 's \<Rightarrow> ((int \<times> nat \<times> nat) \<times> 's) option"
    and get :: "'e \<Rightarrow> nat \<Rightarrow> nat \<Rightarrow> 's \<Rightarrow> ('d option \<times> 's) option"
    and del :: "'e \<Rightarrow> nat \<Rightarrow> nat \<Rightarrow> 's \<Rightarrow> (int \<times> 's) option"
  assumes put_law: "wf s \<Longrightarrow> ok io \<Longrightarrow> fits s d \<Longrightarrow>
      \<exists>i j s'. put io d s = Some ((0, i, j), s') \<and> wf s' \<and> fits s' = fits s \<and> blocks s (i, j) = None \<and>
        blocks s' = (blocks s)((i, j) \<mapsto> d)"
    and get_law: "wf s \<Longrightarrow> ok io \<Longrightarrow> blocks s (i, j) = Some d \<Longrightarrow>
      \<exists>s'. get io i j s = Some (Some d, s') \<and> wf s' \<and> fits s' = fits s \<and> blocks s' = blocks s"
    and del_law: "wf s \<Longrightarrow> ok io \<Longrightarrow> blocks s (i, j) = Some d \<Longrightarrow>
      \<exists>s'. del io i j s = Some (0, s') \<and> wf s' \<and> fits s' = fits s \<and> blocks s' = (blocks s)((i, j) := None)"
begin

lemma put_get:
  assumes "wf s" and "ok io" and "fits s d" and "put io d s = Some ((r, i, j), s')"
  shows "\<exists>s''. get io i j s' = Some (Some d, s'') \<and> wf s'' \<and> blocks s'' = (blocks s)((i, j) \<mapsto> d)"
  using put_law [OF assms(1-3)] get_law [of s' io i j d] assms(2,4) by auto

lemma put_keeps:
  assumes "wf s" and "ok io" and "fits s d" and "put io d s = Some ((r, i, j), s')" and "blocks s a = Some e"
  shows "a \<noteq> (i, j) \<and> blocks s' a = Some e"
  using put_law [OF assms(1-3)] assms(4,5) by auto

lemma del_keeps:
  assumes "wf s" and "ok io" and "blocks s (i, j) = Some d" and "del io i j s = Some (r, s')" and "a \<noteq> (i, j)"
  shows "r = 0 \<and> blocks s' a = blocks s a"
  using del_law [OF assms(1-3)] assms(4,5) by auto

end

interpretation pool: block_pool pool_io sections_wf "\<lambda>S d. length d = sx_bytes S" sections_blocks
  sections_write sections_read sections_deallocate
proof unfold_locales
  fix S :: sections_t and io :: "nat \<Rightarrow> section_io"
  assume wf: "sections_wf S" "pool_io io"
  show "\<exists>i j S'. sections_write io d S = Some ((0, i, j), S') \<and> sections_wf S' \<and>
      (\<lambda>d::bytes. length d = sx_bytes S') = (\<lambda>d. length d = sx_bytes S) \<and> sections_blocks S (i, j) = None \<and>
      sections_blocks S' = (sections_blocks S)((i, j) \<mapsto> d)" if "length d = sx_bytes S" for d
    using sections_write_ok [OF wf that] by auto
  show "\<exists>S'. sections_read io i j S = Some (Some d, S') \<and> sections_wf S' \<and>
      (\<lambda>d::bytes. length d = sx_bytes S') = (\<lambda>d. length d = sx_bytes S) \<and> sections_blocks S' = sections_blocks S"
    if "sections_blocks S (i, j) = Some d" for i j d
    using sections_read_ok [OF wf that] by auto
  show "\<exists>S'. sections_deallocate io i j S = Some (0, S') \<and> sections_wf S' \<and>
      (\<lambda>d::bytes. length d = sx_bytes S') = (\<lambda>d. length d = sx_bytes S) \<and>
      sections_blocks S' = (sections_blocks S)((i, j) := None)"
    if "sections_blocks S (i, j) = Some d" for i j d
    using sections_deallocate_ok [OF wf that] by auto
qed

section \<open>Requests in any order\<close>

text \<open>The requests a client may send: blocks of the right size, sections that exist, and a walk over the
  cached sections that meets each of them once.\<close>

fun request_ok :: "sections_msg \<Rightarrow> sections_t \<Rightarrow> bool" where
  "request_ok (SECTIONS_WRITE data) S = (length data = sx_bytes S)"
| "request_ok (SECTIONS_READ sid i) S = (sid < sx_next_id S)"
| "request_ok (SECTIONS_DEALLOCATE sid i) S = (sid < sx_next_id S)"
| "request_ok (SECTIONS_DEFRAGMENT dense order) S = distinct order"
| "request_ok _ S = True"

text \<open>The specification: a map from addresses to blocks.\<close>

fun pool_spec :: "sections_msg \<Rightarrow> (nat \<times> nat \<Rightarrow> bytes option) \<Rightarrow> sections_reply \<Rightarrow> (nat \<times> nat \<Rightarrow> bytes option) \<Rightarrow> bool" where
  "pool_spec (SECTIONS_WRITE data) m r m' =
     (\<exists>sid i. r = SECTIONS_WRITE_RESULT (0, sid, i) \<and> m (sid, i) = None \<and> m' = m((sid, i) \<mapsto> data))"
| "pool_spec (SECTIONS_READ sid i) m r m' =
     (m' = m \<and> (\<forall>d. m (sid, i) = Some d \<longrightarrow> r = SECTIONS_READ_RESULT (Some d)))"
| "pool_spec (SECTIONS_DEALLOCATE sid i) m r m' =
     (m' = m((sid, i) := None) \<and> r = SECTIONS_DEALLOCATE_RESULT (if m (sid, i) = None then 1 else 0))"
| "pool_spec (SECTIONS_DEFRAGMENT dense order) m r m' =
     (\<exists>n rs. r = SECTIONS_DEFRAGMENT_RESULT n rs \<and> dom m' = relocate rs ` dom m \<and>
        (\<forall>a d. m a = Some d \<longrightarrow> m' (relocate rs a) = Some d))"
| "pool_spec _ m r m' = (m' = m)"

lemma sections_read_any:
  assumes "sections_wf S" and "pool_io io" and "sid < sx_next_id S"
  shows "\<exists>d S'. sections_read io sid i S = Some (d, S') \<and> sections_wf S' \<and> sx_bytes S' = sx_bytes S \<and>
    sections_blocks S' = sections_blocks S"
  using sections_find_ok [OF assms] by (auto simp: sections_read_def sections_blocks_def fun_eq_iff)

lemma sections_dispatch_spec:
  assumes "sections_wf S" and "defrag_io io" and "request_ok m S"
  shows "\<exists>r S'. sections_dispatch C io m S = Some (r, S') \<and> sections_wf S' \<and> sx_bytes S' = sx_bytes S \<and>
    pool_spec m (sections_blocks S) r (sections_blocks S')"
proof -
  have io: "pool_io io" using assms(2) by (simp add: defrag_io_def)
  show ?thesis
  proof (cases m)
    case (SECTIONS_WRITE data)
    then show ?thesis using sections_write_ok [OF assms(1) io, of data] assms(3) by auto
  next
    case (SECTIONS_READ sid i)
    obtain d S' where r: "sections_read io sid i S = Some (d, S')" "sections_wf S'" "sx_bytes S' = sx_bytes S"
        "sections_blocks S' = sections_blocks S"
      using sections_read_any [OF assms(1) io, of sid i] assms(3) SECTIONS_READ by auto
    then have "d = Some e" if "sections_blocks S (sid, i) = Some e" for e
      using sections_read_ok [OF assms(1) io that] by auto
    then show ?thesis using r SECTIONS_READ by simp
  next
    case (SECTIONS_DEALLOCATE sid i)
    then show ?thesis
      using sections_deallocate_ok [OF assms(1) io, of sid i] sections_deallocate_free [OF assms(1) io, of sid i] assms(3)
      by (cases "sections_blocks S (sid, i)") (auto simp: fun_upd_idem)
  next
    case (SECTIONS_DEFRAGMENT dense order)
    obtain n rs S' where "sections_defragment io dense order S = (n, rs, S')" "sections_wf S'" "sx_bytes S' = sx_bytes S"
        "moved_to rs S S'"
      using sections_defragment_ok [OF assms(1,2), of order dense] assms(3) SECTIONS_DEFRAGMENT by auto
    then show ?thesis using SECTIONS_DEFRAGMENT by (simp add: moved_to_def)
  qed (use assms(1) sections_full_keeps [OF assms(1) io] round_robin_save_keeps [OF assms(1), where C = C]
      sections_write_meta_ok [OF assms(1) io] in simp_all)
qed

text \<open>A block and the address its owner knows: the owner follows the moves a defragmentation returns.\<close>

fun follow :: "sections_reply \<Rightarrow> nat \<times> nat \<Rightarrow> nat \<times> nat" where
  "follow (SECTIONS_DEFRAGMENT_RESULT n rs) a = relocate rs a"
| "follow _ a = a"

inductive sections_trace ::
  "('i, 'm) cbor_api_scheme \<Rightarrow> (nat \<Rightarrow> section_io) \<Rightarrow> (nat \<times> nat) \<times> sections_t \<Rightarrow> (nat \<times> nat) \<times> sections_t \<Rightarrow> bool"
  for C io where
  trace_refl: "sections_trace C io c c"
| trace_step: "sections_trace C io c (a, S) \<Longrightarrow> request_ok m S \<Longrightarrow> m \<noteq> SECTIONS_DEALLOCATE (fst a) (snd a) \<Longrightarrow>
    sections_dispatch C io m S = Some (r, S') \<Longrightarrow> sections_trace C io c (follow r a, S')"

lemma pool_spec_follow:
  assumes "pool_spec msg m r m'" and "m a = Some d" and "msg \<noteq> SECTIONS_DEALLOCATE (fst a) (snd a)"
    and "sections_dispatch C io msg S = Some (r, S')"
  shows "m' (follow r a) = Some d"
  using assms by (cases msg; cases a) auto

lemma sections_trace_holds:
  assumes "sections_trace C io c c'" and "sections_wf (snd c)" and "defrag_io io" and "sections_blocks (snd c) (fst c) = Some d"
  shows "sections_wf (snd c') \<and> sections_blocks (snd c') (fst c') = Some d"
  using assms
proof (induction rule: sections_trace.induct)
  case (trace_refl c)
  then show ?case by simp
next
  case (trace_step c a S m r S')
  then have "sections_wf S" "sections_blocks S a = Some d" by auto
  with sections_dispatch_spec [OF _ trace_step.prems(2) trace_step.hyps(2), of C] trace_step.hyps(3,4)
  show ?case using pool_spec_follow [OF _ _ trace_step.hyps(3,4)] by auto
qed

text \<open>Blocks written one after the other, with their addresses.\<close>

primrec sections_write_all ::
  "(nat \<Rightarrow> section_io) \<Rightarrow> bytes list \<Rightarrow> sections_t \<Rightarrow> ((nat \<times> nat) list \<times> sections_t) option" where
  "sections_write_all io [] S = Some ([], S)"
| "sections_write_all io (d # ds) S =
     (case sections_write io d S of
        Some ((r, a), S') \<Rightarrow> if r = 0 then map_option (map_prod (Cons a) id) (sections_write_all io ds S') else None
      | None \<Rightarrow> None)"

lemma sections_write_all_ok:
  assumes "pool_io io"
  shows "sections_wf S \<Longrightarrow> \<forall>d \<in> set ds. length d = sx_bytes S \<Longrightarrow>
    \<exists>as S'. sections_write_all io ds S = Some (as, S') \<and> sections_wf S' \<and> length as = length ds \<and> distinct as \<and>
      set as \<inter> dom (sections_blocks S) = {} \<and> sections_blocks S' = sections_blocks S ++ map_of (zip as ds)"
proof (induction ds arbitrary: S)
  case Nil
  then show ?case by simp
next
  case (Cons d ds)
  obtain i j S1 where w: "sections_write io d S = Some ((0, i, j), S1)" "sections_wf S1"
      "sx_bytes S1 = sx_bytes S" "sections_blocks S (i, j) = None" "sections_blocks S1 = (sections_blocks S)((i, j) \<mapsto> d)"
    using sections_write_ok [OF Cons.prems(1) assms, of d] Cons.prems(2) by auto
  obtain as S' where r: "sections_write_all io ds S1 = Some (as, S')" "sections_wf S'" "length as = length ds" "distinct as"
      "set as \<inter> dom (sections_blocks S1) = {}" "sections_blocks S' = sections_blocks S1 ++ map_of (zip as ds)"
    using Cons.IH [OF w(2)] Cons.prems(2) w(3) by auto
  have fresh: "(i, j) \<notin> set as" using r(5) w(5) by auto
  then have "map_of (zip as ds) (i, j) = None" using r(3) by (auto simp: map_of_eq_None_iff dest: set_zip_leftD)
  then have "sections_blocks S' = sections_blocks S ++ map_of (zip ((i, j) # as) (d # ds))"
    using r(6) w(5) by (auto simp: fun_eq_iff map_add_def split: option.splits)
  moreover have "sections_write_all io (d # ds) S = Some ((i, j) # as, S')" using w(1) r(1) by simp
  moreover have "distinct ((i, j) # as)" "set ((i, j) # as) \<inter> dom (sections_blocks S) = {}"
    using fresh r(4,5) w(4,5) by auto
  ultimately show ?case using r(2,3) by (metis length_Cons)
qed

section \<open>Properties\<close>

text \<open>An empty pool for two cached sections of two slots each, in a directory without files.\<close>

definition pool_ok :: "nat \<Rightarrow> section_io" where
  "pool_ok sid = \<lparr>io_open = True, io_pwrite = (\<lambda>_. 1000000), io_pread = (\<lambda>_. True), io_truncate = True,
     io_plan = Some (2 ^ 36), io_meta = Some (2 ^ 30)\<rparr>"

lemma pool_ok_works [simp]: "defrag_io pool_ok" "pool_io pool_ok"
  by (simp_all add: defrag_io_def pool_io_def pool_ok_def io_moves_def)

lemma empty_files: "pool_files bs 2 None (\<lambda>_. (None, None, None))"
proof -
  have "state_wf bs (free_map_init 2, [])"
    using free_map_init_wf [of 2] used_slots_init [of 2]
    by (simp add: state_wf_def slots_fit_def) (simp add: free_map_init_def)
  then show ?thesis by (simp add: pool_files_def disk_wf_def disk_state_def)
qed

lemma example_pool:
  "\<exists>S. sections_create rfc8949_api pool_ok (\<lambda>_. (None, None, None)) None None 2 2 2 nano False = Some S \<and>
     sections_wf S \<and> sx_bytes S = 136 \<and> sections_blocks S = Map.empty"
  using sections_create_ok [of pool_ok 2 2 2 nano None "\<lambda>_. (None, None, None)" rfc8949_api None False] empty_files
  by (auto simp: sections_load_robin_def disk_state_def state_blocks_def used_slots_init fun_eq_iff)

text \<open>C7. The actor refines a map from addresses to blocks: in a well-formed pool on a working file system
  every admissible request is answered, and the answer and the new blocks are those of the map. A write
  returns an unused address, a read returns the block, a deallocation removes it and a defragmentation
  moves each block to the address its relocations name; the other requests change no block.\<close>

theorem sections_refines_map:
  assumes "sections_wf S" and "defrag_io io" and "request_ok m S"
  shows "\<exists>r S'. sections_dispatch C io m S = Some (r, S') \<and> sections_wf S' \<and>
    pool_spec m (sections_blocks S) r (sections_blocks S')"
  using sections_dispatch_spec [OF assms] by blast

theorem sections_refines_map_witness:
  "\<exists>S r S'. sections_dispatch rfc8949_api pool_ok (SECTIONS_WRITE (replicate 136 7)) S = Some (r, S') \<and>
     pool_spec (SECTIONS_WRITE (replicate 136 7)) (sections_blocks S) r (sections_blocks S')"
proof -
  obtain S where S: "sections_wf S" "sx_bytes S = 136" using example_pool by blast
  then have "request_ok (SECTIONS_WRITE (replicate 136 7)) S" by simp
  from sections_refines_map [OF S(1) pool_ok_works(1) this] show ?thesis by blast
qed

text \<open>C9. A block survives every sequence of requests that does not deallocate it: whatever is written,
  read, deallocated elsewhere, grown, saved or defragmented, its owner, who follows the relocations that
  defragmentations return, reads it back unchanged.\<close>

theorem sections_block_survives:
  assumes "sections_wf S" and "defrag_io io" and "sections_blocks S a = Some d"
    and "sections_trace C io (a, S) ((sid, i), S')"
  shows "\<exists>S''. sections_dispatch C io (SECTIONS_READ sid i) S' = Some (SECTIONS_READ_RESULT (Some d), S'')"
proof -
  have "sections_wf S'" "sections_blocks S' (sid, i) = Some d"
    using sections_trace_holds [OF assms(4)] assms(1-3) by auto
  from pool.get_law [OF this(1) _ this(2), of io] assms(2) show ?thesis by (auto simp: defrag_io_def)
qed

theorem sections_block_survives_witness:
  "\<exists>S sid i S' S''. sections_write pool_ok (replicate 136 7) S = Some ((0, sid, i), S') \<and>
     sections_dispatch rfc8949_api pool_ok (SECTIONS_READ sid i) (sections_full pool_ok 0 S') =
       Some (SECTIONS_READ_RESULT (Some (replicate 136 7)), S'')"
proof -
  obtain S where S: "sections_wf S" "sx_bytes S = 136" using example_pool by blast
  then obtain sid i S' where w: "sections_write pool_ok (replicate 136 7) S = Some ((0, sid, i), S')" "sections_wf S'"
      "sections_blocks S' (sid, i) = Some (replicate 136 7)"
    using sections_write_ok [OF S(1) pool_ok_works(2), of "replicate 136 7"] by auto
  have "sections_trace rfc8949_api pool_ok ((sid, i), S') (follow SECTIONS_NO_RESULT (sid, i), sections_full pool_ok 0 S')"
    by (rule trace_step [OF trace_refl, where m = "SECTIONS_SECTION_FULL 0"]) simp_all
  with sections_block_survives [OF w(2) pool_ok_works(1) w(3)] w(1) show ?thesis by (simp del: sections_dispatch.simps) blast
qed





end
