(* ===== verification/Block_Cache.thy ===== *)
theory Block_Cache
  imports Sections_Pool Index_Recovery
begin

text \<open>
  \<open>src/src/BlockCache/block_cache.c\<close>: the actor that owns the index, the block LRU and the sections. An
  index entry is an object the trie, the LRU and the pending reads point to; \<open>Live h\<close> is the pointer to the
  entry the index holds for \<open>h\<close>, and \<open>Dead n\<close> the pointer to an entry that has been removed from the index but
  is still referenced. The clock, the hash function, the file system and the serializer are arguments.
  The reports to the authority and to respiration (\<open>block_cache_update_capacity\<close>) and the debounced
  \<open>INDEX_SAVE\<close> are messages to other actors and are left out; \<open>INDEX_SAVE\<close> itself is a request here.
  \<open>None\<close> stands for undefined behaviour.
\<close>

section \<open>State\<close>

datatype entry_ref = Live bytes | Dead nat

record pending_get_t =
  pg_hash :: bytes
  pg_entry :: entry_ref
  pg_reply_to :: nat

record bc_put_group_t =
  pgr_group :: u32
  pgr_hashes :: "bytes list"

record block_cache_t =
  bc_lru :: "(bytes, block_t \<times> entry_ref) lru_cache_t"
  bc_sections :: sections_t
  bc_index :: index_t
  bc_type :: block_size_e
  bc_delete_blocks_on_put_failure :: bool
  bc_put_groups :: "bc_put_group_t list"
  bc_ended_put_groups :: "u32 list"
  bc_ended_put_groups_next :: nat
  bc_pending_gets :: "pending_get_t list"
  bc_dead :: "index_entry_t list"
  bc_current_bytes :: u64
  bc_max_capacity_bytes :: u64
  bc_entry_count :: u64

record 'i cache_env =
  env_deps :: "'i deps"
  env_blake :: "bytes \<Rightarrow> bytes"
  env_io :: "nat \<Rightarrow> section_io"

definition BLOCK_CACHE_PUT_GROUP_TOMBSTONES :: nat where
  "BLOCK_CACHE_PUT_GROUP_TOMBSTONES = 1024"

text \<open>The result codes.\<close>

definition CACHE_PUT_NEW :: int where [simp]: "CACHE_PUT_NEW = 0"
definition CACHE_PUT_EXISTS :: int where [simp]: "CACHE_PUT_EXISTS = 1"
definition CACHE_PUT_ERROR :: int where [simp]: "CACHE_PUT_ERROR = - 1"
definition CACHE_PUT_FULL :: int where [simp]: "CACHE_PUT_FULL = - 2"
definition CACHE_EPHEMERAL_OK :: int where [simp]: "CACHE_EPHEMERAL_OK = 0"
definition CACHE_EPHEMERAL_NOT_FOUND :: int where [simp]: "CACHE_EPHEMERAL_NOT_FOUND = - 1"
definition CACHE_EPHEMERAL_OVERFLOW :: int where [simp]: "CACHE_EPHEMERAL_OVERFLOW = - 2"
definition CACHE_REMOVE_PINNED :: int where [simp]: "CACHE_REMOVE_PINNED = - 3"
definition CACHE_REMOVE_EPHEMERAL_CLAIMED :: int where [simp]: "CACHE_REMOVE_EPHEMERAL_CLAIMED = - 4"

definition bytes_buffer :: "bytes \<Rightarrow> buffer_t" where
  "bytes_buffer d = buffer_create_from_existing_memory d (length d)"

definition bc_type_bytes :: "block_cache_t \<Rightarrow> u64" where
  "bc_type_bytes c = of_nat (block_size_bytes (bc_type c))"

section \<open>Entries behind pointers\<close>

fun entry_at :: "block_cache_t \<Rightarrow> entry_ref \<Rightarrow> index_entry_t option" where
  "entry_at c (Live h) = find (\<lambda>e. hash e = h) (index_to_array (bc_index c))"
| "entry_at c (Dead n) = (if n < length (bc_dead c) then Some (bc_dead c ! n) else None)"

fun entry_modify :: "entry_ref \<Rightarrow> (index_entry_t \<Rightarrow> index_entry_t) \<Rightarrow> block_cache_t \<Rightarrow> block_cache_t" where
  "entry_modify (Live h) f c = c\<lparr>bc_index := (bc_index c)\<lparr>root := index_node_update h f (root (bc_index c))\<rparr>\<rparr>"
| "entry_modify (Dead n) f c = c\<lparr>bc_dead := (bc_dead c)[n := f (bc_dead c ! n)]\<rparr>"

definition entry_write_metadata :: "('i, 'm) deps_scheme \<Rightarrow> entry_ref \<Rightarrow> block_cache_t \<Rightarrow> block_cache_t" where
  "entry_write_metadata D r c =
     (case entry_at c r of None \<Rightarrow> c | Some e \<Rightarrow> c\<lparr>bc_index := index_write_entry_metadata D (bc_index c) e\<rparr>)"

text \<open>\<open>index_set_entry_ejection\<close> on an entry that may no longer be in the index: the record is logged in
  either case and the date is set in the entry pointed to.\<close>

definition entry_set_ejection :: "('i, 'm) deps_scheme \<Rightarrow> u64 \<Rightarrow> entry_ref \<Rightarrow> block_cache_t \<Rightarrow> block_cache_t" where
  "entry_set_ejection D now r c =
     (case entry_at c r of
        None \<Rightarrow> c
      | Some e \<Rightarrow>
          (case r of
             Live h \<Rightarrow> c\<lparr>bc_index := index_set_entry_ejection D (bc_index c) e now\<rparr>
           | Dead n \<Rightarrow>
               entry_modify r (\<lambda>e. index_entry_set_ejection_date e now)
                 (c\<lparr>bc_index := (index_set_entry_ejection D (bc_index c) e now)\<lparr>root := root (bc_index c)\<rparr>\<rparr>)))"

text \<open>The entry of the LRU node, or of the index; the outer option is \<open>index_peek\<close>'s.\<close>

definition block_cache_peek :: "block_cache_t \<Rightarrow> bytes \<Rightarrow> entry_ref option option" where
  "block_cache_peek c h =
     (case lru_values (bc_lru c) h of
        Some (b, r) \<Rightarrow> Some (Some r)
      | None \<Rightarrow> map_option (map_option (\<lambda>_. Live h)) (index_peek (bc_index c) h))"

text \<open>A block goes into the LRU; the entry it ejects gets its ejection date.\<close>

definition block_cache_lru_put ::
  "('i, 'm) deps_scheme \<Rightarrow> u64 \<Rightarrow> block_t \<Rightarrow> entry_ref \<Rightarrow> block_cache_t \<Rightarrow> block_cache_t option" where
  "block_cache_lru_put D now b r c =
     map_option (\<lambda>(ejected, lru).
       case ejected of
         None \<Rightarrow> c\<lparr>bc_lru := lru\<rparr>
       | Some (k, (b', r')) \<Rightarrow> entry_set_ejection D now r' (c\<lparr>bc_lru := lru\<rparr>))
     (block_lru_cache_put (bc_lru c) (buffer_bytes (block_hash b)) (b, r))"

section \<open>Deletion\<close>

text \<open>The deallocation goes to the sections actor as \<open>SECTION_DEALLOCATE\<close>. References to the removed entry
  keep it alive.\<close>

definition detach_entry :: "bytes \<Rightarrow> block_cache_t \<Rightarrow> block_cache_t" where
  "detach_entry h c =
     (case entry_at c (Live h) of
        None \<Rightarrow> c
      | Some e \<Rightarrow>
          c\<lparr>bc_dead := bc_dead c @ [e],
            bc_pending_gets := map (\<lambda>p. if pg_entry p = Live h then p\<lparr>pg_entry := Dead (length (bc_dead c))\<rparr> else p)
              (bc_pending_gets c)\<rparr>)"

definition block_cache_delete_entry ::
  "('i, 'm) cache_env_scheme \<Rightarrow> bytes \<Rightarrow> entry_ref \<Rightarrow> block_cache_t \<Rightarrow> block_cache_t option" where
  "block_cache_delete_entry E h r c = do {
     e \<leftarrow> entry_at c r;
     ix \<leftarrow> index_remove (env_deps E) (bc_index c) h;
     let c1 = (detach_entry h c)\<lparr>bc_index := ix, bc_entry_count := bc_entry_count c - 1,
                bc_current_bytes := bc_current_bytes c - bc_type_bytes c,
                bc_lru := lru_cache_delete (bc_lru c) h\<rparr>;
     (_, S) \<leftarrow> sections_dispatch (dep_cbor (env_deps E)) (env_io E)
        (sections_msg.SECTION_DEALLOCATE (unat (section_index e))) (bc_sections c1);
     Some (c1\<lparr>bc_sections := S\<rparr>)
   }"

section \<open>Groups of puts\<close>

definition put_group_record :: "u32 \<Rightarrow> bytes \<Rightarrow> block_cache_t \<Rightarrow> block_cache_t" where
  "put_group_record gid h c =
     (if gid = 0 \<or> length h \<noteq> 32 then c
      else c\<lparr>bc_put_groups :=
        (if gid \<in> pgr_group ` set (bc_put_groups c)
         then update_first (\<lambda>g. pgr_group g = gid) (\<lambda>g. g\<lparr>pgr_hashes := pgr_hashes g @ [h]\<rparr>) (bc_put_groups c)
         else bc_put_groups c @ [\<lparr>pgr_group = gid, pgr_hashes = [h]\<rparr>])\<rparr>)"

definition put_group_ended :: "block_cache_t \<Rightarrow> u32 \<Rightarrow> bool" where
  "put_group_ended c gid \<longleftrightarrow> gid \<in> set (bc_ended_put_groups c)"

definition put_group_delete ::
  "('i, 'm) cache_env_scheme \<Rightarrow> bytes \<Rightarrow> block_cache_t \<Rightarrow> block_cache_t option" where
  "put_group_delete E h c = do {
     found \<leftarrow> index_peek (bc_index c) h;
     case found of
       None \<Rightarrow> Some c
     | Some e \<Rightarrow>
         let c1 = (if 0 < pin_count e
                   then entry_write_metadata (env_deps E) (Live h) (entry_modify (Live h) (\<lambda>e. e\<lparr>pin_count := 0\<rparr>) c)
                   else c)
         in block_cache_delete_entry E h (Live h) c1
   }"

primrec put_group_delete_all ::
  "('i, 'm) cache_env_scheme \<Rightarrow> bytes list \<Rightarrow> block_cache_t \<Rightarrow> block_cache_t option" where
  "put_group_delete_all E [] c = Some c"
| "put_group_delete_all E (h # hs) c = Option.bind (put_group_delete E h c) (put_group_delete_all E hs)"

definition put_group_tombstone :: "u32 \<Rightarrow> block_cache_t \<Rightarrow> block_cache_t" where
  "put_group_tombstone gid c =
     (if length (bc_ended_put_groups c) < BLOCK_CACHE_PUT_GROUP_TOMBSTONES
      then c\<lparr>bc_ended_put_groups := bc_ended_put_groups c @ [gid]\<rparr>
      else c\<lparr>bc_ended_put_groups := (bc_ended_put_groups c)[bc_ended_put_groups_next c := gid],
             bc_ended_put_groups_next := (bc_ended_put_groups_next c + 1) mod BLOCK_CACHE_PUT_GROUP_TOMBSTONES\<rparr>)"

definition put_group_end_dispatch ::
  "('i, 'm) cache_env_scheme \<Rightarrow> u32 \<Rightarrow> bool \<Rightarrow> block_cache_t \<Rightarrow> block_cache_t option" where
  "put_group_end_dispatch E gid abort c =
     map_option (put_group_tombstone gid)
       (case find (\<lambda>g. pgr_group g = gid) (bc_put_groups c) of
          None \<Rightarrow> Some c
        | Some found \<Rightarrow>
            map_option (\<lambda>c. c\<lparr>bc_put_groups := remove_first (\<lambda>g. pgr_group g = gid) (bc_put_groups c)\<rparr>)
              (if abort \<and> bc_delete_blocks_on_put_failure c then put_group_delete_all E (pgr_hashes found) c
               else Some c))"

section \<open>Put and get\<close>

text \<open>The claim of an ephemeral put; a saturated count is only reported.\<close>

definition block_cache_claim :: "('i, 'm) deps_scheme \<Rightarrow> bytes \<Rightarrow> block_cache_t \<Rightarrow> block_cache_t" where
  "block_cache_claim D h c =
     (case entry_at c (Live h) of
        None \<Rightarrow> c
      | Some e \<Rightarrow>
          if ephemeral_count e < 65535
          then entry_write_metadata D (Live h) (entry_modify (Live h) (\<lambda>e. e\<lparr>ephemeral_count := ephemeral_count e + 1\<rparr>) c)
          else c)"

text \<open>The result code, whether the rank rose, and the rank.\<close>

type_synonym put_result = "int \<times> bool \<times> u32"

definition block_cache_store ::
  "('i, 'm) cache_env_scheme \<Rightarrow> u64 \<Rightarrow> block_t \<Rightarrow> u32 \<Rightarrow> u32 \<Rightarrow> block_cache_t \<Rightarrow> (put_result \<times> block_cache_t) option" where
  "block_cache_store E now b incoming_fib gid c = do {
     let h = buffer_bytes (block_hash b);
     ((r, sid, i), S) \<leftarrow> sections_write (env_io E) (buffer_bytes (block_data b)) (bc_sections c);
     let c1 = c\<lparr>bc_sections := S\<rparr>;
     if r \<noteq> 0 then Some ((CACHE_PUT_ERROR, False, 0), c1)
     else do {
       let e0 = index_entry_create h;
       let e = e0\<lparr>counter := (counter e0)\<lparr>fib_level := incoming_fib\<rparr>, section_id := of_nat sid, section_index := of_nat i\<rparr>;
       c2 \<leftarrow> block_cache_lru_put (env_deps E) now b (Live h) c1;
       ix \<leftarrow> index_add (env_deps E) (bc_index c2) e;
       let c3 = c2\<lparr>bc_index := ix, bc_entry_count := bc_entry_count c2 + 1,
                  bc_current_bytes := bc_current_bytes c2 + bc_type_bytes c2\<rparr>;
       Some ((CACHE_PUT_NEW, False, incoming_fib), put_group_record gid h c3)
     }
   }"

definition block_cache_handle_put ::
  "('i, 'm) cache_env_scheme \<Rightarrow> u64 \<Rightarrow> block_t \<Rightarrow> u32 \<Rightarrow> bool \<Rightarrow> u32 \<Rightarrow> block_cache_t \<Rightarrow> (put_result \<times> block_cache_t) option" where
  "block_cache_handle_put E now b incoming_fib acquire_ephemeral put_group c = do {
     let h = buffer_bytes (block_hash b);
     found \<leftarrow> index_peek (bc_index c) h;
     ((r, promoted, rank), c1) \<leftarrow>
       (case found of
          None \<Rightarrow>
            if 0 < bc_max_capacity_bytes c \<and> bc_max_capacity_bytes c < bc_current_bytes c + bc_type_bytes c
            then Some ((CACHE_PUT_FULL, False, 0), c)
            else if put_group \<noteq> 0 \<and> put_group_ended c put_group then Some ((CACHE_PUT_FULL, False, 0), c)
            else block_cache_store E now b incoming_fib put_group c
        | Some e \<Rightarrow>
            if fib_level (counter e) < incoming_fib
            then Some ((CACHE_PUT_EXISTS, True, incoming_fib),
                   entry_modify (Live h) (\<lambda>e. e\<lparr>counter := (counter e)\<lparr>fib_level := incoming_fib\<rparr>\<rparr>) c)
            else Some ((CACHE_PUT_EXISTS, False, fib_level (counter e)), c));
     Some ((r, promoted, rank),
       if acquire_ephemeral \<and> r \<noteq> CACHE_PUT_ERROR \<and> r \<noteq> CACHE_PUT_FULL then block_cache_claim (env_deps E) h c1 else c1)
   }"

text \<open>What a get sends: the answer (actor, hash, block, rank, whether the entry existed, whether it has
  claims, whether only metadata was asked for), or a read request to the sections actor.\<close>

datatype cache_out =
  CACHE_GET_RESULT nat bytes "block_t option" u32 bool bool bool
| CACHE_SECTIONS_READ nat nat

definition block_cache_verify_read_hash :: "(bytes \<Rightarrow> bytes) \<Rightarrow> buffer_t \<Rightarrow> buffer_t \<Rightarrow> bool" where
  "block_cache_verify_read_hash blake data stored_hash = block_verify_hash blake (Some data) (Some stored_hash)"

text \<open>The block that was read, verified against the hash of the entry.\<close>

definition block_cache_checked :: "(bytes \<Rightarrow> bytes) \<Rightarrow> bytes option \<Rightarrow> bytes \<Rightarrow> block_t option" where
  "block_cache_checked blake data h =
     (case data of
        None \<Rightarrow> None
      | Some d \<Rightarrow>
          if block_cache_verify_read_hash blake (bytes_buffer d) (bytes_buffer h)
          then block_create_existing_data_hash_by_type (bytes_buffer d) (bytes_buffer h) else None)"

definition block_cache_get_stored ::
  "('i, 'm) cache_env_scheme \<Rightarrow> u64 \<Rightarrow> bytes \<Rightarrow> index_entry_t \<Rightarrow> nat option \<Rightarrow> block_cache_t \<Rightarrow>
     (block_t option \<times> cache_out list \<times> block_cache_t) option" where
  "block_cache_get_stored E now h e reply_to c =
     (case reply_to of
        Some a \<Rightarrow>
          Some (None, [CACHE_SECTIONS_READ (unat (section_id e)) (unat (section_index e))],
            c\<lparr>bc_pending_gets := \<lparr>pg_hash = h, pg_entry = Live h, pg_reply_to = a\<rparr> # bc_pending_gets c\<rparr>)
      | None \<Rightarrow> do {
          (d, S) \<leftarrow> sections_read (env_io E) (unat (section_id e)) (unat (section_index e)) (bc_sections c);
          let c1 = c\<lparr>bc_sections := S\<rparr>;
          case block_cache_checked (env_blake E) d (hash e) of
            None \<Rightarrow> Some (None, [], c1)
          | Some b \<Rightarrow> map_option (\<lambda>c. (Some b, [], c)) (block_cache_lru_put (env_deps E) now b (Live h) c1)
        })"

definition block_cache_handle_get ::
  "('i, 'm) cache_env_scheme \<Rightarrow> u64 \<Rightarrow> bytes \<Rightarrow> bool \<Rightarrow> bool \<Rightarrow> nat option \<Rightarrow> block_cache_t \<Rightarrow>
     (block_t option \<times> cache_out list \<times> block_cache_t) option" where
  "block_cache_handle_get E now h no_data peer_serve reply_to c = do {
     found \<leftarrow> index_peek (bc_index c) h;
     let reply = (\<lambda>b rank existed claimed nd. case reply_to of None \<Rightarrow> [] | Some a \<Rightarrow> [CACHE_GET_RESULT a h b rank existed claimed nd]);
     case found of
       None \<Rightarrow> Some (None, reply None 0 False False False, c)
     | Some e \<Rightarrow>
         let rank = fib_level (counter e); claimed = (0 < ephemeral_count e) in
         if peer_serve \<and> \<not> index_entry_is_servable (Some e) then Some (None, reply None 0 False False False, c)
         else if no_data then Some (None, reply None rank True claimed True, c)
         else case lru_cache_get (bc_lru c) h of
           (Some (b, r), lru) \<Rightarrow>
             Some (if reply_to = None then Some b else None, reply (Some b) rank True claimed False, c\<lparr>bc_lru := lru\<rparr>)
         | (None, lru) \<Rightarrow> block_cache_get_stored E now h e reply_to (c\<lparr>bc_lru := lru\<rparr>)
   }"

section \<open>Answers of the sections actor\<close>

definition pending_matches :: "block_cache_t \<Rightarrow> nat \<Rightarrow> nat \<Rightarrow> pending_get_t \<Rightarrow> bool" where
  "pending_matches c sid i p \<longleftrightarrow>
     (case entry_at c (pg_entry p) of None \<Rightarrow> False | Some e \<Rightarrow> unat (section_id e) = sid \<and> unat (section_index e) = i)"

definition block_cache_resolve_pending_gets ::
  "nat \<Rightarrow> nat \<Rightarrow> block_t option \<Rightarrow> block_cache_t \<Rightarrow> cache_out list \<times> block_cache_t" where
  "block_cache_resolve_pending_gets sid i b c =
     (map (\<lambda>p. case entry_at c (pg_entry p) of
                None \<Rightarrow> CACHE_GET_RESULT (pg_reply_to p) (pg_hash p) b 0 True False False
              | Some e \<Rightarrow> CACHE_GET_RESULT (pg_reply_to p) (pg_hash p) b (fib_level (counter e)) True (0 < ephemeral_count e) False)
        (filter (pending_matches c sid i) (bc_pending_gets c)),
      c\<lparr>bc_pending_gets := filter (\<lambda>p. \<not> pending_matches c sid i p) (bc_pending_gets c)\<rparr>)"

text \<open>The first matching request is taken out for its hash and put back in front.\<close>

definition block_cache_handle_read_result ::
  "('i, 'm) cache_env_scheme \<Rightarrow> u64 \<Rightarrow> nat \<Rightarrow> nat \<Rightarrow> bytes option \<Rightarrow> block_cache_t \<Rightarrow> (cache_out list \<times> block_cache_t) option" where
  "block_cache_handle_read_result E now sid i data c = do {
     (b, c1) \<leftarrow>
       (case (if data = None then None else find (pending_matches c sid i) (bc_pending_gets c)) of
          None \<Rightarrow> Some (None, c)
        | Some p \<Rightarrow>
            let c0 = c\<lparr>bc_pending_gets := remove_first (pending_matches c sid i) (bc_pending_gets c)\<rparr>;
                b = Option.bind (entry_at c (pg_entry p)) (\<lambda>e. block_cache_checked (env_blake E) data (hash e)) in
            map_option (\<lambda>c2. (b, c2\<lparr>bc_pending_gets := p # bc_pending_gets c2\<rparr>))
              (case b of None \<Rightarrow> Some c0 | Some b \<Rightarrow> block_cache_lru_put (env_deps E) now b (pg_entry p) c0));
     Some (block_cache_resolve_pending_gets sid i b c1)
   }"

section \<open>Removal, claims and pins\<close>

definition block_cache_handle_remove ::
  "('i, 'm) cache_env_scheme \<Rightarrow> bytes \<Rightarrow> bool \<Rightarrow> block_cache_t \<Rightarrow> (int \<times> block_cache_t) option" where
  "block_cache_handle_remove E h force c = do {
     found \<leftarrow> block_cache_peek c h;
     case found of
       None \<Rightarrow> Some (0, c)
     | Some r \<Rightarrow> do {
         e \<leftarrow> entry_at c r;
         if 0 < ephemeral_count e \<and> \<not> force then Some (CACHE_REMOVE_EPHEMERAL_CLAIMED, c)
         else if 0 < pin_count e \<and> \<not> force then Some (CACHE_REMOVE_PINNED, c)
         else do {
           let c1 = (if force \<and> 0 < pin_count e
                     then entry_write_metadata (env_deps E) r (entry_modify r (\<lambda>e. e\<lparr>pin_count := 0\<rparr>) c) else c);
           c2 \<leftarrow> block_cache_delete_entry E h r c1;
           Some (0, c2)
         }
       }
   }"

datatype cache_ephemeral_op_e = CACHE_EPHEMERAL_ACQUIRE | CACHE_EPHEMERAL_RELEASE | CACHE_EPHEMERAL_CLEAR

text \<open>The result code and the counts before and after.\<close>

definition block_cache_handle_ephemeral ::
  "('i, 'm) cache_env_scheme \<Rightarrow> bytes \<Rightarrow> cache_ephemeral_op_e \<Rightarrow> block_cache_t \<Rightarrow> ((int \<times> u16 \<times> u16) \<times> block_cache_t) option" where
  "block_cache_handle_ephemeral E h op c = do {
     found \<leftarrow> block_cache_peek c h;
     case found of
       None \<Rightarrow> Some ((CACHE_EPHEMERAL_NOT_FOUND, 0, 0), c)
     | Some r \<Rightarrow> do {
         e \<leftarrow> entry_at c r;
         let n = ephemeral_count e;
         let set = (\<lambda>m. entry_write_metadata (env_deps E) r (entry_modify r (\<lambda>e. e\<lparr>ephemeral_count := m\<rparr>) c));
         case op of
           CACHE_EPHEMERAL_ACQUIRE \<Rightarrow>
             if n = 65535 then Some ((CACHE_EPHEMERAL_OVERFLOW, n, n), c)
             else Some ((CACHE_EPHEMERAL_OK, n, n + 1), set (n + 1))
         | CACHE_EPHEMERAL_RELEASE \<Rightarrow>
             if 0 < n
             then do {
               c1 \<leftarrow> (if n - 1 = 0 then block_cache_delete_entry E h r (set (n - 1)) else Some (set (n - 1)));
               Some ((CACHE_EPHEMERAL_OK, n, n - 1), c1)
             }
             else Some ((CACHE_EPHEMERAL_OK, n, 0), c)
         | CACHE_EPHEMERAL_CLEAR \<Rightarrow> Some ((CACHE_EPHEMERAL_OK, n, 0), if 0 < n then set 0 else c)
       }
   }"

definition block_cache_handle_pin ::
  "('i, 'm) cache_env_scheme \<Rightarrow> bytes \<Rightarrow> bool \<Rightarrow> block_cache_t \<Rightarrow> ((int \<times> u32 \<times> u32) \<times> block_cache_t) option" where
  "block_cache_handle_pin E h pin c = do {
     found \<leftarrow> block_cache_peek c h;
     case found of
       None \<Rightarrow> Some ((CACHE_EPHEMERAL_NOT_FOUND, 0, 0), c)
     | Some r \<Rightarrow> do {
         e \<leftarrow> entry_at c r;
         let n = pin_count e;
         let m = (if pin then if n = 4294967295 then n else n + 1 else if 0 < n then n - 1 else n);
         Some ((CACHE_EPHEMERAL_OK, n, m),
           entry_write_metadata (env_deps E) r (entry_modify r (\<lambda>e. e\<lparr>pin_count := m\<rparr>) c))
       }
   }"

section \<open>Sweeps over the index\<close>

definition block_cache_entry_is_sheddable :: "index_entry_t option \<Rightarrow> bool" where
  "block_cache_entry_is_sheddable oe =
     (case oe of None \<Rightarrow> False | Some e \<Rightarrow> pin_count e = 0 \<and> ephemeral_count e = 0)"

record gc_result =
  blocks_deleted :: nat
  blocks_kept :: nat
  skipped_pinned :: nat
  skipped_ephemeral_claimed :: nat
  entries_total :: nat

text \<open>\<open>keep\<close> is the membership test of the keep filter, when there is one. The entries are those of the
  index before the sweep.\<close>

primrec block_cache_gc_loop ::
  "('i, 'm) cache_env_scheme \<Rightarrow> (bytes \<Rightarrow> bool) option \<Rightarrow> bool \<Rightarrow> index_entry_t list \<Rightarrow> gc_result \<times> block_cache_t \<Rightarrow>
     (gc_result \<times> block_cache_t) option" where
  "block_cache_gc_loop E keep force [] st = Some st"
| "block_cache_gc_loop E keep force (e # es) st =
     (case st of (res0, c) \<Rightarrow>
       let res = res0\<lparr>entries_total := entries_total res0 + 1\<rparr> in
       if (case keep of None \<Rightarrow> False | Some k \<Rightarrow> k (hash e))
       then block_cache_gc_loop E keep force es (res\<lparr>blocks_kept := blocks_kept res + 1\<rparr>, c)
       else if \<not> force \<and> 0 < ephemeral_count e
       then block_cache_gc_loop E keep force es (res\<lparr>skipped_ephemeral_claimed := skipped_ephemeral_claimed res + 1\<rparr>, c)
       else if \<not> force \<and> 0 < pin_count e
       then block_cache_gc_loop E keep force es (res\<lparr>skipped_pinned := skipped_pinned res + 1\<rparr>, c)
       else (case block_cache_delete_entry E (hash e) (Live (hash e)) c of
               None \<Rightarrow> None
             | Some c' \<Rightarrow> block_cache_gc_loop E keep force es (res\<lparr>blocks_deleted := blocks_deleted res + 1\<rparr>, c')))"

definition block_cache_handle_gc ::
  "('i, 'm) cache_env_scheme \<Rightarrow> (bytes \<Rightarrow> bool) option \<Rightarrow> bool \<Rightarrow> block_cache_t \<Rightarrow> (gc_result \<times> block_cache_t) option" where
  "block_cache_handle_gc E keep force c =
     block_cache_gc_loop E keep force (index_to_array (bc_index c))
       (\<lparr>blocks_deleted = 0, blocks_kept = 0, skipped_pinned = 0, skipped_ephemeral_claimed = 0, entries_total = 0\<rparr>, c)"

text \<open>The index follows the moves of a defragmentation: the first relocation that matches an entry.\<close>

definition entry_relocate :: "block_relocation list \<Rightarrow> index_entry_t \<Rightarrow> index_entry_t" where
  "entry_relocate rs e =
     (case find (\<lambda>(sid, i, j). unat (section_id e) = sid \<and> unat (section_index e) = i) rs of
        None \<Rightarrow> e | Some (sid, i, j) \<Rightarrow> e\<lparr>section_index := of_nat j\<rparr>)"

definition block_cache_handle_defragment ::
  "('i, 'm) cache_env_scheme \<Rightarrow> (nat \<Rightarrow> nat \<Rightarrow> bool) \<Rightarrow> nat list \<Rightarrow> nat option \<Rightarrow> block_cache_t \<Rightarrow>
     ((nat \<times> nat) \<times> block_cache_t) option" where
  "block_cache_handle_defragment E dense order written c =
     (case sections_defragment (env_io E) dense order (bc_sections c) of
        (n, rs, S) \<Rightarrow>
          let c1 = c\<lparr>bc_sections := S\<rparr> in
          if rs = [] then Some ((n, 0), c1)
          else let c2 = fold (\<lambda>e. entry_modify (Live (hash e)) (entry_relocate rs)) (index_to_array (bc_index c1)) c1
               in map_option (\<lambda>ix. ((n, length rs), c2\<lparr>bc_index := ix\<rparr>)) (index_debounce (env_deps E) written (bc_index c2)))"

section \<open>Lists for other actors\<close>

definition block_cache_list_ephemeral :: "block_cache_t \<Rightarrow> (bytes \<times> u16 \<times> u32) list" where
  "block_cache_list_ephemeral c =
     map (\<lambda>e. (hash e, ephemeral_count e, pin_count e)) (filter (\<lambda>e. 0 < ephemeral_count e) (index_to_array (bc_index c)))"

text \<open>The exchange sort of the offers, by rank, highest first: \<open>i\<close> is compared with every later place.\<close>

definition offer_swap :: "nat \<Rightarrow> nat \<Rightarrow> index_entry_t list \<Rightarrow> index_entry_t list" where
  "offer_swap i j es =
     (if fib_level (counter (es ! i)) < fib_level (counter (es ! j)) then es[i := es ! j, j := es ! i] else es)"

definition offer_sort :: "index_entry_t list \<Rightarrow> index_entry_t list" where
  "offer_sort es = fold (\<lambda>i. fold (offer_swap i) [i + 1..<length es]) [0..<length es] es"

definition block_cache_list_servable :: "nat \<Rightarrow> bytes list \<Rightarrow> block_cache_t \<Rightarrow> (bytes \<times> u32) list" where
  "block_cache_list_servable max_offers exclude c =
     (if max_offers = 0 then []
      else map (\<lambda>e. (hash e, fib_level (counter e)))
        (take max_offers (offer_sort (filter (\<lambda>e. index_entry_is_servable (Some e) \<and> hash e \<notin> set exclude)
          (index_to_array (bc_index c))))))"

section \<open>Capacity and creation\<close>

definition block_cache_set_max_capacity :: "u64 \<Rightarrow> block_cache_t \<Rightarrow> block_cache_t" where
  "block_cache_set_max_capacity cap c =
     (let c1 = c\<lparr>bc_sections := sections_set_max_bytes (unat cap) (bc_sections c), bc_max_capacity_bytes := cap\<rparr>
      in if 0 < cap
         then c1\<lparr>bc_current_bytes := of_nat (index_count (bc_index c1)) * bc_type_bytes c1,
                 bc_entry_count := of_nat (index_count (bc_index c1))\<rparr>
         else c1)"

definition block_cache_count :: "block_cache_t \<Rightarrow> u64" where
  "block_cache_count c = bc_entry_count c"

definition block_cache_can_fit :: "block_cache_t \<Rightarrow> u64 \<Rightarrow> bool" where
  "block_cache_can_fit c required =
     (bc_max_capacity_bytes c = 0 \<or> bc_current_bytes c + required \<le> bc_max_capacity_bytes c)"

text \<open>A cache over an index and a pool that have been opened; without a capacity the counters start at zero.\<close>

definition block_cache_create :: "nat \<Rightarrow> block_size_e \<Rightarrow> bool \<Rightarrow> u64 \<Rightarrow> index_t \<Rightarrow> sections_t \<Rightarrow> block_cache_t" where
  "block_cache_create lru_entries type del cap ix S =
     \<lparr>bc_lru = lru_cache_create lru_entries,
      bc_sections = (if 0 < cap then sections_set_max_bytes (unat cap) S else S),
      bc_index = ix, bc_type = type, bc_delete_blocks_on_put_failure = del, bc_put_groups = [],
      bc_ended_put_groups = [], bc_ended_put_groups_next = 0, bc_pending_gets = [], bc_dead = [],
      bc_current_bytes = (if 0 < cap then of_nat (index_count ix) * of_nat (block_size_bytes type) else 0),
      bc_max_capacity_bytes = cap,
      bc_entry_count = (if 0 < cap then of_nat (index_count ix) else 0)\<rparr>"

section \<open>The dispatch of the actor\<close>

text \<open>A request carries the clock where its handler reads it; \<open>CACHE_SECTIONS_READ_RESULT\<close> is the answer of
  the sections actor, \<open>INDEX_SAVE\<close> the debounced snapshot (its argument is where the write stopped, if it did).
  The other messages only report the capacity.\<close>

datatype cache_msg =
  CACHE_PUT u64 block_t u32 bool u32
| CACHE_PUT_GROUP_END u32 bool
| CACHE_RESIZE u64
| CACHE_GC "(bytes \<Rightarrow> bool) option" bool
| CACHE_GET u64 bytes bool bool "nat option"
| CACHE_REMOVE bytes bool
| CACHE_SECTIONS_READ_RESULT u64 nat nat "bytes option"
| CACHE_DEFRAGMENT "nat \<Rightarrow> nat \<Rightarrow> bool" "nat list" "nat option"
| INDEX_SAVE "nat option"
| CACHE_EPHEMERAL bytes cache_ephemeral_op_e
| CACHE_PIN bytes
| CACHE_UNPIN bytes
| CACHE_EPHEMERAL_LIST
| CACHE_LIST_SERVABLE nat "bytes list"
| CACHE_OTHER

datatype cache_reply =
  CACHE_PUT_REPLY put_result
| CACHE_RESIZE_REPLY u64 u64
| CACHE_GC_REPLY gc_result
| CACHE_GET_REPLY "block_t option" "cache_out list"
| CACHE_REMOVE_REPLY int
| CACHE_DEFRAGMENT_REPLY nat nat
| CACHE_EPHEMERAL_REPLY int u16 u16
| CACHE_PIN_REPLY int u32 u32
| CACHE_EPHEMERAL_LIST_REPLY "(bytes \<times> u16 \<times> u32) list"
| CACHE_LIST_SERVABLE_REPLY "(bytes \<times> u32) list"
| CACHE_NO_REPLY

fun block_cache_dispatch ::
  "('i, 'm) cache_env_scheme \<Rightarrow> cache_msg \<Rightarrow> block_cache_t \<Rightarrow> (cache_reply \<times> block_cache_t) option" where
  "block_cache_dispatch E (CACHE_PUT now b incoming_fib acquire put_group) c =
     map_option (map_prod CACHE_PUT_REPLY id) (block_cache_handle_put E now b incoming_fib acquire put_group c)"
| "block_cache_dispatch E (CACHE_PUT_GROUP_END gid abort) c =
     map_option (Pair CACHE_NO_REPLY) (put_group_end_dispatch E gid abort c)"
| "block_cache_dispatch E (CACHE_RESIZE cap) c =
     (let c' = block_cache_set_max_capacity cap c
      in Some (CACHE_RESIZE_REPLY (bc_max_capacity_bytes c') (bc_current_bytes c'), c'))"
| "block_cache_dispatch E (CACHE_GC keep force) c =
     map_option (map_prod CACHE_GC_REPLY id) (block_cache_handle_gc E keep force c)"
| "block_cache_dispatch E (CACHE_GET now h no_data peer_serve reply_to) c =
     map_option (\<lambda>(b, out, c'). (CACHE_GET_REPLY b out, c')) (block_cache_handle_get E now h no_data peer_serve reply_to c)"
| "block_cache_dispatch E (CACHE_REMOVE h force) c =
     map_option (map_prod CACHE_REMOVE_REPLY id) (block_cache_handle_remove E h force c)"
| "block_cache_dispatch E (CACHE_SECTIONS_READ_RESULT now sid i data) c =
     map_option (map_prod (CACHE_GET_REPLY None) id) (block_cache_handle_read_result E now sid i data c)"
| "block_cache_dispatch E (CACHE_DEFRAGMENT dense order written) c =
     map_option (map_prod (case_prod CACHE_DEFRAGMENT_REPLY) id) (block_cache_handle_defragment E dense order written c)"
| "block_cache_dispatch E (INDEX_SAVE written) c =
     map_option (\<lambda>ix. (CACHE_NO_REPLY, c\<lparr>bc_index := ix\<rparr>)) (index_debounce (env_deps E) written (bc_index c))"
| "block_cache_dispatch E (CACHE_EPHEMERAL h op) c =
     map_option (map_prod (\<lambda>(r, n, m). CACHE_EPHEMERAL_REPLY r n m) id) (block_cache_handle_ephemeral E h op c)"
| "block_cache_dispatch E (CACHE_PIN h) c =
     map_option (map_prod (\<lambda>(r, n, m). CACHE_PIN_REPLY r n m) id) (block_cache_handle_pin E h True c)"
| "block_cache_dispatch E (CACHE_UNPIN h) c =
     map_option (map_prod (\<lambda>(r, n, m). CACHE_PIN_REPLY r n m) id) (block_cache_handle_pin E h False c)"
| "block_cache_dispatch E CACHE_EPHEMERAL_LIST c = Some (CACHE_EPHEMERAL_LIST_REPLY (block_cache_list_ephemeral c), c)"
| "block_cache_dispatch E (CACHE_LIST_SERVABLE max_offers exclude) c =
     Some (CACHE_LIST_SERVABLE_REPLY (block_cache_list_servable max_offers exclude c), c)"
| "block_cache_dispatch E CACHE_OTHER c = Some (CACHE_NO_REPLY, c)"

end
