(* ===== verification/Block_Cache_Store.thy ===== *)
theory Block_Cache_Store
  imports Block_Cache
begin

text \<open>
  What the block cache promises. Its invariant ties the three parts together: every entry of the index
  names a place of the pool that holds a block with the hash of the entry, and every block of the LRU is
  the one its entry names. The cache then is a map from hashes to blocks, \<open>cache_blocks\<close>, and the handlers
  are operations on this map.
\<close>

section \<open>Invariant\<close>

definition entry_addr :: "index_entry_t \<Rightarrow> nat \<times> nat" where
  "entry_addr e = (unat (section_id e), unat (section_index e))"

definition entries_stored :: "(bytes \<Rightarrow> bytes) \<Rightarrow> index_t \<Rightarrow> sections_t \<Rightarrow> bool" where
  "entries_stored blake ix S \<longleftrightarrow>
     (\<forall>h e. index_map ix h = Some e \<longrightarrow> (\<exists>d. sections_blocks S (entry_addr e) = Some d \<and> blake d = h))"

definition lru_stored :: "index_t \<Rightarrow> sections_t \<Rightarrow> (bytes, block_t \<times> entry_ref) lru_cache_t \<Rightarrow> bool" where
  "lru_stored ix S lru \<longleftrightarrow>
     (\<forall>h b r. lru_values lru h = Some (b, r) \<longrightarrow> r = Live h \<and> buffer_bytes (block_hash b) = h \<and>
       (\<exists>e. index_map ix h = Some e \<and> sections_blocks S (entry_addr e) = Some (buffer_bytes (block_data b))))"

definition cache_wf :: "('i, 'm) cache_env_scheme \<Rightarrow> block_cache_t \<Rightarrow> bool" where
  "cache_wf E c \<longleftrightarrow> index_wf (bc_index c) \<and> sections_wf (bc_sections c) \<and> sx_type (bc_sections c) = bc_type c \<and>
     lru_ok (bc_lru c) \<and> entries_stored (env_blake E) (bc_index c) (bc_sections c) \<and>
     lru_stored (bc_index c) (bc_sections c) (bc_lru c)"

definition cache_blocks :: "block_cache_t \<Rightarrow> bytes \<Rightarrow> bytes option" where
  "cache_blocks c h = Option.bind (index_map (bc_index c) h) (\<lambda>e. sections_blocks (bc_sections c) (entry_addr e))"

text \<open>The environment: 32-byte digests, a working file system and a serializer that keeps to its
  specification.\<close>

definition env_ok :: "('i, 'm) cache_env_scheme \<Rightarrow> ('i \<Rightarrow> cval) \<Rightarrow> bool" where
  "env_ok E cv \<longleftrightarrow> (\<forall>x. length (env_blake E x) = BLAKE3_OUT_LEN) \<and> defrag_io (env_io E) \<and>
     libcbor (dep_cbor (env_deps E)) cv"

lemma cache_wfD:
  assumes "cache_wf E c"
  shows "index_wf (bc_index c)" and "sections_wf (bc_sections c)" and "sx_type (bc_sections c) = bc_type c"
    and "lru_ok (bc_lru c)"
    and "index_map (bc_index c) h = Some e \<Longrightarrow> \<exists>d. sections_blocks (bc_sections c) (entry_addr e) = Some d \<and> env_blake E d = h"
    and "lru_values (bc_lru c) h = Some (b, r) \<Longrightarrow> r = Live h \<and> buffer_bytes (block_hash b) = h \<and>
       (\<exists>e. index_map (bc_index c) h = Some e \<and>
          sections_blocks (bc_sections c) (entry_addr e) = Some (buffer_bytes (block_data b)))"
  using assms by (auto simp: cache_wf_def entries_stored_def lru_stored_def)

lemma env_okD:
  assumes "env_ok E cv"
  shows "length (env_blake E x) = BLAKE3_OUT_LEN" and "defrag_io (env_io E)" and "pool_io (env_io E)"
    and "libcbor (dep_cbor (env_deps E)) cv"
  using assms by (auto simp: env_ok_def defrag_io_def)

lemma cache_blocks_hash:
  assumes "cache_wf E c" and "cache_blocks c h = Some d"
  shows "env_blake E d = h"
  using assms cache_wfD(5) [OF assms(1), of h] by (auto simp: cache_blocks_def split: bind_splits)

lemma cache_blocks_dom:
  assumes "cache_wf E c"
  shows "cache_blocks c h = None \<longleftrightarrow> index_map (bc_index c) h = None"
  using cache_wfD(5) [OF assms, of h] by (auto simp: cache_blocks_def split: bind_splits)

lemma cache_peek_eq:
  assumes "cache_wf E c" and "length h = BLAKE3_OUT_LEN"
  shows "index_peek (bc_index c) h = Some (index_map (bc_index c) h)"
  using index_find_eq(2) [OF cache_wfD(1) [OF assms(1)] assms(2)] .

lemma entry_at_Live [simp]: "entry_at c (Live h) = index_map (bc_index c) h"
  by (simp add: index_map_def index_to_array_def)

lemma block_cache_peek_eq:
  assumes "cache_wf E c" and "length h = BLAKE3_OUT_LEN"
  shows "block_cache_peek c h = Some (if index_map (bc_index c) h = None then None else Some (Live h))"
  using cache_wfD(6) [OF assms(1), of h] cache_peek_eq [OF assms]
  by (auto simp: block_cache_peek_def split: option.splits)

declare entry_at.simps(1) [simp del]

section \<open>Changes that keep the blocks\<close>

text \<open>The entries keep their places.\<close>

definition same_places :: "index_t \<Rightarrow> index_t \<Rightarrow> bool" where
  "same_places ix ix' \<longleftrightarrow> (\<forall>h. map_option entry_addr (index_map ix' h) = map_option entry_addr (index_map ix h))"

lemma same_places_refl [simp]: "same_places ix ix"
  by (simp add: same_places_def)

lemma same_places_trans: "same_places ix ix' \<Longrightarrow> same_places ix' ix'' \<Longrightarrow> same_places ix ix''"
  by (simp add: same_places_def)

lemma same_places_Some:
  assumes "same_places ix ix'" and "index_map ix' h = Some e"
  shows "\<exists>e'. index_map ix h = Some e' \<and> entry_addr e' = entry_addr e"
  using assms by (metis same_places_def map_option_eq_Some)

lemma same_places_sym: "same_places ix ix' \<Longrightarrow> same_places ix' ix"
  by (simp add: same_places_def)

lemma cache_wf_index:
  assumes "cache_wf E c" and "index_wf ix" and "same_places (bc_index c) ix"
  shows "cache_wf E (c\<lparr>bc_index := ix\<rparr>)" and "cache_blocks (c\<lparr>bc_index := ix\<rparr>) = cache_blocks c"
proof -
  have "entries_stored (env_blake E) ix (bc_sections c)"
    using cache_wfD(5) [OF assms(1)] same_places_Some [OF assms(3)] by (fastforce simp: entries_stored_def)
  moreover have "lru_stored ix (bc_sections c) (bc_lru c)"
    using cache_wfD(6) [OF assms(1)] same_places_Some [OF same_places_sym [OF assms(3)]]
    unfolding lru_stored_def by metis
  ultimately show "cache_wf E (c\<lparr>bc_index := ix\<rparr>)" using assms(1,2) by (simp add: cache_wf_def)
  have "cache_blocks (c\<lparr>bc_index := ix\<rparr>) h = cache_blocks c h" for h
    using assms(3) unfolding same_places_def cache_blocks_def
    by (cases "index_map ix h"; cases "index_map (bc_index c) h") (auto dest!: spec [of _ h])
  then show "cache_blocks (c\<lparr>bc_index := ix\<rparr>) = cache_blocks c" by auto
qed

lemma cache_wf_more [simp]:
  "cache_wf E (c\<lparr>bc_put_groups := g\<rparr>) = cache_wf E c" "cache_wf E (c\<lparr>bc_pending_gets := p\<rparr>) = cache_wf E c"
  "cache_wf E (c\<lparr>bc_dead := d\<rparr>) = cache_wf E c" "cache_wf E (c\<lparr>bc_current_bytes := n\<rparr>) = cache_wf E c"
  "cache_wf E (c\<lparr>bc_entry_count := m\<rparr>) = cache_wf E c" "cache_wf E (c\<lparr>bc_ended_put_groups := gs\<rparr>) = cache_wf E c"
  "cache_wf E (c\<lparr>bc_ended_put_groups_next := k\<rparr>) = cache_wf E c" "cache_wf E (c\<lparr>bc_max_capacity_bytes := n\<rparr>) = cache_wf E c"
  by (simp_all add: cache_wf_def)

lemma cache_blocks_more [simp]:
  "cache_blocks (c\<lparr>bc_put_groups := g\<rparr>) = cache_blocks c" "cache_blocks (c\<lparr>bc_pending_gets := p\<rparr>) = cache_blocks c"
  "cache_blocks (c\<lparr>bc_dead := d\<rparr>) = cache_blocks c" "cache_blocks (c\<lparr>bc_current_bytes := n\<rparr>) = cache_blocks c"
  "cache_blocks (c\<lparr>bc_entry_count := m\<rparr>) = cache_blocks c" "cache_blocks (c\<lparr>bc_ended_put_groups := gs\<rparr>) = cache_blocks c"
  "cache_blocks (c\<lparr>bc_ended_put_groups_next := k\<rparr>) = cache_blocks c" "cache_blocks (c\<lparr>bc_lru := l\<rparr>) = cache_blocks c"
  "cache_blocks (c\<lparr>bc_max_capacity_bytes := n\<rparr>) = cache_blocks c"
  by (simp_all add: cache_blocks_def fun_eq_iff)

lemma cache_wf_lru:
  assumes "cache_wf E c" and "lru_ok l" and "\<And>h w. lru_values l h = Some w \<Longrightarrow> lru_values (bc_lru c) h = Some w"
  shows "cache_wf E (c\<lparr>bc_lru := l\<rparr>)"
  using assms by (auto simp: cache_wf_def lru_stored_def)

lemma block_size_bytes_inj: "block_size_bytes t = block_size_bytes t' \<Longrightarrow> t = t'"
  by (cases t; cases t') simp_all

lemma cache_wf_sections:
  assumes "cache_wf E c" and "sections_wf S" and "sx_bytes S = sx_bytes (bc_sections c)"
    and "sections_blocks (bc_sections c) \<subseteq>\<^sub>m sections_blocks S"
  shows "cache_wf E (c\<lparr>bc_sections := S\<rparr>)" and "cache_blocks (c\<lparr>bc_sections := S\<rparr>) = cache_blocks c"
    and "sx_type S = bc_type c"
proof -
  note wf = cache_wfD [OF assms(1)]
  have le: "sections_blocks S a = Some d" if "sections_blocks (bc_sections c) a = Some d" for a d
    using assms(4) that by (simp add: map_le_def domIff) (metis domI)
  show "sx_type S = bc_type c" using block_size_bytes_inj [OF assms(3)] wf(3) by simp
  moreover have "entries_stored (env_blake E) (bc_index c) S"
    using wf(5) le unfolding entries_stored_def by metis
  moreover have "lru_stored (bc_index c) S (bc_lru c)" using wf(6) le unfolding lru_stored_def by metis
  ultimately show "cache_wf E (c\<lparr>bc_sections := S\<rparr>)" using wf(1,4) assms(2) by (simp add: cache_wf_def)
  have "cache_blocks (c\<lparr>bc_sections := S\<rparr>) h = cache_blocks c h" for h
  proof (cases "index_map (bc_index c) h")
    case (Some e)
    then show ?thesis using wf(5) [OF Some] le [of "entry_addr e"] by (auto simp: cache_blocks_def)
  qed (simp add: cache_blocks_def)
  then show "cache_blocks (c\<lparr>bc_sections := S\<rparr>) = cache_blocks c" by auto
qed

text \<open>Writing to an entry through its pointer.\<close>

lemma entry_modify_ok:
  assumes "cache_wf E c" and "\<And>e. hash (f e) = hash e" and "\<And>e. entry_addr (f e) = entry_addr e"
  shows "cache_wf E (entry_modify (Live h) f c)" and "cache_blocks (entry_modify (Live h) f c) = cache_blocks c"
    and "index_map (bc_index (entry_modify (Live h) f c)) = (index_map (bc_index c))(h := map_option f (index_map (bc_index c) h))"
proof -
  let ?ix = "(bc_index c)\<lparr>root := index_node_update h f (root (bc_index c))\<rparr>"
  have m: "index_map ?ix = (index_map (bc_index c))(h := map_option f (index_map (bc_index c) h))"
    by (rule index_map_update) (simp add: assms(2))
  have "index_wf ?ix" by (rule index_update_wf [OF cache_wfD(1) [OF assms(1)]]) (simp add: assms(2))
  moreover have "same_places (bc_index c) ?ix"
    using assms(3) by (simp add: same_places_def m option.map_comp comp_def)
  ultimately show "cache_wf E (entry_modify (Live h) f c)" and "cache_blocks (entry_modify (Live h) f c) = cache_blocks c"
    using cache_wf_index [OF assms(1)] by simp_all
  show "index_map (bc_index (entry_modify (Live h) f c)) = (index_map (bc_index c))(h := map_option f (index_map (bc_index c) h))"
    using m by simp
qed

lemma index_write_entry_metadata_keeps:
  "index_map (index_write_entry_metadata D ix e) = index_map ix" "index_wf (index_write_entry_metadata D ix e) = index_wf ix"
  "index_to_array (index_write_entry_metadata D ix e) = index_to_array ix"
  "index_count (index_write_entry_metadata D ix e) = index_count ix"
  using index_write_entry_metadata_eq [of D e ix]
  by (simp_all add: index_map_def index_wf_def index_to_array_def index_count_def fun_eq_iff)

lemma entry_write_metadata_ok:
  assumes "cache_wf E c"
  shows "cache_wf E (entry_write_metadata D r c)" and "cache_blocks (entry_write_metadata D r c) = cache_blocks c"
    and "index_map (bc_index (entry_write_metadata D r c)) = index_map (bc_index c)"
  using cache_wf_index [OF assms, of "index_write_entry_metadata D (bc_index c) e" for e] cache_wfD(1) [OF assms] assms
  by (auto simp: entry_write_metadata_def index_write_entry_metadata_keeps same_places_def split: option.splits)

text \<open>Up to the dates of ejection.\<close>

definition same_entries :: "index_t \<Rightarrow> index_t \<Rightarrow> bool" where
  "same_entries ix ix' \<longleftrightarrow> index_wf ix' \<and> index_count ix' = index_count ix \<and>
     (\<forall>h. map_option (\<lambda>e. e\<lparr>ejection_date := 0\<rparr>) (index_map ix' h) = map_option (\<lambda>e. e\<lparr>ejection_date := 0\<rparr>) (index_map ix h))"

lemma same_entries_places:
  assumes "same_entries ix ix'"
  shows "same_places ix ix'"
proof -
  have "map_option entry_addr o1 = map_option entry_addr (map_option (\<lambda>e. e\<lparr>ejection_date := 0\<rparr>) o1)" for o1
    by (cases o1) (simp_all add: entry_addr_def)
  then show ?thesis using assms unfolding same_entries_def same_places_def by metis
qed

lemma same_entries_Some:
  assumes "same_entries ix ix'" and "index_map ix h = Some e"
  shows "\<exists>date. index_map ix' h = Some (e\<lparr>ejection_date := date\<rparr>)"
proof -
  obtain e' where e': "index_map ix' h = Some e'" "e'\<lparr>ejection_date := 0\<rparr> = e\<lparr>ejection_date := 0\<rparr>"
    using assms unfolding same_entries_def by (metis (no_types, lifting) map_option_eq_Some option.map_disc_iff option.exhaust_sel)
  have "e' = (e'\<lparr>ejection_date := 0\<rparr>)\<lparr>ejection_date := ejection_date e'\<rparr>" by simp
  also have "\<dots> = e\<lparr>ejection_date := ejection_date e'\<rparr>" unfolding e'(2) by simp
  finally show ?thesis using e'(1) by metis
qed

lemma same_entries_None: "same_entries ix ix' \<Longrightarrow> index_map ix' h = None \<longleftrightarrow> index_map ix h = None"
  unfolding same_entries_def by (metis option.map_disc_iff)

lemma index_count_root:
  "index_count (ix\<lparr>root := index_node_update h f (root ix')\<rparr>) = index_count ix'"
  by (simp add: index_count_def index_node_count_length entries_index_node_update)

lemma entry_set_ejection_eq:
  assumes "index_wf (bc_index c)"
  shows "\<exists>ix. entry_set_ejection D now (Live h) c = c\<lparr>bc_index := ix\<rparr> \<and> same_entries (bc_index c) ix"
proof (cases "index_map (bc_index c) h")
  case None
  then show ?thesis
    using assms by (intro exI [of _ "bc_index c"]) (simp add: entry_set_ejection_def same_entries_def)
next
  case (Some e)
  note i = index_set_entry_ejection_eq [OF assms Some, of D now]
  have root: "root (index_log D ty d ix) = root ix" for ty d ix
    by (simp add: index_log_def split: prod.splits)
  have "index_count (index_set_entry_ejection D (bc_index c) e now) = index_count (bc_index c)"
    by (simp add: index_set_entry_ejection_def Let_def index_count_root) (simp add: index_count_def root split: option.splits)
  then have "same_entries (bc_index c) (index_set_entry_ejection D (bc_index c) e now)"
    using i Some by (simp add: same_entries_def)
  then show ?thesis
    using Some by (intro exI [of _ "index_set_entry_ejection D (bc_index c) e now"]) (simp add: entry_set_ejection_def)
qed

lemma block_cache_lru_put_eq:
  assumes "cache_wf E c" and "lru_values (bc_lru c) (buffer_bytes (block_hash b)) = None"
  shows "\<exists>ix lru. block_cache_lru_put D now b r c = Some (c\<lparr>bc_index := ix, bc_lru := lru\<rparr>) \<and>
    same_entries (bc_index c) ix \<and> lru_ok lru \<and>
    (\<forall>j w. lru_values lru j = Some w \<longrightarrow> j = buffer_bytes (block_hash b) \<and> w = (b, r) \<or> lru_values (bc_lru c) j = Some w)"
proof -
  note wf = cache_wfD [OF assms(1)]
  obtain e lru where p: "block_lru_cache_put (bc_lru c) (buffer_bytes (block_hash b)) (b, r) = Some (e, lru)" "lru_ok lru"
      "\<forall>j w. lru_values lru j = Some w \<longrightarrow> j = buffer_bytes (block_hash b) \<and> w = (b, r) \<or> lru_values (bc_lru c) j = Some w"
      "\<forall>j w. e = Some (j, w) \<longrightarrow> j \<noteq> buffer_bytes (block_hash b) \<and> lru_values (bc_lru c) j = Some w"
    using block_lru_ok_put [OF wf(4) assms(2), of "(b, r)"] by blast
  show ?thesis
  proof (cases e)
    case None
    have "same_entries (bc_index c) (bc_index c)" using wf(1) by (simp add: same_entries_def)
    then show ?thesis
      using p None by (intro exI [of _ "bc_index c"] exI [of _ lru]) (simp add: block_cache_lru_put_def)
  next
    case (Some k)
    obtain j b' r' where k: "k = (j, b', r')" by (metis prod.exhaust)
    then have r': "r' = Live j" using p(4) Some wf(6) [of j b' r'] by auto
    obtain ix where ix: "entry_set_ejection D now (Live j) (c\<lparr>bc_lru := lru\<rparr>) = c\<lparr>bc_lru := lru, bc_index := ix\<rparr>"
        "same_entries (bc_index c) ix"
      using entry_set_ejection_eq [of "c\<lparr>bc_lru := lru\<rparr>" D now j] wf(1) by auto
    then show ?thesis
      using p Some k r' by (intro exI [of _ ix] exI [of _ lru]) (simp add: block_cache_lru_put_def)
  qed
qed

section \<open>Put\<close>

text \<open>A block of the cache: its size is the one of the cache and its hash the digest of its data.\<close>

definition cache_block :: "('i, 'm) cache_env_scheme \<Rightarrow> block_size_e \<Rightarrow> block_t \<Rightarrow> bool" where
  "cache_block E type b \<longleftrightarrow> length (buffer_bytes (block_data b)) = block_size_bytes type \<and>
     env_blake E (buffer_bytes (block_data b)) = buffer_bytes (block_hash b)"

lemma block_index_fits:
  assumes "sections_wf S" and "sections_blocks S (sid, i) = Some d"
  shows "unat (of_nat i :: u64) = i"
proof -
  have p: "pool_wf S" using assms(1) by (simp add: sections_wf_def)
  have "i \<in> used_slots (fst (stored S sid))"
    using assms(2) by (simp add: sections_blocks_def state_blocks_def split: if_splits)
  then have "i < 2 ^ 32" using pool_wfD(7) [OF p, of sid] by (simp add: state_wf_def used_slots_def)
  then show ?thesis by (simp add: unat_of_nat)
qed

lemma new_address_fits:
  assumes "sections_wf S" and "sections_blocks S (sid, i) = Some d" and "sx_next_id S \<le> 2 ^ 64"
  shows "unat (of_nat sid :: u64) = sid" and "unat (of_nat i :: u64) = i"
proof -
  have p: "pool_wf S" using assms(1) by (simp add: sections_wf_def)
  have "sid < 2 ^ 64" using sections_blocks_before_next [OF p assms(2)] assms(3) by simp
  then show "unat (of_nat sid :: u64) = sid" by (simp add: unat_of_nat)
  show "unat (of_nat i :: u64) = i" by (rule block_index_fits [OF assms(1,2)])
qed

text \<open>A block that is new to the pool and its entry.\<close>

lemma cache_wf_extend:
  assumes "cache_wf E c" and "sections_wf S" "sx_type S = bc_type c" "sections_blocks (bc_sections c) a = None"
    "sections_blocks S = (sections_blocks (bc_sections c))(a \<mapsto> d)"
    and "same_entries (bc_index c) ix" and "index_wf ix'" "index_map ix' = (index_map ix)(h \<mapsto> e)" "index_map ix h = None"
    and "entry_addr e = a" "env_blake E d = h" "buffer_bytes (block_data b) = d" "buffer_bytes (block_hash b) = h"
    and "lru_ok lru"
    "\<forall>j w. lru_values lru j = Some w \<longrightarrow> j = h \<and> w = (b, Live h) \<or> lru_values (bc_lru c) j = Some w"
  shows "cache_wf E (c\<lparr>bc_sections := S, bc_lru := lru, bc_index := ix'\<rparr>)"
    and "cache_blocks (c\<lparr>bc_sections := S, bc_lru := lru, bc_index := ix'\<rparr>) = (cache_blocks c)(h \<mapsto> d)"
proof -
  note wf = cache_wfD [OF assms(1)] and sp = same_entries_places [OF assms(6)]
  have old: "sections_blocks S (entry_addr x) = sections_blocks (bc_sections c) (entry_addr x)"
    if "index_map (bc_index c) k = Some x" for k x
    using wf(5) [OF that] assms(4,5) by auto
  have st: "entries_stored (env_blake E) ix' S"
    unfolding entries_stored_def
  proof (intro allI impI)
    fix k x assume x: "index_map ix' k = Some x"
    show "\<exists>d. sections_blocks S (entry_addr x) = Some d \<and> env_blake E d = k"
    proof (cases "k = h")
      case True
      then show ?thesis using x assms(5,8,10,11) by auto
    next
      case False
      then obtain y where "index_map (bc_index c) k = Some y" "entry_addr y = entry_addr x"
        using x assms(8) same_places_Some [OF sp] by auto
      then show ?thesis using wf(5) old by metis
    qed
  qed
  have lr: "lru_stored ix' S lru"
    unfolding lru_stored_def
  proof (intro allI impI)
    fix k b' r assume l: "lru_values lru k = Some (b', r)"
    show "r = Live k \<and> buffer_bytes (block_hash b') = k \<and>
       (\<exists>e. index_map ix' k = Some e \<and> sections_blocks S (entry_addr e) = Some (buffer_bytes (block_data b')))"
    proof (cases "k = h")
      case True
      have "lru_values (bc_lru c) h = None"
        using wf(6) [of h] same_entries_None [OF assms(6), of h] assms(9) by (cases "lru_values (bc_lru c) h") auto
      then have "(b', r) = (b, Live h)" using l assms(15) True by (metis option.distinct(1))
      then show ?thesis using True assms(5,8,10-13) by auto
    next
      case False
      then have "lru_values (bc_lru c) k = Some (b', r)" using l assms(15) by blast
      then obtain e where "r = Live k" "buffer_bytes (block_hash b') = k" "index_map (bc_index c) k = Some e"
          "sections_blocks (bc_sections c) (entry_addr e) = Some (buffer_bytes (block_data b'))"
        using wf(6) by blast
      then show ?thesis
        using False assms(8) old [of k e] same_entries_Some [OF assms(6), of k e] by (auto simp: entry_addr_def)
    qed
  qed
  show "cache_wf E (c\<lparr>bc_sections := S, bc_lru := lru, bc_index := ix'\<rparr>)"
    using assms(2,3,7,14) st lr by (simp add: cache_wf_def)
  have "cache_blocks (c\<lparr>bc_sections := S, bc_lru := lru, bc_index := ix'\<rparr>) k = ((cache_blocks c)(h \<mapsto> d)) k" for k
  proof (cases "index_map (bc_index c) k")
    case None
    then show ?thesis
      using same_entries_None [OF assms(6), of k] assms(5,8,10) by (auto simp: cache_blocks_def)
  next
    case (Some x)
    then obtain date where ix: "index_map ix k = Some (x\<lparr>ejection_date := date\<rparr>)"
      using same_entries_Some [OF assms(6) Some] by blast
    then have "k \<noteq> h" using assms(9) by auto
    then show ?thesis using ix Some old [OF Some] assms(8) by (simp add: cache_blocks_def entry_addr_def)
  qed
  then show "cache_blocks (c\<lparr>bc_sections := S, bc_lru := lru, bc_index := ix'\<rparr>) = (cache_blocks c)(h \<mapsto> d)" by auto
qed

text \<open>What a request leaves alone besides the blocks.\<close>

definition new_entry :: "bytes \<Rightarrow> u32 \<Rightarrow> nat \<Rightarrow> nat \<Rightarrow> index_entry_t" where
  "new_entry h rank sid i =
     (index_entry_create h)\<lparr>counter := (counter (index_entry_create h))\<lparr>fib_level := rank\<rparr>,
        section_id := of_nat sid, section_index := of_nat i\<rparr>"

lemma new_entry_simps [simp]:
  "hash (new_entry h rank sid i) = h" "pin_count (new_entry h rank sid i) = 0" "ephemeral_count (new_entry h rank sid i) = 0"
  "section_id (new_entry h rank sid i) = of_nat sid" "section_index (new_entry h rank sid i) = of_nat i"
  "fib_level (counter (new_entry h rank sid i)) = rank"
  by (simp_all add: new_entry_def index_entry_create_def)

lemma block_cache_store_ok:
  assumes "cache_wf E c" and "env_ok E cv" and "cache_block E (bc_type c) b"
    and "h = buffer_bytes (block_hash b)" and "index_map (bc_index c) h = None"
  shows "\<exists>c' ix sid i S lru. block_cache_store E now b rank gid c = Some ((0, False, rank), c') \<and>
    (sx_next_id (bc_sections c') \<le> 2 ^ 64 \<longrightarrow>
       cache_wf E c' \<and> cache_blocks c' = (cache_blocks c)(h \<mapsto> buffer_bytes (block_data b))) \<and>
    same_entries (bc_index c) ix \<and> index_map (bc_index c') = (index_map ix)(h \<mapsto> new_entry h rank sid i) \<and>
    index_count (bc_index c') = index_count (bc_index c) + 1 \<and>
    c' = put_group_record gid h (c\<lparr>bc_sections := S, bc_lru := lru, bc_index := bc_index c',
      bc_entry_count := bc_entry_count c + 1, bc_current_bytes := bc_current_bytes c + bc_type_bytes c\<rparr>)"
proof -
  note wf = cache_wfD [OF assms(1)] and env = env_okD [OF assms(2)]
  let ?d = "buffer_bytes (block_data b)"
  have len: "length h = BLAKE3_OUT_LEN" using assms(3,4) env(1) by (metis cache_block_def)
  have "length ?d = sx_bytes (bc_sections c)" using assms(3) wf(3) by (simp add: cache_block_def)
  then obtain sid i S where w: "sections_write (env_io E) ?d (bc_sections c) = Some ((0, sid, i), S)" "sections_wf S"
      "sections_blocks (bc_sections c) (sid, i) = None" "sections_blocks S = (sections_blocks (bc_sections c))((sid, i) \<mapsto> ?d)"
      "sx_bytes S = sx_bytes (bc_sections c)"
    using sections_write_ok [OF wf(2) env(3)] by metis
  have nl: "lru_values (bc_lru c) h = None" using wf(6) [of h] assms(5) by (cases "lru_values (bc_lru c) h") auto
  let ?c1 = "c\<lparr>bc_sections := S\<rparr>"
  have "sections_blocks (bc_sections c) \<subseteq>\<^sub>m sections_blocks S" using w(3,4) by (auto simp: map_le_def)
  note c1 = cache_wf_sections(1,3) [OF assms(1) w(2,5) this]
  obtain ix lru where l: "block_cache_lru_put (env_deps E) now b (Live h) ?c1 = Some (?c1\<lparr>bc_index := ix, bc_lru := lru\<rparr>)"
      "same_entries (bc_index c) ix" "lru_ok lru"
      "\<forall>j w. lru_values lru j = Some w \<longrightarrow> j = h \<and> w = (b, Live h) \<or> lru_values (bc_lru c) j = Some w"
    using block_cache_lru_put_eq [OF c1(1), of b "env_deps E" now "Live h"] nl assms(4) by auto
  let ?e = "new_entry h rank sid i"
  have hix: "index_map ix h = None" using same_entries_None [OF l(2)] assms(5) by simp
  obtain ix' where a: "index_add (env_deps E) ix ?e = Some ix'" "index_wf ix'" "index_map ix' = (index_map ix)(h \<mapsto> ?e)"
      "index_count ix' = index_count ix + 1"
    using index_add_new_eq [of ix ?e "env_deps E"] l(2) len hix by (auto simp: same_entries_def)
  define c' where "c' = put_group_record gid h (c\<lparr>bc_sections := S, bc_lru := lru, bc_index := ix',
      bc_entry_count := bc_entry_count c + 1, bc_current_bytes := bc_current_bytes c + bc_type_bytes c\<rparr>)"
  have eq: "block_cache_store E now b rank gid c = Some ((0, False, rank), c')"
    using w(1) l(1) a(1) by (simp add: block_cache_store_def Let_def assms(4) [symmetric] c'_def new_entry_def bc_type_bytes_def)
  have ix': "bc_index c' = ix'" "bc_sections c' = S" by (simp_all add: c'_def put_group_record_def)
  have "cache_wf E c' \<and> cache_blocks c' = (cache_blocks c)(h \<mapsto> ?d)" if "sx_next_id S \<le> 2 ^ 64"
  proof -
    have "entry_addr ?e = (sid, i)"
      using new_address_fits [OF w(2) _ that, of sid i] w(4) by (simp add: entry_addr_def)
    from cache_wf_extend [OF assms(1) w(2) c1(2) w(3,4) l(2) a(2,3) hix this _ refl assms(4) [symmetric] l(3,4)]
    show ?thesis using assms(3,4) by (simp add: c'_def put_group_record_def cache_block_def)
  qed
  moreover have "index_count ix' = index_count (bc_index c) + 1" using a(4) l(2) by (simp add: same_entries_def)
  ultimately show ?thesis
    using eq l(2) a(3) ix' by (intro exI [of _ c'] exI [of _ ix] exI [of _ sid] exI [of _ i] exI [of _ S] exI [of _ lru])
      (simp add: c'_def)
qed

section \<open>Counters\<close>

abbreviation cache_count :: "block_cache_t \<Rightarrow> nat" where
  "cache_count c \<equiv> index_count (bc_index c)"

text \<open>The counters follow the number of entries, in 64-bit arithmetic.\<close>

definition counted :: "block_cache_t \<Rightarrow> block_cache_t \<Rightarrow> bool" where
  "counted c c' \<longleftrightarrow> bc_type c' = bc_type c \<and> bc_max_capacity_bytes c' = bc_max_capacity_bytes c \<and>
     bc_entry_count c' - of_nat (cache_count c') = bc_entry_count c - of_nat (cache_count c) \<and>
     bc_current_bytes c' - of_nat (cache_count c') * bc_type_bytes c' =
       bc_current_bytes c - of_nat (cache_count c) * bc_type_bytes c"

lemma counted_refl [simp]: "counted c c"
  by (simp add: counted_def)

lemma counted_trans: "counted c c' \<Longrightarrow> counted c' c'' \<Longrightarrow> counted c c''"
  by (simp add: counted_def)

lemma counted_same:
  "bc_type c' = bc_type c \<Longrightarrow> bc_max_capacity_bytes c' = bc_max_capacity_bytes c \<Longrightarrow> bc_entry_count c' = bc_entry_count c \<Longrightarrow>
    bc_current_bytes c' = bc_current_bytes c \<Longrightarrow> cache_count c' = cache_count c \<Longrightarrow> counted c c'"
  by (simp add: counted_def bc_type_bytes_def)

lemma counted_fields [simp]:
  "counted (c\<lparr>bc_sections := S\<rparr>) c' = counted c c'" "counted c (c'\<lparr>bc_sections := S\<rparr>) = counted c c'"
  "counted (c\<lparr>bc_lru := l\<rparr>) c' = counted c c'" "counted c (c'\<lparr>bc_lru := l\<rparr>) = counted c c'"
  "counted (c\<lparr>bc_pending_gets := p\<rparr>) c' = counted c c'" "counted c (c'\<lparr>bc_pending_gets := p\<rparr>) = counted c c'"
  "counted c (c'\<lparr>bc_put_groups := g\<rparr>) = counted c c'"
  unfolding counted_def bc_type_bytes_def by simp_all

lemma entry_modify_fields [simp]:
  "bc_sections (entry_modify r f c) = bc_sections c" "bc_lru (entry_modify r f c) = bc_lru c"
  "bc_type (entry_modify r f c) = bc_type c" "bc_max_capacity_bytes (entry_modify r f c) = bc_max_capacity_bytes c"
  "bc_entry_count (entry_modify r f c) = bc_entry_count c" "bc_current_bytes (entry_modify r f c) = bc_current_bytes c"
  "bc_put_groups (entry_modify r f c) = bc_put_groups c" "bc_ended_put_groups (entry_modify r f c) = bc_ended_put_groups c"
  "bc_delete_blocks_on_put_failure (entry_modify r f c) = bc_delete_blocks_on_put_failure c"
  "cache_count (entry_modify r f c) = cache_count c" "bc_pending_gets (entry_modify r f c) = bc_pending_gets c"
  by (cases r; simp add: index_count_root)+

lemma entry_write_metadata_fields [simp]:
  "bc_sections (entry_write_metadata D r c) = bc_sections c" "bc_lru (entry_write_metadata D r c) = bc_lru c"
  "bc_type (entry_write_metadata D r c) = bc_type c" "bc_max_capacity_bytes (entry_write_metadata D r c) = bc_max_capacity_bytes c"
  "bc_entry_count (entry_write_metadata D r c) = bc_entry_count c" "bc_current_bytes (entry_write_metadata D r c) = bc_current_bytes c"
  "bc_put_groups (entry_write_metadata D r c) = bc_put_groups c" "bc_ended_put_groups (entry_write_metadata D r c) = bc_ended_put_groups c"
  "bc_delete_blocks_on_put_failure (entry_write_metadata D r c) = bc_delete_blocks_on_put_failure c"
  "cache_count (entry_write_metadata D r c) = cache_count c" "bc_pending_gets (entry_write_metadata D r c) = bc_pending_gets c"
  by (simp_all add: entry_write_metadata_def index_write_entry_metadata_keeps split: option.splits)

text \<open>Changing the claims or pins of an entry and logging it.\<close>

lemma entry_update_ok:
  fixes D :: "('j, 'n) deps_scheme" and h :: bytes
  assumes "cache_wf E c" and "\<And>e. hash (f e) = hash e" and "\<And>e. entry_addr (f e) = entry_addr e"
  defines "c' \<equiv> entry_write_metadata D (Live h) (entry_modify (Live h) f c)"
  shows "cache_wf E c'" and "cache_blocks c' = cache_blocks c" and "counted c c'" and "bc_sections c' = bc_sections c"
    and "index_map (bc_index c') = (index_map (bc_index c))(h := map_option f (index_map (bc_index c) h))"
    and "bc_put_groups c' = bc_put_groups c" and "bc_delete_blocks_on_put_failure c' = bc_delete_blocks_on_put_failure c"
    and "cache_count c' = cache_count c"
proof -
  note m = entry_modify_ok [OF assms(1-3), of h]
  show "cache_wf E c'" and "cache_blocks c' = cache_blocks c"
    and "index_map (bc_index c') = (index_map (bc_index c))(h := map_option f (index_map (bc_index c) h))"
    using entry_write_metadata_ok [OF m(1)] m by (simp_all add: c'_def)
  show "counted c c'" and "bc_sections c' = bc_sections c" and "bc_put_groups c' = bc_put_groups c"
    and "bc_delete_blocks_on_put_failure c' = bc_delete_blocks_on_put_failure c" and "cache_count c' = cache_count c"
    by (auto simp: c'_def simp del: entry_modify.simps intro!: counted_same)
qed

section \<open>Deletion\<close>

lemma length_filter_hash:
  "distinct (map hash xs) \<Longrightarrow> e \<in> set xs \<Longrightarrow> length xs = Suc (length (filter (\<lambda>x. hash x \<noteq> hash e) xs))"
proof (induction xs)
  case (Cons a xs)
  show ?case
  proof (cases "a = e")
    case True
    then have "filter (\<lambda>x. hash x \<noteq> hash e) xs = xs" using Cons.prems(1) by (intro filter_absent) (simp add: image_iff; metis)
    then show ?thesis using True by simp
  next
    case False
    then have "e \<in> set xs" "hash a \<noteq> hash e" using Cons.prems by force+
    then show ?thesis using Cons.IH Cons.prems(1) by simp
  qed
qed simp

lemma index_remove_count:
  assumes "index_wf ix" and "index_map ix h = Some e" and "index_to_array ix' = filter (\<lambda>e. hash e \<noteq> h) (index_to_array ix)"
  shows "index_count ix = Suc (index_count ix')"
proof -
  have "distinct (map hash (entries (root ix)))" using assms(1) node_wf_distinct by (auto simp: index_wf_def)
  then have d: "distinct (map hash (index_to_array ix))" by (simp add: index_to_array_def)
  have e: "e \<in> set (index_to_array ix)" "hash e = h" using index_map_mem [OF assms(1)] assms(2) by auto
  have "index_count x = length (index_to_array x)" for x
    by (simp add: index_count_def index_node_count_length index_to_array_def)
  then show ?thesis using length_filter_hash [OF d e(1)] e(2) assms(3) by simp
qed

lemma detach_entry_fields [simp]:
  "bc_sections (detach_entry h c) = bc_sections c" "bc_lru (detach_entry h c) = bc_lru c" "bc_index (detach_entry h c) = bc_index c"
  "bc_type (detach_entry h c) = bc_type c" "bc_max_capacity_bytes (detach_entry h c) = bc_max_capacity_bytes c"
  "bc_put_groups (detach_entry h c) = bc_put_groups c"
  "bc_delete_blocks_on_put_failure (detach_entry h c) = bc_delete_blocks_on_put_failure c"
  by (simp_all add: detach_entry_def split: option.splits)

lemma block_cache_delete_entry_ok:
  assumes "cache_wf E c" and "index_map (bc_index c) h = Some e"
  shows "\<exists>c'. block_cache_delete_entry E h (Live h) c = Some c' \<and> cache_wf E c' \<and>
    cache_blocks c' = (cache_blocks c)(h := None) \<and> index_map (bc_index c') = (index_map (bc_index c))(h := None) \<and>
    bc_sections c' = bc_sections c \<and> counted c c' \<and> cache_count c = Suc (cache_count c') \<and>
    bc_put_groups c' = bc_put_groups c \<and> bc_delete_blocks_on_put_failure c' = bc_delete_blocks_on_put_failure c"
proof -
  note wf = cache_wfD [OF assms(1)]
  obtain ix where ix: "index_remove (env_deps E) (bc_index c) h = Some ix" "index_wf ix"
      "index_map ix = (index_map (bc_index c))(h := None)"
      "index_to_array ix = filter (\<lambda>e. hash e \<noteq> h) (index_to_array (bc_index c))"
    using index_remove_eq [OF wf(1) index_map_length [OF wf(1) assms(2)], of "env_deps E"] by blast
  note n = index_remove_count [OF wf(1) assms(2) ix(4)] and l = lru_ok_delete [OF wf(4), of h]
  define c' where "c' = (detach_entry h c)\<lparr>bc_index := ix, bc_entry_count := bc_entry_count c - 1,
                bc_current_bytes := bc_current_bytes c - bc_type_bytes c,
                bc_lru := lru_cache_delete (bc_lru c) h\<rparr>"
  have f: "bc_sections c' = bc_sections c" "bc_index c' = ix" "bc_put_groups c' = bc_put_groups c"
      "bc_delete_blocks_on_put_failure c' = bc_delete_blocks_on_put_failure c"
    by (simp_all add: c'_def)
  have "block_cache_delete_entry E h (Live h) c = Some (c'\<lparr>bc_sections := bc_sections c'\<rparr>)"
    using assms(2) ix(1) by (simp add: block_cache_delete_entry_def c'_def)
  then have "block_cache_delete_entry E h (Live h) c = Some c'" by simp
  moreover have "entries_stored (env_blake E) ix (bc_sections c)" "lru_stored ix (bc_sections c) (lru_cache_delete (bc_lru c) h)"
    using wf(5,6) by (auto simp: entries_stored_def lru_stored_def ix(3) l(2))
  then have "cache_wf E c'" using wf(2,3) ix(2) l(1) by (simp add: cache_wf_def c'_def)
  moreover have "cache_blocks c' = (cache_blocks c)(h := None)"
    by (auto simp: cache_blocks_def c'_def ix(3) fun_eq_iff)
  moreover have "counted c c'" using n by (simp add: counted_def c'_def bc_type_bytes_def algebra_simps)
  ultimately show ?thesis using n ix(3) f by simp
qed

end
