(* ===== verification/Block_Cache_Requests.thy ===== *)
theory Block_Cache_Requests
  imports Block_Cache_Store
begin

text \<open>
  The requests of the block cache against an abstract cache: a map from hashes to blocks with their rank,
  claims and pins. \<open>cache_spec\<close> says what each request does to this map and what it answers.
\<close>

section \<open>The abstract cache\<close>

record stored_block =
  sb_data :: bytes
  sb_rank :: u32
  sb_claims :: u16
  sb_pins :: u32

definition entry_view :: "index_entry_t \<Rightarrow> bytes \<Rightarrow> stored_block" where
  "entry_view e d = \<lparr>sb_data = d, sb_rank = fib_level (counter e), sb_claims = ephemeral_count e, sb_pins = pin_count e\<rparr>"

definition cache_abs :: "block_cache_t \<Rightarrow> bytes \<Rightarrow> stored_block option" where
  "cache_abs c h =
     (case (index_map (bc_index c) h, cache_blocks c h) of (Some e, Some d) \<Rightarrow> Some (entry_view e d) | _ \<Rightarrow> None)"

lemma cache_abs_None:
  assumes "cache_wf E c"
  shows "cache_abs c h = None \<longleftrightarrow> index_map (bc_index c) h = None"
  using cache_blocks_dom [OF assms, of h] by (auto simp: cache_abs_def split: option.splits)

lemma cache_abs_Some:
  assumes "cache_wf E c" and "index_map (bc_index c) h = Some e"
  shows "\<exists>d. cache_blocks c h = Some d \<and> cache_abs c h = Some (entry_view e d) \<and> env_blake E d = h \<and>
    sections_blocks (bc_sections c) (entry_addr e) = Some d"
  using cache_wfD(5) [OF assms] assms(2) by (auto simp: cache_abs_def cache_blocks_def)

lemma cache_abs_SomeD:
  assumes "cache_wf E c" and "cache_abs c h = Some x"
  shows "\<exists>e. index_map (bc_index c) h = Some e \<and> x = entry_view e (sb_data x) \<and> cache_blocks c h = Some (sb_data x)"
  using assms(2) by (auto simp: cache_abs_def entry_view_def split: option.splits)

text \<open>The abstract cache depends on the blocks and on the entries without their places and dates.\<close>

lemma cache_abs_cong:
  assumes "cache_blocks c' = cache_blocks c" and "same_entries (bc_index c) (bc_index c')"
  shows "cache_abs c' = cache_abs c"
proof
  fix h
  show "cache_abs c' h = cache_abs c h"
  proof (cases "index_map (bc_index c) h")
    case None
    then have "index_map (bc_index c') h = None" using same_entries_None [OF assms(2)] by simp
    then show ?thesis using None by (simp add: cache_abs_def)
  next
    case (Some e)
    then show ?thesis
      using same_entries_Some [OF assms(2) Some] assms(1) by (auto simp: cache_abs_def entry_view_def split: option.splits)
  qed
qed

lemma cache_abs_same:
  assumes "cache_blocks c' = cache_blocks c" and "index_map (bc_index c') = index_map (bc_index c)"
  shows "cache_abs c' = cache_abs c"
  by (simp add: fun_eq_iff cache_abs_def assms)

lemma cache_abs_fields [simp]:
  "cache_abs (c\<lparr>bc_pending_gets := p\<rparr>) = cache_abs c" "cache_abs (c\<lparr>bc_lru := l\<rparr>) = cache_abs c"
  "cache_abs (c\<lparr>bc_put_groups := g\<rparr>) = cache_abs c" "cache_abs (c\<lparr>bc_max_capacity_bytes := n\<rparr>) = cache_abs c"
  "cache_abs (c\<lparr>bc_current_bytes := n\<rparr>) = cache_abs c" "cache_abs (c\<lparr>bc_entry_count := n\<rparr>) = cache_abs c"
  "cache_abs (c\<lparr>bc_ended_put_groups := gs\<rparr>) = cache_abs c" "cache_abs (c\<lparr>bc_ended_put_groups_next := k\<rparr>) = cache_abs c"
  by (rule cache_abs_same; simp)+

lemma cache_abs_update:
  assumes "cache_wf E c" and "cache_blocks c' = cache_blocks c"
    and "index_map (bc_index c') = (index_map (bc_index c))(h := map_option f (index_map (bc_index c) h))"
    and "index_map (bc_index c) h = Some e" and "entry_view (f e) d = g (entry_view e d)" and "cache_blocks c h = Some d"
  shows "cache_abs c' = (cache_abs c)(h \<mapsto> g (entry_view e d))"
  using assms by (auto simp: fun_eq_iff cache_abs_def)

lemma cache_abs_delete:
  assumes "cache_blocks c' = (cache_blocks c)(h := None)" and "index_map (bc_index c') = (index_map (bc_index c))(h := None)"
  shows "cache_abs c' = (cache_abs c)(h := None)"
  using assms by (auto simp: fun_eq_iff cache_abs_def)

section \<open>Put\<close>

definition put_claim :: "bool \<Rightarrow> stored_block \<Rightarrow> stored_block" where
  "put_claim acquire x = (if acquire \<and> sb_claims x < 65535 then x\<lparr>sb_claims := sb_claims x + 1\<rparr> else x)"

definition put_spec ::
  "block_t \<Rightarrow> u32 \<Rightarrow> bool \<Rightarrow> (bytes \<Rightarrow> stored_block option) \<Rightarrow> put_result \<Rightarrow> (bytes \<Rightarrow> stored_block option) \<Rightarrow> bool" where
  "put_spec b rank acquire m r m' =
     (let h = buffer_bytes (block_hash b) in
      case m h of
        Some x \<Rightarrow> r = (1, sb_rank x < rank, max (sb_rank x) rank) \<and>
          m' = m(h \<mapsto> put_claim acquire (x\<lparr>sb_rank := max (sb_rank x) rank\<rparr>))
      | None \<Rightarrow> r = (- 2, False, 0) \<and> m' = m \<or> r = (0, False, rank) \<and>
          m' = m(h \<mapsto> put_claim acquire \<lparr>sb_data = buffer_bytes (block_data b), sb_rank = rank, sb_claims = 0, sb_pins = 0\<rparr>))"

definition cache_small :: "block_cache_t \<Rightarrow> bool" where
  "cache_small c \<longleftrightarrow> sx_next_id (bc_sections c) \<le> 2 ^ 64"

lemma block_cache_claim_fields:
  "bc_sections (block_cache_claim D h c) = bc_sections c" "counted c (block_cache_claim D h c)"
  "cache_count (block_cache_claim D h c) = cache_count c"
  by (auto simp: block_cache_claim_def simp del: entry_modify.simps intro!: counted_same split: option.splits)

lemma block_cache_claim_ok:
  assumes "cache_wf E c" and "index_map (bc_index c) h = Some e" and "cache_blocks c h = Some d"
  shows "cache_wf E (block_cache_claim D h c)" and "cache_blocks (block_cache_claim D h c) = cache_blocks c"
    and "cache_abs (block_cache_claim D h c) = (cache_abs c)(h \<mapsto> put_claim True (entry_view e d))"
proof -
  let ?f = "\<lambda>e. e\<lparr>ephemeral_count := ephemeral_count e + 1\<rparr>"
  let ?c = "entry_write_metadata D (Live h) (entry_modify (Live h) ?f c)"
  have u: "cache_wf E ?c" "cache_blocks ?c = cache_blocks c"
      "index_map (bc_index ?c) = (index_map (bc_index c))(h := map_option ?f (index_map (bc_index c) h))"
    by (rule entry_update_ok [OF assms(1)]; simp add: entry_addr_def)+
  have "cache_abs ?c = (cache_abs c)(h \<mapsto> (entry_view e d)\<lparr>sb_claims := ephemeral_count e + 1\<rparr>)"
    by (rule cache_abs_update [OF assms(1) u(2,3) assms(2) _ assms(3), where g = "\<lambda>x. x\<lparr>sb_claims := ephemeral_count e + 1\<rparr>"])
      (simp add: entry_view_def)
  moreover have "cache_abs c h = Some (entry_view e d)" using assms(2,3) by (simp add: cache_abs_def)
  moreover have "block_cache_claim D h c = (if ephemeral_count e < 65535 then ?c else c)"
    using assms(2) by (simp add: block_cache_claim_def)
  ultimately show "cache_wf E (block_cache_claim D h c)" and "cache_blocks (block_cache_claim D h c) = cache_blocks c"
    and "cache_abs (block_cache_claim D h c) = (cache_abs c)(h \<mapsto> put_claim True (entry_view e d))"
    using u(1,2) assms(1) by (simp_all add: put_claim_def fun_upd_idem) (simp_all add: entry_view_def fun_upd_idem)
qed

lemma block_cache_store_abs:
  assumes "cache_wf E c" and "env_ok E cv" and "cache_block E (bc_type c) b"
    and "h = buffer_bytes (block_hash b)" and "index_map (bc_index c) h = None"
  shows "\<exists>c' sid i. block_cache_store E now b rank gid c = Some ((0, False, rank), c') \<and>
    (cache_small c' \<longrightarrow> cache_wf E c' \<and> cache_blocks c' h = Some (buffer_bytes (block_data b)) \<and>
       cache_abs c' = (cache_abs c)(h \<mapsto> entry_view (new_entry h rank sid i) (buffer_bytes (block_data b)))) \<and>
    index_map (bc_index c') h = Some (new_entry h rank sid i) \<and> counted c c' \<and> cache_count c' = cache_count c + 1"
proof -
  obtain c' ix sid i S lru where s: "block_cache_store E now b rank gid c = Some ((0, False, rank), c')"
      "sx_next_id (bc_sections c') \<le> 2 ^ 64 \<longrightarrow>
         cache_wf E c' \<and> cache_blocks c' = (cache_blocks c)(h \<mapsto> buffer_bytes (block_data b))"
      "same_entries (bc_index c) ix" "index_map (bc_index c') = (index_map ix)(h \<mapsto> new_entry h rank sid i)"
      "cache_count c' = cache_count c + 1"
      "c' = put_group_record gid h (c\<lparr>bc_sections := S, bc_lru := lru, bc_index := bc_index c',
        bc_entry_count := bc_entry_count c + 1, bc_current_bytes := bc_current_bytes c + bc_type_bytes c\<rparr>)"
    using block_cache_store_ok [OF assms, of now rank gid] by blast
  have "bc_type c' = bc_type c" "bc_max_capacity_bytes c' = bc_max_capacity_bytes c"
      "bc_entry_count c' = bc_entry_count c + 1" "bc_current_bytes c' = bc_current_bytes c + bc_type_bytes c"
    by (subst s(6), simp add: put_group_record_def)+
  then have n: "counted c c'" using s(5) by (simp add: counted_def bc_type_bytes_def algebra_simps)
  have "cache_abs c' = (cache_abs c)(h \<mapsto> entry_view (new_entry h rank sid i) (buffer_bytes (block_data b)))"
    if b: "cache_blocks c' = (cache_blocks c)(h \<mapsto> buffer_bytes (block_data b))"
  proof
    fix k
    let ?c = "c\<lparr>bc_index := ix\<rparr>"
    have "same_places (bc_index c) ix" using same_entries_places [OF s(3)] .
    moreover have "index_wf ix" using s(3) by (simp add: same_entries_def)
    ultimately have "cache_blocks ?c = cache_blocks c" using cache_wf_index(2) [OF assms(1)] by simp
    then have "cache_abs ?c k = cache_abs c k" using cache_abs_cong [of ?c c] s(3) by simp
    then show "cache_abs c' k = ((cache_abs c)(h \<mapsto> entry_view (new_entry h rank sid i) (buffer_bytes (block_data b)))) k"
      using b s(4) \<open>cache_blocks ?c = _\<close> by (simp add: cache_abs_def)
  qed
  then show ?thesis using s(1,2,4,5) n by (intro exI [of _ c'] exI [of _ sid] exI [of _ i]) (auto simp: cache_small_def)
qed

text \<open>The capacity test of a put.\<close>

definition put_over :: "block_cache_t \<Rightarrow> bool" where
  "put_over c \<longleftrightarrow> 0 < bc_max_capacity_bytes c \<and> bc_max_capacity_bytes c < bc_current_bytes c + bc_type_bytes c"

lemma block_cache_put_new:
  assumes "cache_wf E c" and "env_ok E cv" and "cache_block E (bc_type c) b" and "h = buffer_bytes (block_hash b)"
    and "index_map (bc_index c) h = None" and "\<not> put_over c" and "\<not> (gid \<noteq> 0 \<and> put_group_ended c gid)"
  shows "\<exists>c'. block_cache_handle_put E now b rank acquire gid c = Some ((0, False, rank), c') \<and>
    (cache_small c' \<longrightarrow> cache_wf E c' \<and> put_spec b rank acquire (cache_abs c) (0, False, rank) (cache_abs c')) \<and>
    counted c c' \<and> cache_count c' = cache_count c + 1"
proof -
  have len: "length h = BLAKE3_OUT_LEN" using assms(3,4) env_okD(1) [OF assms(2)] by (metis cache_block_def)
  have abs: "cache_abs c h = None" using cache_abs_None [OF assms(1)] assms(5) by simp
  obtain c' sid i where s: "block_cache_store E now b rank gid c = Some ((0, False, rank), c')"
      "cache_small c' \<longrightarrow> cache_wf E c' \<and> cache_blocks c' h = Some (buffer_bytes (block_data b)) \<and>
         cache_abs c' = (cache_abs c)(h \<mapsto> entry_view (new_entry h rank sid i) (buffer_bytes (block_data b)))"
      "index_map (bc_index c') h = Some (new_entry h rank sid i)" "counted c c'" "cache_count c' = cache_count c + 1"
    using block_cache_store_abs [OF assms(1-5), of now rank gid] by blast
  let ?c = "if acquire then block_cache_claim (env_deps E) h c' else c'"
  have eq: "block_cache_handle_put E now b rank acquire gid c = Some ((0, False, rank), ?c)"
    using assms(4-7) cache_peek_eq [OF assms(1) len] s(1) by (auto simp: block_cache_handle_put_def put_over_def Let_def)
  have "cache_small ?c \<longleftrightarrow> cache_small c'" "counted c ?c" "cache_count ?c = cache_count c + 1"
    using block_cache_claim_fields [where D = "env_deps E" and h = h and c = c'] s(4,5) counted_trans by (auto simp: cache_small_def)
  moreover have "cache_wf E ?c \<and> put_spec b rank acquire (cache_abs c) (0, False, rank) (cache_abs ?c)" if "cache_small c'"
    using that s(2) block_cache_claim_ok [OF _ s(3), where E = E and d = "buffer_bytes (block_data b)" and D = "env_deps E"]
      abs assms(4) by (auto simp: put_spec_def Let_def put_claim_def entry_view_def)
  ultimately show ?thesis using eq by auto
qed

text \<open>The rank of a known block rises to that of the put.\<close>

lemma put_rank_ok:
  fixes rank :: u32
  assumes "cache_wf E c" and "index_map (bc_index c) h = Some e"
  defines "c1 \<equiv> (if fib_level (counter e) < rank
      then entry_modify (Live h) (\<lambda>e. e\<lparr>counter := (counter e)\<lparr>fib_level := rank\<rparr>\<rparr>) c else c)"
  shows "\<exists>d e1. cache_wf E c1 \<and> counted c c1 \<and> cache_count c1 = cache_count c \<and> bc_sections c1 = bc_sections c \<and>
    cache_blocks c1 h = Some d \<and> cache_abs c h = Some (entry_view e d) \<and> index_map (bc_index c1) h = Some e1 \<and>
    entry_view e1 d = (entry_view e d)\<lparr>sb_rank := max (fib_level (counter e)) rank\<rparr> \<and>
    cache_abs c1 = (cache_abs c)(h \<mapsto> entry_view e1 d)"
proof -
  obtain d where d: "cache_blocks c h = Some d" "cache_abs c h = Some (entry_view e d)"
    using cache_abs_Some [OF assms(1,2)] by blast
  show ?thesis
  proof (cases "fib_level (counter e) < rank")
    case True
    let ?f = "\<lambda>e. e\<lparr>counter := (counter e)\<lparr>fib_level := rank\<rparr>\<rparr>"
    have c1: "c1 = entry_modify (Live h) ?f c" using True by (simp add: c1_def)
    have m: "cache_wf E c1" "cache_blocks c1 = cache_blocks c"
        "index_map (bc_index c1) = (index_map (bc_index c))(h := map_option ?f (index_map (bc_index c) h))"
      unfolding c1 by (rule entry_modify_ok [OF assms(1)]; simp add: entry_addr_def)+
    have "cache_abs c1 = (cache_abs c)(h \<mapsto> (entry_view e d)\<lparr>sb_rank := rank\<rparr>)"
      by (rule cache_abs_update [OF assms(1) m(2,3) assms(2) _ d(1), where g = "\<lambda>x. x\<lparr>sb_rank := rank\<rparr>"]) (simp add: entry_view_def)
    moreover have "counted c c1" "cache_count c1 = cache_count c" "bc_sections c1 = bc_sections c"
      by (auto simp: c1 simp del: entry_modify.simps intro!: counted_same)
    ultimately show ?thesis
      using m d assms(2) less_imp_le [OF True] by (intro exI [of _ d] exI [of _ "?f e"]) (simp add: entry_view_def max_def)
  next
    case False
    then show ?thesis
      using assms(1,2) d by (intro exI [of _ d] exI [of _ e]) (simp add: c1_def entry_view_def max_def fun_upd_idem)
  qed
qed

lemma block_cache_put_known:
  assumes "cache_wf E c" and "length h = BLAKE3_OUT_LEN" and "h = buffer_bytes (block_hash b)" and "index_map (bc_index c) h = Some e"
  shows "\<exists>r c'. block_cache_handle_put E now b rank acquire gid c = Some (r, c') \<and> cache_wf E c' \<and>
    put_spec b rank acquire (cache_abs c) r (cache_abs c') \<and> counted c c' \<and> cache_count c' = cache_count c"
proof -
  define c1 where "c1 = (if fib_level (counter e) < rank
      then entry_modify (Live h) (\<lambda>e. e\<lparr>counter := (counter e)\<lparr>fib_level := rank\<rparr>\<rparr>) c else c)"
  obtain d e1 where c1: "cache_wf E c1" "counted c c1" "cache_count c1 = cache_count c" "cache_blocks c1 h = Some d"
      "cache_abs c h = Some (entry_view e d)" "index_map (bc_index c1) h = Some e1"
      "entry_view e1 d = (entry_view e d)\<lparr>sb_rank := max (fib_level (counter e)) rank\<rparr>"
      "cache_abs c1 = (cache_abs c)(h \<mapsto> entry_view e1 d)"
    using put_rank_ok [OF assms(1,4), of rank] unfolding c1_def [symmetric] by blast
  let ?c = "if acquire then block_cache_claim (env_deps E) h c1 else c1"
  define r where "r = (1 :: int, fib_level (counter e) < rank, max (fib_level (counter e)) rank)"
  have eq: "block_cache_handle_put E now b rank acquire gid c = Some (r, ?c)"
    using cache_peek_eq [OF assms(1,2)] assms(3,4) by (auto simp: block_cache_handle_put_def Let_def r_def max_def c1_def)
  note cl = block_cache_claim_ok [OF c1(1,6,4), where D = "env_deps E"]
    and fl = block_cache_claim_fields [where D = "env_deps E" and h = h and c = c1]
  have "cache_wf E ?c" "counted c ?c" "cache_count ?c = cache_count c"
    using cl(1) fl c1(1-3) counted_trans [OF c1(2)] by simp_all
  moreover have "cache_abs ?c = (cache_abs c)(h \<mapsto> put_claim acquire (entry_view e1 d))"
    using cl(3) c1(8) by (cases acquire) (simp_all add: put_claim_def)
  moreover have "put_spec b rank acquire (cache_abs c) r ((cache_abs c)(h \<mapsto> put_claim acquire (entry_view e1 d)))"
    using c1(5,7) assms(3) by (simp add: put_spec_def r_def entry_view_def)
  ultimately show ?thesis using eq by auto
qed

lemma block_cache_handle_put_ok:
  assumes "cache_wf E c" and "env_ok E cv" and "cache_block E (bc_type c) b"
  shows "\<exists>r c'. block_cache_handle_put E now b rank acquire gid c = Some (r, c') \<and>
    (cache_small c' \<longrightarrow> cache_wf E c' \<and> put_spec b rank acquire (cache_abs c) r (cache_abs c')) \<and>
    counted c c' \<and> (cache_count c' = cache_count c \<or> cache_count c' = cache_count c + 1 \<and> \<not> put_over c)"
proof -
  let ?h = "buffer_bytes (block_hash b)"
  have len: "length ?h = BLAKE3_OUT_LEN" using assms(3) env_okD(1) [OF assms(2)] by (metis cache_block_def)
  show ?thesis
  proof (cases "index_map (bc_index c) ?h")
    case None
    then have abs: "cache_abs c ?h = None" using cache_abs_None [OF assms(1)] by simp
    show ?thesis
    proof (cases "put_over c \<or> gid \<noteq> 0 \<and> put_group_ended c gid")
      case True
      then have "block_cache_handle_put E now b rank acquire gid c = Some ((- 2, False, 0), c)"
        using cache_peek_eq [OF assms(1) len] None by (auto simp: block_cache_handle_put_def put_over_def Let_def)
      then show ?thesis using abs assms(1) by (simp add: put_spec_def)
    next
      case False
      then show ?thesis using block_cache_put_new [OF assms refl None, of gid now rank acquire] by auto
    qed
  next
    case (Some e)
    then show ?thesis using block_cache_put_known [OF assms(1) len refl Some, of now rank acquire gid] by auto
  qed
qed

section \<open>Get\<close>

definition get_spec ::
  "bytes \<Rightarrow> bool \<Rightarrow> bool \<Rightarrow> nat option \<Rightarrow> (bytes \<Rightarrow> stored_block option) \<Rightarrow> block_t option \<Rightarrow> cache_out list \<Rightarrow> bool" where
  "get_spec h no_data peer_serve reply_to m b out =
     (let answer = (\<lambda>b rank existed claimed nd. case reply_to of None \<Rightarrow> [] | Some a \<Rightarrow> [CACHE_GET_RESULT a h b rank existed claimed nd]);
          is_block = (\<lambda>blk x. buffer_bytes (block_data blk) = sb_data x \<and> buffer_bytes (block_hash blk) = h) in
      case m h of
        None \<Rightarrow> b = None \<and> out = answer None 0 False False False
      | Some x \<Rightarrow>
          if peer_serve \<and> 0 < sb_claims x then b = None \<and> out = answer None 0 False False False
          else if no_data then b = None \<and> out = answer None (sb_rank x) True (0 < sb_claims x) True
          else if reply_to = None then out = [] \<and> (\<exists>blk. b = Some blk \<and> is_block blk x)
          else b = None \<and> ((\<exists>blk. out = answer (Some blk) (sb_rank x) True (0 < sb_claims x) False \<and> is_block blk x) \<or>
            (\<exists>sid i. out = [CACHE_SECTIONS_READ sid i])))"

lemma buffer_bytes_bytes_buffer [simp]: "buffer_bytes (bytes_buffer d) = d" "buf_size (bytes_buffer d) = length d"
    "buffer_wf (bytes_buffer d)"
  by (simp_all add: bytes_buffer_def buffer_bytes_def buffer_create_from_existing_memory_def buffer_wf_def)

lemma sections_blocks_length:
  assumes "sections_wf S" and "sections_blocks S a = Some d"
  shows "length d = sx_bytes S"
proof -
  have "state_wf (sx_bytes S) (stored S (fst a))" using pool_wfD(7) assms(1) by (simp add: sections_wf_def)
  then show ?thesis
    using assms(2)
    by (auto simp: sections_blocks_def state_blocks_def slot_data_def state_wf_def slots_fit_def file_pread_def
        dest!: bspec [of _ _ "snd a"] split: if_splits)
qed

text \<open>What is read back passes the verification.\<close>

lemma block_cache_checked_ok:
  assumes "env_ok E cv" and "length d = block_size_bytes t" and "env_blake E d = h"
  shows "block_cache_checked (env_blake E) (Some d) h = Some \<lparr>block_data = bytes_buffer d, block_hash = bytes_buffer h\<rparr>"
proof -
  have "length h = BLAKE3_OUT_LEN" using assms(3) env_okD(1) [OF assms(1)] by metis
  moreover have "block_verify_hash (env_blake E) (Some (bytes_buffer d)) (Some (bytes_buffer h))"
    using block_verify_hash_eq [of "env_blake E" "bytes_buffer h" "bytes_buffer d"] env_okD(1) [OF assms(1)] assms(3) by simp
  ultimately show ?thesis
    using assms(2) by (simp add: block_cache_checked_def block_cache_verify_read_hash_def
        block_create_existing_data_hash_by_type_def)
qed

lemma block_cache_lru_put_ok:
  assumes "cache_wf E c" and "h = buffer_bytes (block_hash b)" and "lru_values (bc_lru c) h = None"
    and "index_map (bc_index c) h = Some e" and "sections_blocks (bc_sections c) (entry_addr e) = Some (buffer_bytes (block_data b))"
  shows "\<exists>c'. block_cache_lru_put D now b (Live h) c = Some c' \<and> cache_wf E c' \<and> cache_blocks c' = cache_blocks c \<and>
    same_entries (bc_index c) (bc_index c') \<and> counted c c' \<and> bc_sections c' = bc_sections c \<and>
    bc_pending_gets c' = bc_pending_gets c \<and> bc_dead c' = bc_dead c"
proof -
  obtain ix lru where l: "block_cache_lru_put D now b (Live h) c = Some (c\<lparr>bc_index := ix, bc_lru := lru\<rparr>)"
      "same_entries (bc_index c) ix" "lru_ok lru"
      "\<forall>j w. lru_values lru j = Some w \<longrightarrow> j = h \<and> w = (b, Live h) \<or> lru_values (bc_lru c) j = Some w"
    using block_cache_lru_put_eq [OF assms(1), of b D now "Live h"] assms(2,3) by auto
  have ix: "index_wf ix" "index_count ix = cache_count c" using l(2) by (simp_all add: same_entries_def)
  note c1 = cache_wf_index [OF assms(1) ix(1) same_entries_places [OF l(2)]]
  obtain date where e: "index_map ix h = Some (e\<lparr>ejection_date := date\<rparr>)" using same_entries_Some [OF l(2) assms(4)] by blast
  have "lru_stored ix (bc_sections c) lru"
    unfolding lru_stored_def
  proof (intro allI impI)
    fix k b' r assume k: "lru_values lru k = Some (b', r)"
    consider "k = h" "b' = b" "r = Live h" | "lru_values (bc_lru c) k = Some (b', r)" using l(4) k by blast
    then show "r = Live k \<and> buffer_bytes (block_hash b') = k \<and>
       (\<exists>e. index_map ix k = Some e \<and> sections_blocks (bc_sections c) (entry_addr e) = Some (buffer_bytes (block_data b')))"
    proof cases
      case 1
      then show ?thesis using assms(2,5) e by (simp add: entry_addr_def)
    next
      case 2
      then show ?thesis using cache_wfD(6) [OF c1(1), of k b' r] by simp
    qed
  qed
  then have "cache_wf E (c\<lparr>bc_index := ix, bc_lru := lru\<rparr>)" using c1(1) l(3) by (simp add: cache_wf_def)
  moreover have "counted c (c\<lparr>bc_index := ix, bc_lru := lru\<rparr>)" by (rule counted_same) (simp_all add: ix(2))
  ultimately show ?thesis using l(1,2) c1(2) by simp
qed

lemma block_cache_get_stored_ok:
  assumes "cache_wf E c" and "env_ok E cv" and "index_map (bc_index c) h = Some e" and "lru_values (bc_lru c) h = None"
  shows "\<exists>b out c'. block_cache_get_stored E now h e reply_to c = Some (b, out, c') \<and> cache_wf E c' \<and>
    cache_abs c' = cache_abs c \<and> counted c c' \<and> cache_count c' = cache_count c \<and>
    (if reply_to = None then out = [] \<and> (\<exists>blk. b = Some blk \<and> cache_blocks c h = Some (buffer_bytes (block_data blk)) \<and>
       buffer_bytes (block_hash blk) = h)
     else b = None \<and> (\<exists>sid i. out = [CACHE_SECTIONS_READ sid i]))"
proof (cases reply_to)
  case (Some a)
  then show ?thesis
    using assms(1) by (simp add: block_cache_get_stored_def)
next
  case None
  note wf = cache_wfD [OF assms(1)] and env = env_okD [OF assms(2)]
  have he: "hash e = h" by (rule index_map_hash [OF assms(3)])
  obtain d where d: "cache_blocks c h = Some d" "env_blake E d = h" "sections_blocks (bc_sections c) (entry_addr e) = Some d"
    using cache_abs_Some [OF assms(1,3)] by blast
  let ?b = "\<lparr>block_data = bytes_buffer d, block_hash = bytes_buffer h\<rparr>"
  obtain S where S: "sections_read (env_io E) (unat (section_id e)) (unat (section_index e)) (bc_sections c) = Some (Some d, S)"
      "sections_wf S" "sx_bytes S = sx_bytes (bc_sections c)" "sections_blocks S = sections_blocks (bc_sections c)"
    using sections_read_ok [OF wf(2) env(3) d(3) [unfolded entry_addr_def]] by blast
  have "sections_blocks (bc_sections c) \<subseteq>\<^sub>m sections_blocks S" by (simp add: S(4))
  note c1 = cache_wf_sections [OF assms(1) S(2,3) this]
  have chk: "block_cache_checked (env_blake E) (Some d) (hash e) = Some ?b"
    using block_cache_checked_ok [OF assms(2) _ d(2)] sections_blocks_length [OF wf(2) d(3)] he by simp
  obtain c' where p: "block_cache_lru_put (env_deps E) now ?b (Live h) (c\<lparr>bc_sections := S\<rparr>) = Some c'" "cache_wf E c'"
      "cache_blocks c' = cache_blocks (c\<lparr>bc_sections := S\<rparr>)" "same_entries (bc_index c) (bc_index c')"
      "counted (c\<lparr>bc_sections := S\<rparr>) c'"
    using block_cache_lru_put_ok [OF c1(1), of h ?b e "env_deps E" now] assms(3,4) d(3) S(4) by auto
  have "block_cache_get_stored E now h e reply_to c = Some (Some ?b, [], c')"
    using None S(1) chk p(1) by (simp add: block_cache_get_stored_def)
  moreover have "cache_abs c' = cache_abs c" using cache_abs_cong [of c' c] p(3,4) c1(2) by simp
  moreover have "counted c c'" using p(5) by simp
  moreover have "cache_count c' = cache_count c" using p(4) by (simp add: same_entries_def)
  ultimately show ?thesis using None p(2) d(1) by simp
qed

text \<open>What every request that adds nothing keeps.\<close>

definition kept :: "('i, 'm) cache_env_scheme \<Rightarrow> block_cache_t \<Rightarrow> block_cache_t \<Rightarrow> bool" where
  "kept E c c' \<longleftrightarrow> cache_wf E c' \<and> counted c c' \<and> cache_count c' \<le> cache_count c"

lemma kept_refl: "cache_wf E c \<Longrightarrow> kept E c c"
  by (simp add: kept_def)

lemma kept_trans: "kept E c c' \<Longrightarrow> kept E c' c'' \<Longrightarrow> kept E c c''"
  by (auto simp: kept_def intro: counted_trans)

text \<open>A get that wants the data: from the LRU, or from the pool.\<close>

lemma block_cache_get_data_ok:
  assumes "cache_wf E c" and "env_ok E cv" and "length h = BLAKE3_OUT_LEN" and "index_map (bc_index c) h = Some e"
    and "\<not> (peer_serve \<and> 0 < ephemeral_count e \<or> no_data)"
  shows "\<exists>b out c'. block_cache_handle_get E now h no_data peer_serve reply_to c = Some (b, out, c') \<and> kept E c c' \<and>
    cache_abs c' = cache_abs c \<and> get_spec h no_data peer_serve reply_to (cache_abs c) b out"
proof -
  note peek = cache_peek_eq [OF assms(1,3)] and wf = cache_wfD [OF assms(1)]
  obtain d where d: "cache_blocks c h = Some d" "cache_abs c h = Some (entry_view e d)"
      "sections_blocks (bc_sections c) (entry_addr e) = Some d"
    using cache_abs_Some [OF assms(1,4)] by blast
  obtain lru where l: "lru_cache_get (bc_lru c) h = (lru_values (bc_lru c) h, lru)" "lru_ok lru"
      "lru_values lru = lru_values (bc_lru c)"
    by (rule lru_ok_get [OF wf(4), of h])
  have c1: "cache_wf E (c\<lparr>bc_lru := lru\<rparr>)" using cache_wf_lru [OF assms(1) l(2)] l(3) by simp
  show ?thesis
  proof (cases "lru_values (bc_lru c) h")
    case None
    then have n: "lru_values (bc_lru (c\<lparr>bc_lru := lru\<rparr>)) h = None" using l(3) by simp
    have i: "index_map (bc_index (c\<lparr>bc_lru := lru\<rparr>)) h = Some e" using assms(4) by simp
    obtain b out c' where g: "block_cache_get_stored E now h e reply_to (c\<lparr>bc_lru := lru\<rparr>) = Some (b, out, c')" "cache_wf E c'"
        "cache_abs c' = cache_abs c" "counted c c'" "cache_count c' = cache_count c"
        "if reply_to = None then out = [] \<and> (\<exists>blk. b = Some blk \<and> cache_blocks c h = Some (buffer_bytes (block_data blk)) \<and>
           buffer_bytes (block_hash blk) = h)
         else b = None \<and> (\<exists>sid i. out = [CACHE_SECTIONS_READ sid i])"
      using block_cache_get_stored_ok [OF c1 assms(2) i n, of now reply_to] unfolding cache_abs_fields counted_fields cache_blocks_more
      by (elim exE conjE) simp
    have "block_cache_handle_get E now h no_data peer_serve reply_to c = Some (b, out, c')"
      using assms(4,5) peek l(1) None g(1)
      by (auto simp: block_cache_handle_get_def Let_def index_entry_is_servable_def word_gt_0)
    moreover have "get_spec h no_data peer_serve reply_to (cache_abs c) b out"
      using g(6) assms(5) d(1,2) by (auto simp: get_spec_def entry_view_def split: if_splits)
    ultimately show ?thesis using g(2-5) by (simp add: kept_def)
  next
    case (Some br)
    then obtain b r where b: "br = (b, r)" "buffer_bytes (block_hash b) = h" "buffer_bytes (block_data b) = d"
      using wf(6) [of h] assms(4) d(3) by (cases br) auto
    then show ?thesis
      using assms(4,5) peek l(1) Some c1 d(2)
      by (auto simp: block_cache_handle_get_def Let_def index_entry_is_servable_def word_gt_0 kept_def get_spec_def entry_view_def
          split: option.splits)
  qed
qed

lemma block_cache_handle_get_ok:
  assumes "cache_wf E c" and "env_ok E cv" and "length h = BLAKE3_OUT_LEN"
  shows "\<exists>b out c'. block_cache_handle_get E now h no_data peer_serve reply_to c = Some (b, out, c') \<and> kept E c c' \<and>
    cache_abs c' = cache_abs c \<and> get_spec h no_data peer_serve reply_to (cache_abs c) b out"
proof (cases "index_map (bc_index c) h")
  case None
  then have "cache_abs c h = None" using cache_abs_None [OF assms(1)] by simp
  then show ?thesis
    using None cache_peek_eq [OF assms(1,3)] kept_refl [OF assms(1)]
    by (simp add: block_cache_handle_get_def get_spec_def Let_def)
next
  case (Some e)
  obtain d where d: "cache_abs c h = Some (entry_view e d)" using cache_abs_Some [OF assms(1) Some] by blast
  show ?thesis
  proof (cases "peer_serve \<and> 0 < ephemeral_count e \<or> no_data")
    case True
    then show ?thesis
      using Some cache_peek_eq [OF assms(1,3)] d kept_refl [OF assms(1)]
      by (auto simp: block_cache_handle_get_def get_spec_def Let_def index_entry_is_servable_def entry_view_def word_gt_0
          split: option.splits)
  next
    case False
    from block_cache_get_data_ok [OF assms Some this] show ?thesis .
  qed
qed

section \<open>Removal, claims and pins\<close>

definition remove_spec ::
  "bytes \<Rightarrow> bool \<Rightarrow> (bytes \<Rightarrow> stored_block option) \<Rightarrow> int \<Rightarrow> (bytes \<Rightarrow> stored_block option) \<Rightarrow> bool" where
  "remove_spec h force m r m' =
     (case m h of
        None \<Rightarrow> r = 0 \<and> m' = m
      | Some x \<Rightarrow>
          if 0 < sb_claims x \<and> \<not> force then r = - 4 \<and> m' = m
          else if 0 < sb_pins x \<and> \<not> force then r = - 3 \<and> m' = m
          else r = 0 \<and> m' = m(h := None))"

text \<open>Setting claims or pins.\<close>

lemma cache_set_ok:
  assumes "cache_wf E c" and "index_map (bc_index c) h = Some e" and "cache_blocks c h = Some d"
    and "\<And>e. hash (f e) = hash e" and "\<And>e. entry_addr (f e) = entry_addr e" and "\<And>e. entry_view (f e) d = g (entry_view e d)"
    and "c' = entry_write_metadata D (Live h) (entry_modify (Live h) f c)"
  shows "kept E c c'" and "cache_abs c' = (cache_abs c)(h \<mapsto> g (entry_view e d))" and "bc_sections c' = bc_sections c"
    and "index_map (bc_index c') h = Some (f e)" and "bc_put_groups c' = bc_put_groups c"
    and "bc_delete_blocks_on_put_failure c' = bc_delete_blocks_on_put_failure c"
proof -
  note u = entry_update_ok [OF assms(1,4,5), of D h, folded assms(7)]
  show "kept E c c'" using u(1,3,8) by (simp add: kept_def)
  show "cache_abs c' = (cache_abs c)(h \<mapsto> g (entry_view e d))"
    using cache_abs_update [OF assms(1) u(2,5) assms(2), where d = d and g = g] assms(3,6) by simp
  show "bc_sections c' = bc_sections c" "index_map (bc_index c') h = Some (f e)" "bc_put_groups c' = bc_put_groups c"
    "bc_delete_blocks_on_put_failure c' = bc_delete_blocks_on_put_failure c"
    using u(4-7) assms(2) by auto
qed

lemma cache_delete_ok:
  assumes "cache_wf E c" and "index_map (bc_index c) h = Some e"
  shows "\<exists>c'. block_cache_delete_entry E h (Live h) c = Some c' \<and> kept E c c' \<and> cache_abs c' = (cache_abs c)(h := None) \<and>
    bc_sections c' = bc_sections c \<and> bc_put_groups c' = bc_put_groups c \<and>
    bc_delete_blocks_on_put_failure c' = bc_delete_blocks_on_put_failure c \<and>
    index_map (bc_index c') = (index_map (bc_index c))(h := None)"
  using block_cache_delete_entry_ok [OF assms] cache_abs_delete [of _ c h] by (fastforce simp: kept_def)

lemma block_cache_handle_remove_ok:
  assumes "cache_wf E c" and "length h = BLAKE3_OUT_LEN"
  shows "\<exists>r c'. block_cache_handle_remove E h force c = Some (r, c') \<and> kept E c c' \<and> bc_sections c' = bc_sections c \<and>
    remove_spec h force (cache_abs c) r (cache_abs c')"
proof (cases "index_map (bc_index c) h")
  case None
  then have "cache_abs c h = None" using cache_abs_None [OF assms(1)] by simp
  then show ?thesis
    using None block_cache_peek_eq [OF assms] kept_refl [OF assms(1)]
    by (simp add: block_cache_handle_remove_def remove_spec_def)
next
  case (Some e)
  note peek = block_cache_peek_eq [OF assms]
  obtain d where d: "cache_blocks c h = Some d" "cache_abs c h = Some (entry_view e d)"
    using cache_abs_Some [OF assms(1) Some] by blast
  show ?thesis
  proof (cases "\<not> force \<and> (0 < ephemeral_count e \<or> 0 < pin_count e)")
    case True
    then show ?thesis
      using Some peek d(2) kept_refl [OF assms(1)]
      by (auto simp: block_cache_handle_remove_def remove_spec_def entry_view_def)
  next
    case False
    define c1 where "c1 = entry_write_metadata (env_deps E) (Live h) (entry_modify (Live h) (\<lambda>e. e\<lparr>pin_count := 0\<rparr>) c)"
    let ?c1 = "if force \<and> 0 < pin_count e then c1 else c"
    note s = cache_set_ok [OF assms(1) Some d(1) _ _ _ c1_def, where g = "\<lambda>x. x\<lparr>sb_pins := 0\<rparr>"]
    have k: "kept E c ?c1" "bc_sections ?c1 = bc_sections c"
      using s(1,3) kept_refl [OF assms(1)] by (auto simp: entry_addr_def entry_view_def)
    have a: "(cache_abs ?c1)(h := None) = (cache_abs c)(h := None)"
      using s(2) by (auto simp: entry_addr_def entry_view_def)
    obtain e1 where e1: "index_map (bc_index ?c1) h = Some e1"
      using s(4) Some by (cases "force \<and> 0 < pin_count e") (auto simp: entry_addr_def entry_view_def)
    have "cache_wf E ?c1" using k(1) by (simp only: kept_def)
    from cache_delete_ok [OF this e1]
    obtain c' where c': "block_cache_delete_entry E h (Live h) ?c1 = Some c'" "kept E ?c1 c'"
        "cache_abs c' = (cache_abs ?c1)(h := None)" "bc_sections c' = bc_sections ?c1" by blast
    have "block_cache_handle_remove E h force c = Some (0, c')"
      using Some peek False c'(1) by (auto simp: block_cache_handle_remove_def c1_def split: if_splits)
    moreover have "remove_spec h force (cache_abs c) 0 (cache_abs c')"
      using d(2) False c'(3) a by (auto simp: remove_spec_def entry_view_def)
    ultimately show ?thesis using kept_trans [OF k(1) c'(2)] c'(4) k(2) by (intro exI [of _ 0] exI [of _ c']) simp
  qed
qed

definition ephemeral_spec ::
  "bytes \<Rightarrow> cache_ephemeral_op_e \<Rightarrow> (bytes \<Rightarrow> stored_block option) \<Rightarrow> int \<times> u16 \<times> u16 \<Rightarrow> (bytes \<Rightarrow> stored_block option) \<Rightarrow> bool" where
  "ephemeral_spec h op m r m' =
     (case m h of
        None \<Rightarrow> r = (- 1, 0, 0) \<and> m' = m
      | Some x \<Rightarrow>
          let n = sb_claims x in
          case op of
            CACHE_EPHEMERAL_ACQUIRE \<Rightarrow>
              if n = 65535 then r = (- 2, n, n) \<and> m' = m
              else r = (0, n, n + 1) \<and> m' = m(h \<mapsto> x\<lparr>sb_claims := n + 1\<rparr>)
          | CACHE_EPHEMERAL_RELEASE \<Rightarrow>
              if n = 0 then r = (0, 0, 0) \<and> m' = m
              else r = (0, n, n - 1) \<and> m' = (if n = 1 then m(h := None) else m(h \<mapsto> x\<lparr>sb_claims := n - 1\<rparr>))
          | CACHE_EPHEMERAL_CLEAR \<Rightarrow> r = (0, n, 0) \<and> m' = m(h \<mapsto> x\<lparr>sb_claims := 0\<rparr>))"

definition pin_spec ::
  "bytes \<Rightarrow> bool \<Rightarrow> (bytes \<Rightarrow> stored_block option) \<Rightarrow> int \<times> u32 \<times> u32 \<Rightarrow> (bytes \<Rightarrow> stored_block option) \<Rightarrow> bool" where
  "pin_spec h pin m r m' =
     (case m h of
        None \<Rightarrow> r = (- 1, 0, 0) \<and> m' = m
      | Some x \<Rightarrow>
          let n = sb_pins x; k = (if pin then if n = 4294967295 then n else n + 1 else if n = 0 then 0 else n - 1)
          in r = (0, n, k) \<and> m' = m(h \<mapsto> x\<lparr>sb_pins := k\<rparr>))"

lemma block_cache_handle_pin_ok:
  assumes "cache_wf E c" and "length h = BLAKE3_OUT_LEN"
  shows "\<exists>r c'. block_cache_handle_pin E h pin c = Some (r, c') \<and> kept E c c' \<and> pin_spec h pin (cache_abs c) r (cache_abs c')"
proof (cases "index_map (bc_index c) h")
  case None
  then have "cache_abs c h = None" using cache_abs_None [OF assms(1)] by simp
  then show ?thesis
    using None block_cache_peek_eq [OF assms] kept_refl [OF assms(1)] by (simp add: block_cache_handle_pin_def pin_spec_def)
next
  case (Some e)
  obtain d where d: "cache_blocks c h = Some d" "cache_abs c h = Some (entry_view e d)"
    using cache_abs_Some [OF assms(1) Some] by blast
  define k where "k = (if pin then if pin_count e = 4294967295 then pin_count e else pin_count e + 1
    else if 0 < pin_count e then pin_count e - 1 else pin_count e)"
  define c' where "c' = entry_write_metadata (env_deps E) (Live h) (entry_modify (Live h) (\<lambda>e. e\<lparr>pin_count := k\<rparr>) c)"
  have "kept E c c'" "cache_abs c' = (cache_abs c)(h \<mapsto> (entry_view e d)\<lparr>sb_pins := k\<rparr>)"
    using cache_set_ok [OF assms(1) Some d(1) _ _ _ c'_def, where g = "\<lambda>x. x\<lparr>sb_pins := k\<rparr>"]
    by (simp_all add: entry_addr_def entry_view_def)
  moreover have "block_cache_handle_pin E h pin c = Some ((0, pin_count e, k), c')"
    using Some block_cache_peek_eq [OF assms] by (simp add: block_cache_handle_pin_def k_def c'_def Let_def)
  moreover have "pin_spec h pin (cache_abs c) (0, pin_count e, k) ((cache_abs c)(h \<mapsto> (entry_view e d)\<lparr>sb_pins := k\<rparr>))"
    using d(2) by (auto simp: pin_spec_def Let_def entry_view_def k_def word_gt_0)
  ultimately show ?thesis by auto
qed

lemma block_cache_handle_ephemeral_ok:
  assumes "cache_wf E c" and "length h = BLAKE3_OUT_LEN"
  shows "\<exists>r c'. block_cache_handle_ephemeral E h op c = Some (r, c') \<and> kept E c c' \<and>
    ephemeral_spec h op (cache_abs c) r (cache_abs c')"
proof (cases "index_map (bc_index c) h")
  case None
  then have "cache_abs c h = None" using cache_abs_None [OF assms(1)] by simp
  then show ?thesis
    using None block_cache_peek_eq [OF assms] kept_refl [OF assms(1)]
    by (simp add: block_cache_handle_ephemeral_def ephemeral_spec_def)
next
  case (Some e)
  note peek = block_cache_peek_eq [OF assms]
  obtain d where d: "cache_blocks c h = Some d" "cache_abs c h = Some (entry_view e d)"
    using cache_abs_Some [OF assms(1) Some] by blast
  define set_to where "set_to n = entry_write_metadata (env_deps E) (Live h) (entry_modify (Live h) (\<lambda>e. e\<lparr>ephemeral_count := n\<rparr>) c)" for n
  have st: "kept E c (set_to n)" "cache_abs (set_to n) = (cache_abs c)(h \<mapsto> (entry_view e d)\<lparr>sb_claims := n\<rparr>)"
      "index_map (bc_index (set_to n)) h = Some (e\<lparr>ephemeral_count := n\<rparr>)" for n
    using cache_set_ok [OF assms(1) Some d(1) _ _ _ set_to_def, where g = "\<lambda>x. x\<lparr>sb_claims := n\<rparr>"]
    by (simp_all add: entry_addr_def entry_view_def)
  have "\<exists>c'. block_cache_delete_entry E h (Live h) (set_to n) = Some c' \<and> kept E c c' \<and> cache_abs c' = (cache_abs c)(h := None)" for n
  proof -
    have "cache_wf E (set_to n)" using st(1) by (simp add: kept_def)
    from cache_delete_ok [OF this st(3)] show ?thesis using st(2) kept_trans [OF st(1)] by fastforce
  qed
  then obtain del where del: "block_cache_delete_entry E h (Live h) (set_to n) = Some (del n)" "kept E c (del n)"
      "cache_abs (del n) = (cache_abs c)(h := None)" for n by metis
  let ?n = "ephemeral_count e"
  have eq: "block_cache_handle_ephemeral E h op c =
      (case op of
         CACHE_EPHEMERAL_ACQUIRE \<Rightarrow> if ?n = 65535 then Some ((- 2, ?n, ?n), c) else Some ((0, ?n, ?n + 1), set_to (?n + 1))
       | CACHE_EPHEMERAL_RELEASE \<Rightarrow>
           if 0 < ?n then Some ((0, ?n, ?n - 1), if ?n = 1 then del 0 else set_to (?n - 1)) else Some ((0, ?n, 0), c)
       | CACHE_EPHEMERAL_CLEAR \<Rightarrow> Some ((0, ?n, 0), if 0 < ?n then set_to 0 else c))"
    using Some peek del(1) [of 0]
    by (cases op) (auto simp: block_cache_handle_ephemeral_def Let_def set_to_def [symmetric] simp del: entry_modify.simps)
  have idem: "(cache_abs c)(h \<mapsto> (entry_view e d)\<lparr>sb_claims := ?n\<rparr>) = cache_abs c"
    using d(2) by (auto simp: entry_view_def fun_upd_idem)
  show ?thesis
  proof (cases op)
    case CACHE_EPHEMERAL_ACQUIRE
    then show ?thesis
      using eq d(2) st(1,2) kept_refl [OF assms(1)] by (auto simp: ephemeral_spec_def entry_view_def)
  next
    case CACHE_EPHEMERAL_RELEASE
    then show ?thesis
      using eq d(2) st(1,2) del(2,3) kept_refl [OF assms(1)] by (auto simp: ephemeral_spec_def entry_view_def word_gt_0)
  next
    case CACHE_EPHEMERAL_CLEAR
    then show ?thesis
      using eq d(2) st(1,2) idem kept_refl [OF assms(1)] by (cases "?n = 0") (auto simp: ephemeral_spec_def entry_view_def word_gt_0)
  qed
qed

section \<open>Sweeps\<close>

text \<open>The blocks a sweep deletes.\<close>

definition gc_deletes :: "(bytes \<Rightarrow> bool) option \<Rightarrow> bool \<Rightarrow> bytes \<Rightarrow> stored_block \<Rightarrow> bool" where
  "gc_deletes keep force h x \<longleftrightarrow> \<not> (case keep of None \<Rightarrow> False | Some k \<Rightarrow> k h) \<and> (force \<or> sb_claims x = 0 \<and> sb_pins x = 0)"

definition drop_blocks :: "(bytes \<Rightarrow> stored_block \<Rightarrow> bool) \<Rightarrow> (bytes \<Rightarrow> stored_block option) \<Rightarrow> bytes \<Rightarrow> stored_block option" where
  "drop_blocks P m h = (case m h of None \<Rightarrow> None | Some x \<Rightarrow> if P h x then None else Some x)"

lemma drop_blocks_cong:
  "(\<And>h x. m h = Some x \<Longrightarrow> P h x = Q h x) \<Longrightarrow> drop_blocks P m = drop_blocks Q m"
  by (auto simp: drop_blocks_def fun_eq_iff split: option.splits)

lemma drop_blocks_False [simp]: "drop_blocks (\<lambda>h x. False) m = m"
  by (auto simp: drop_blocks_def fun_eq_iff split: option.splits)

lemma drop_blocks_upd: "drop_blocks P (m(h := None)) = drop_blocks (\<lambda>k x. k = h \<or> P k x) m"
  by (auto simp: drop_blocks_def fun_eq_iff split: option.splits)

lemma block_cache_gc_loop_ok:
  assumes "cache_wf E c" and "distinct (map hash es)" and "\<forall>e \<in> set es. index_map (bc_index c) (hash e) = Some e"
  shows "\<exists>r c'. block_cache_gc_loop E keep force es (res, c) = Some (r, c') \<and> kept E c c' \<and> bc_sections c' = bc_sections c \<and>
    cache_abs c' = drop_blocks (\<lambda>h x. h \<in> hash ` set es \<and> gc_deletes keep force h x) (cache_abs c)"
  using assms
proof (induction es arbitrary: c res)
  case Nil
  then show ?case using kept_refl [OF Nil.prems(1)] by simp
next
  case (Cons e es)
  obtain d where d: "cache_abs c (hash e) = Some (entry_view e d)"
    using cache_abs_Some [OF Cons.prems(1), of "hash e" e] Cons.prems(3) by auto
  have notin: "hash e \<notin> hash ` set es" "distinct (map hash es)" using Cons.prems(2) by auto
  let ?del = "gc_deletes keep force (hash e) (entry_view e d)"
  show ?case
  proof (cases ?del)
    case False
    then have "\<exists>res'. block_cache_gc_loop E keep force (e # es) (res, c) = block_cache_gc_loop E keep force es (res', c)"
      by (cases "case keep of None \<Rightarrow> False | Some k \<Rightarrow> k (hash e)"; cases "ephemeral_count e = 0")
        (auto simp: gc_deletes_def entry_view_def Let_def word_gt_0)
    then obtain res' where eq: "block_cache_gc_loop E keep force (e # es) (res, c) = block_cache_gc_loop E keep force es (res', c)" by blast
    have "drop_blocks (\<lambda>h x. h \<in> hash ` set (e # es) \<and> gc_deletes keep force h x) (cache_abs c) =
        drop_blocks (\<lambda>h x. h \<in> hash ` set es \<and> gc_deletes keep force h x) (cache_abs c)"
      by (rule drop_blocks_cong) (use False d in auto)
    then show ?thesis using Cons.IH [OF Cons.prems(1) notin(2), of res'] Cons.prems(3) eq by simp
  next
    case True
    obtain c1 where c1: "block_cache_delete_entry E (hash e) (Live (hash e)) c = Some c1" "kept E c c1"
        "cache_abs c1 = (cache_abs c)(hash e := None)" "bc_sections c1 = bc_sections c"
        "index_map (bc_index c1) = (index_map (bc_index c))(hash e := None)"
      using cache_delete_ok [OF Cons.prems(1)] Cons.prems(3) by (metis list.set_intros(1))
    then obtain res' where eq: "block_cache_gc_loop E keep force (e # es) (res, c) = block_cache_gc_loop E keep force es (res', c1)"
      using True by (auto simp: gc_deletes_def entry_view_def Let_def word_gt_0 split: option.splits)
    have "cache_wf E c1" using c1(2) by (simp add: kept_def)
    moreover have "\<forall>x \<in> set es. index_map (bc_index c1) (hash x) = Some x" using Cons.prems(3) notin(1) c1(5) by (auto simp: image_iff)
    ultimately obtain r c' where r: "block_cache_gc_loop E keep force es (res', c1) = Some (r, c')" "kept E c1 c'" "bc_sections c' = bc_sections c1"
        "cache_abs c' = drop_blocks (\<lambda>h x. h \<in> hash ` set es \<and> gc_deletes keep force h x) (cache_abs c1)"
      using Cons.IH [of c1 res'] notin(2) by auto
    have "cache_abs c' = drop_blocks (\<lambda>h x. h \<in> hash ` set (e # es) \<and> gc_deletes keep force h x) (cache_abs c)"
      unfolding r(4) c1(3) drop_blocks_upd by (rule drop_blocks_cong) (use d True in auto)
    then show ?thesis using eq r(1,3) c1(4) kept_trans [OF c1(2) r(2)] by (intro exI [of _ r] exI [of _ c']) simp
  qed
qed

lemma block_cache_handle_gc_ok:
  assumes "cache_wf E c"
  shows "\<exists>r c'. block_cache_handle_gc E keep force c = Some (r, c') \<and> kept E c c' \<and> bc_sections c' = bc_sections c \<and>
    cache_abs c' = drop_blocks (gc_deletes keep force) (cache_abs c)"
proof -
  note wf = cache_wfD(1) [OF assms]
  let ?es = "index_to_array (bc_index c)"
  have "distinct (map hash ?es)" using wf node_wf_distinct by (auto simp: index_wf_def index_to_array_def)
  moreover have "\<forall>e \<in> set ?es. index_map (bc_index c) (hash e) = Some e" using index_map_mem [OF wf] by simp
  moreover have "h \<in> hash ` set ?es" if "cache_abs c h = Some x" for h x
    using cache_abs_SomeD [OF assms that] index_map_mem [OF wf, of h] by force
  then have "drop_blocks (\<lambda>h x. h \<in> hash ` set ?es \<and> gc_deletes keep force h x) (cache_abs c) =
      drop_blocks (gc_deletes keep force) (cache_abs c)"
    by (intro drop_blocks_cong) auto
  ultimately show ?thesis
    using block_cache_gc_loop_ok [OF assms, of ?es keep force] unfolding block_cache_handle_gc_def by auto
qed

text \<open>The end of a group of puts: an aborted group takes its blocks with it.\<close>

lemma put_group_delete_ok:
  assumes "cache_wf E c" and "length h = BLAKE3_OUT_LEN"
  shows "\<exists>c'. put_group_delete E h c = Some c' \<and> kept E c c' \<and> cache_abs c' = (cache_abs c)(h := None) \<and>
    bc_sections c' = bc_sections c \<and> bc_put_groups c' = bc_put_groups c"
proof (cases "index_map (bc_index c) h")
  case None
  then have "(cache_abs c)(h := None) = cache_abs c" using cache_abs_None [OF assms(1)] by (auto simp: fun_upd_idem)
  then show ?thesis
    using None cache_peek_eq [OF assms] kept_refl [OF assms(1)] by (simp add: put_group_delete_def)
next
  case (Some e)
  obtain d where d: "cache_blocks c h = Some d" using cache_abs_Some [OF assms(1) Some] by blast
  define c1 where "c1 = entry_write_metadata (env_deps E) (Live h) (entry_modify (Live h) (\<lambda>e. e\<lparr>pin_count := 0\<rparr>) c)"
  let ?c1 = "if 0 < pin_count e then c1 else c"
  note s = cache_set_ok [OF assms(1) Some d _ _ _ c1_def, where g = "\<lambda>x. x\<lparr>sb_pins := 0\<rparr>"]
  have k: "kept E c ?c1" "bc_sections ?c1 = bc_sections c" "bc_put_groups ?c1 = bc_put_groups c"
    "(cache_abs ?c1)(h := None) = (cache_abs c)(h := None)"
    using s(1-3,5) kept_refl [OF assms(1)] by (auto simp: entry_addr_def entry_view_def)
  obtain e1 where e1: "index_map (bc_index ?c1) h = Some e1"
    using s(4) Some by (cases "0 < pin_count e") (auto simp: entry_addr_def entry_view_def)
  have "cache_wf E ?c1" using k(1) by (simp only: kept_def)
  from cache_delete_ok [OF this e1]
  obtain c' where c': "block_cache_delete_entry E h (Live h) ?c1 = Some c'" "kept E ?c1 c'"
      "cache_abs c' = (cache_abs ?c1)(h := None)" "bc_sections c' = bc_sections ?c1" "bc_put_groups c' = bc_put_groups ?c1" by blast
  have "put_group_delete E h c = Some c'"
    using Some cache_peek_eq [OF assms] c'(1) by (auto simp: put_group_delete_def c1_def Let_def split: if_splits)
  then show ?thesis using kept_trans [OF k(1) c'(2)] c'(3-5) k(2-4) by (intro exI [of _ c']) simp
qed

lemma put_group_delete_all_ok:
  "cache_wf E c \<Longrightarrow> \<forall>h \<in> set hs. length h = BLAKE3_OUT_LEN \<Longrightarrow>
    \<exists>c'. put_group_delete_all E hs c = Some c' \<and> kept E c c' \<and> cache_abs c' = (cache_abs c) |` (- set hs) \<and>
      bc_sections c' = bc_sections c \<and> bc_put_groups c' = bc_put_groups c"
proof (induction hs arbitrary: c)
  case Nil
  then show ?case using kept_refl by (auto simp: restrict_map_def)
next
  case (Cons h hs)
  obtain c1 where c1: "put_group_delete E h c = Some c1" "kept E c c1" "cache_abs c1 = (cache_abs c)(h := None)"
      "bc_sections c1 = bc_sections c" "bc_put_groups c1 = bc_put_groups c"
    using put_group_delete_ok [OF Cons.prems(1), of h] Cons.prems(2) by auto
  have "cache_wf E c1" using c1(2) by (simp add: kept_def)
  then obtain c' where c': "put_group_delete_all E hs c1 = Some c'" "kept E c1 c'" "cache_abs c' = (cache_abs c1) |` (- set hs)"
      "bc_sections c' = bc_sections c1" "bc_put_groups c' = bc_put_groups c1"
    using Cons.IH [of c1] Cons.prems(2) by auto
  have "cache_abs c' = (cache_abs c) |` (- set (h # hs))" using c'(3) c1(3) by (auto simp: restrict_map_def fun_eq_iff)
  then show ?case using c1 c' kept_trans [OF c1(2) c'(2)] by simp
qed

text \<open>The hashes an ending group deletes.\<close>

definition group_hashes :: "u32 \<Rightarrow> bool \<Rightarrow> block_cache_t \<Rightarrow> bytes set" where
  "group_hashes gid abort c =
     (case find (\<lambda>g. pgr_group g = gid) (bc_put_groups c) of
        None \<Rightarrow> {} | Some g \<Rightarrow> if abort \<and> bc_delete_blocks_on_put_failure c then set (pgr_hashes g) else {})"

definition groups_ok :: "block_cache_t \<Rightarrow> bool" where
  "groups_ok c \<longleftrightarrow> (\<forall>g \<in> set (bc_put_groups c). \<forall>h \<in> set (pgr_hashes g). length h = BLAKE3_OUT_LEN)"

lemma put_group_tombstone_fields:
  "kept E c (put_group_tombstone gid c') = kept E c c'" "cache_abs (put_group_tombstone gid c') = cache_abs c'"
  "bc_sections (put_group_tombstone gid c') = bc_sections c'"
  by (simp_all add: put_group_tombstone_def kept_def counted_def bc_type_bytes_def)

lemma put_group_end_ok:
  assumes "cache_wf E c" and "groups_ok c"
  shows "\<exists>c'. put_group_end_dispatch E gid abort c = Some c' \<and> kept E c c' \<and> bc_sections c' = bc_sections c \<and>
    cache_abs c' = (cache_abs c) |` (- group_hashes gid abort c)"
proof (cases "find (\<lambda>g. pgr_group g = gid) (bc_put_groups c)")
  case None
  moreover have "cache_abs c |` UNIV = cache_abs c" by (simp add: restrict_map_def)
  ultimately show ?thesis
    using kept_refl [OF assms(1)] by (simp add: put_group_end_dispatch_def put_group_tombstone_fields group_hashes_def)
next
  case (Some g)
  let ?hs = "if abort \<and> bc_delete_blocks_on_put_failure c then pgr_hashes g else []"
  have "g \<in> set (bc_put_groups c)" using Some by (auto simp: find_Some_iff)
  then have "\<forall>h \<in> set ?hs. length h = BLAKE3_OUT_LEN" using assms(2) by (auto simp: groups_ok_def)
  from put_group_delete_all_ok [OF assms(1) this]
  obtain c' where c': "put_group_delete_all E ?hs c = Some c'" "kept E c c'" "cache_abs c' = (cache_abs c) |` (- set ?hs)"
      "bc_sections c' = bc_sections c" by blast
  have "put_group_end_dispatch E gid abort c = Some (put_group_tombstone gid
      (c'\<lparr>bc_put_groups := remove_first (\<lambda>g. pgr_group g = gid) (bc_put_groups c')\<rparr>))"
    using Some c'(1) by (auto simp: put_group_end_dispatch_def split: if_splits)
  moreover have "kept E c (c'\<lparr>bc_put_groups := x\<rparr>) = kept E c c'" for x by (simp add: kept_def)
  moreover have "group_hashes gid abort c = set ?hs" using Some by (auto simp: group_hashes_def)
  ultimately show ?thesis using c'(2-4) by (simp add: put_group_tombstone_fields)
qed

end
