(* ===== verification/Block_Cache_Lists.thy ===== *)
theory Block_Cache_Lists
  imports Block_Cache_Requests
begin

text \<open>
  The lists the block cache answers with: the claimed blocks, and the offers of a seek. The offers are
  ordered by an exchange sort; it is a permutation into descending rank, so that the cut after
  \<open>max_offers\<close> keeps the highest ranks.
\<close>

section \<open>The exchange sort\<close>

abbreviation entry_rank :: "index_entry_t \<Rightarrow> u32" where
  "entry_rank e \<equiv> fib_level (counter e)"

text \<open>No entry after place \<open>a\<close> and before place \<open>k\<close> has a higher rank than the one at \<open>a\<close>.\<close>

definition leads :: "nat \<Rightarrow> nat \<Rightarrow> index_entry_t list \<Rightarrow> bool" where
  "leads a k es \<longleftrightarrow> (\<forall>b. a < b \<and> b < k \<longrightarrow> entry_rank (es ! b) \<le> entry_rank (es ! a))"

lemma offer_swap_length [simp]: "length (offer_swap i j es) = length es"
  by (simp add: offer_swap_def)

lemma offer_swap_mset: "i < length es \<Longrightarrow> j < length es \<Longrightarrow> mset (offer_swap i j es) = mset es"
  by (simp add: offer_swap_def mset_swap)

lemma offer_swap_leads:
  assumes "i < j" and "j < length es"
  shows "a < i \<Longrightarrow> leads a (length es) es \<Longrightarrow> leads a (length es) (offer_swap i j es)"
    and "leads i j es \<Longrightarrow> leads i (Suc j) (offer_swap i j es)"
  using assms by (auto simp: leads_def offer_swap_def nth_list_update less_Suc_eq intro: order_trans)

lemma offer_inner:
  assumes "i < length es" and "i < k" and "k \<le> length es"
  shows "length (fold (offer_swap i) [i + 1..<k] es) = length es \<and> mset (fold (offer_swap i) [i + 1..<k] es) = mset es \<and>
    (\<forall>a < i. leads a (length es) es \<longrightarrow> leads a (length es) (fold (offer_swap i) [i + 1..<k] es)) \<and>
    leads i k (fold (offer_swap i) [i + 1..<k] es)"
  using assms(2,3)
proof (induction k)
  case (Suc k)
  show ?case
  proof (cases "i = k")
    case False
    let ?es = "fold (offer_swap i) [i + 1..<k] es"
    have IH: "length ?es = length es" "mset ?es = mset es" "\<forall>a < i. leads a (length es) es \<longrightarrow> leads a (length es) ?es" "leads i k ?es"
      using Suc False by auto
    have "fold (offer_swap i) [i + 1..<Suc k] es = offer_swap i k ?es" using False Suc.prems by simp
    then show ?thesis
      using IH offer_swap_mset [of i ?es k] offer_swap_leads [of i k ?es] False Suc.prems assms(1) by simp
  qed (auto simp: leads_def)
qed simp

lemma offer_outer:
  assumes "k \<le> length es"
  shows "length (fold (\<lambda>i. fold (offer_swap i) [i + 1..<length es]) [0..<k] es) = length es \<and>
    mset (fold (\<lambda>i. fold (offer_swap i) [i + 1..<length es]) [0..<k] es) = mset es \<and>
    (\<forall>a < k. leads a (length es) (fold (\<lambda>i. fold (offer_swap i) [i + 1..<length es]) [0..<k] es))"
  using assms
proof (induction k)
  case (Suc k)
  let ?es = "fold (\<lambda>i. fold (offer_swap i) [i + 1..<length es]) [0..<k] es"
  have IH: "length ?es = length es" "mset ?es = mset es" "\<forall>a < k. leads a (length es) ?es" using Suc by auto
  then show ?case using offer_inner [of k ?es "length es"] Suc.prems by (auto simp: less_Suc_eq)
qed simp

lemma offer_sort_mset [simp]: "mset (offer_sort es) = mset es"
  using offer_outer [of "length es" es] by (simp add: offer_sort_def)

lemma offer_sort_sorted: "sorted_wrt (\<lambda>x y. entry_rank y \<le> entry_rank x) (offer_sort es)"
  using offer_outer [of "length es" es] by (auto simp: offer_sort_def sorted_wrt_iff_nth_less leads_def)

lemma offer_sort_set [simp]: "set (offer_sort es) = set es"
  by (rule mset_eq_setD) simp

lemma offer_sort_length [simp]: "length (offer_sort es) = length es"
  by (rule mset_eq_length) simp

text \<open>The first \<open>k\<close> of the sorted offers.\<close>

lemma offers_top:
  fixes k :: nat and es :: "index_entry_t list"
  assumes "distinct (map hash es)"
  defines "f \<equiv> \<lambda>e. (hash e, entry_rank e)"
  defines "l \<equiv> map f (take k (offer_sort es))"
  shows "distinct (map fst l)" and "set l \<subseteq> f ` set es" and "sorted_wrt (\<lambda>x y. snd y \<le> snd x) l"
    and "length l = min k (card (f ` set es))" and "x \<in> f ` set es - set l \<Longrightarrow> y \<in> set l \<Longrightarrow> snd x \<le> snd y"
proof -
  have "mset (map hash (offer_sort es)) = mset (map hash es)" by simp
  then have "distinct (map hash (offer_sort es))" using assms(1) mset_eq_imp_distinct_iff by blast
  then have "distinct (take k (map hash (offer_sort es)))" by (rule distinct_take)
  then show "distinct (map fst l)" by (simp add: l_def f_def comp_def take_map)
  show "set l \<subseteq> f ` set es" using set_take_subset [of k "offer_sort es"] by (auto simp: l_def)
  show "sorted_wrt (\<lambda>x y. snd y \<le> snd x) l"
    using sorted_wrt_take [OF offer_sort_sorted, of k es] by (simp add: l_def f_def sorted_wrt_map)
  have "inj_on f (set es)" using assms(1) by (auto simp: inj_on_def distinct_map f_def)
  moreover have "card (set es) = length es" using assms(1) by (simp add: distinct_map distinct_card)
  ultimately show "length l = min k (card (f ` set es))" by (simp add: l_def card_image)
  assume x: "x \<in> f ` set es - set l" and y: "y \<in> set l"
  obtain a where a: "x = f a" "a \<in> set (offer_sort es)" using x by auto
  have "set (offer_sort es) = set (take k (offer_sort es)) \<union> set (drop k (offer_sort es))"
    using set_append [of "take k (offer_sort es)" "drop k (offer_sort es)"] by simp
  then have "a \<in> set (drop k (offer_sort es))" using x a by (auto simp: l_def)
  moreover obtain b where "y = f b" "b \<in> set (take k (offer_sort es))" using y by (auto simp: l_def)
  moreover have "sorted_wrt (\<lambda>x y. entry_rank y \<le> entry_rank x) (take k (offer_sort es) @ drop k (offer_sort es))"
    using offer_sort_sorted by simp
  ultimately show "snd x \<le> snd y" using a(1) unfolding sorted_wrt_append by (simp add: f_def)
qed

section \<open>The lists\<close>

text \<open>The offers a seek may get.\<close>

definition servable :: "bytes list \<Rightarrow> (bytes \<Rightarrow> stored_block option) \<Rightarrow> (bytes \<times> u32) set" where
  "servable exclude m = {(h, sb_rank x) | h x. m h = Some x \<and> sb_claims x = 0 \<and> h \<notin> set exclude}"

lemma cache_abs_array:
  assumes "cache_wf E c"
  shows "cache_abs c h = Some x \<longleftrightarrow> (\<exists>e \<in> set (index_to_array (bc_index c)). hash e = h \<and> cache_blocks c h = Some (sb_data x) \<and>
    x = entry_view e (sb_data x))"
proof -
  note mem = index_map_mem [OF cache_wfD(1) [OF assms], of h]
  show ?thesis
  proof
    assume "cache_abs c h = Some x"
    then show "\<exists>e \<in> set (index_to_array (bc_index c)). hash e = h \<and> cache_blocks c h = Some (sb_data x) \<and> x = entry_view e (sb_data x)"
      using cache_abs_SomeD [OF assms] mem by blast
  next
    assume "\<exists>e \<in> set (index_to_array (bc_index c)). hash e = h \<and> cache_blocks c h = Some (sb_data x) \<and> x = entry_view e (sb_data x)"
    then obtain e where e: "index_map (bc_index c) h = Some e" "cache_blocks c h = Some (sb_data x)" "x = entry_view e (sb_data x)"
      using mem by blast
    then show "cache_abs c h = Some x" by (simp add: cache_abs_def)
  qed
qed

lemma array_view:
  assumes "cache_wf E c" and "e \<in> set (index_to_array (bc_index c))"
  shows "\<exists>d. cache_abs c (hash e) = Some (entry_view e d)"
  using assms index_map_mem [OF cache_wfD(1) [OF assms(1)], of "hash e" e] cache_abs_Some [OF assms(1)] by blast

lemma array_image:
  assumes "cache_wf E c" and "\<And>e d. P (hash e) (entry_view e d) = Q e" and "\<And>e d. f (hash e) (entry_view e d) = g e"
  shows "g ` {e \<in> set (index_to_array (bc_index c)). Q e} = {f h x | h x. cache_abs c h = Some x \<and> P h x}"
proof (intro equalityI subsetI)
  fix y assume "y \<in> g ` {e \<in> set (index_to_array (bc_index c)). Q e}"
  then obtain e where e: "e \<in> set (index_to_array (bc_index c))" "Q e" "y = g e" by blast
  obtain d where "cache_abs c (hash e) = Some (entry_view e d)" using array_view [OF assms(1) e(1)] by blast
  then show "y \<in> {f h x | h x. cache_abs c h = Some x \<and> P h x}" using assms(2) [of e d] assms(3) [of e d] e(2,3)
    by (intro CollectI exI [of _ "hash e"] exI [of _ "entry_view e d"]) simp
next
  fix y assume "y \<in> {f h x | h x. cache_abs c h = Some x \<and> P h x}"
  then obtain h x where x: "y = f h x" "cache_abs c h = Some x" "P h x" by blast
  obtain e where "e \<in> set (index_to_array (bc_index c))" "hash e = h" "x = entry_view e (sb_data x)"
    using cache_abs_array [OF assms(1)] x(2) by blast
  then show "y \<in> g ` {e \<in> set (index_to_array (bc_index c)). Q e}" using assms(2,3) x(1,3) by (metis (mono_tags, lifting) imageI mem_Collect_eq)
qed

lemma block_cache_list_ephemeral_set:
  assumes "cache_wf E c"
  shows "set (block_cache_list_ephemeral c) = {(h, sb_claims x, sb_pins x) | h x. cache_abs c h = Some x \<and> 0 < sb_claims x}"
  unfolding block_cache_list_ephemeral_def set_map set_filter
  by (rule array_image [OF assms]) (simp_all add: entry_view_def)

lemma servable_array:
  assumes "cache_wf E c"
  shows "(\<lambda>e. (hash e, entry_rank e)) ` {e \<in> set (index_to_array (bc_index c)). index_entry_is_servable (Some e) \<and> hash e \<notin> set exclude} =
    servable exclude (cache_abs c)"
  unfolding servable_def
  by (rule array_image [OF assms]) (simp_all add: entry_view_def index_entry_is_servable_def)

lemma list_servable_subset:
  assumes "cache_wf E c"
  shows "set (block_cache_list_servable k exclude c) \<subseteq> servable exclude (cache_abs c)"
proof -
  let ?es = "filter (\<lambda>e. index_entry_is_servable (Some e) \<and> hash e \<notin> set exclude) (index_to_array (bc_index c))"
  have "set (take k (offer_sort ?es)) \<subseteq> set ?es" using set_take_subset [of k "offer_sort ?es"] by simp
  then show ?thesis using servable_array [OF assms, of exclude] by (auto simp: block_cache_list_servable_def)
qed

end
