(* ===== verification/Block_Cache_Spec.thy ===== *)
theory Block_Cache_Spec
  imports Block_Cache_Lists
begin

text \<open>
  The block cache as its clients see it: the requests that move blocks or write the index leave the
  abstract cache alone, \<open>cache_spec\<close> says what every request may do to it, and the dispatch of the actor
  refines this specification. The capacity, the fate of claimed and pinned blocks, the two halves of an
  asynchronous get and the end of a group of puts are consequences over sequences of requests.
\<close>

section \<open>Defragmentation and snapshots\<close>

declare entry_modify.simps(1) [simp del]

lemma map_of_relocations:
  "map_of (map (\<lambda>(sid, i, j). ((sid, i), j)) rs) (s, k) = map_option (\<lambda>(_, _, j). j) (find (\<lambda>(sid, i, j). s = sid \<and> k = i) rs)"
  by (induction rs) auto

lemma entry_relocate_same [simp]:
  "hash (entry_relocate rs e) = hash e" "section_id (entry_relocate rs e) = section_id e"
  "entry_view (entry_relocate rs e) d = entry_view e d"
  by (auto simp: entry_relocate_def entry_view_def split: option.split)

lemma entry_relocate_addr:
  assumes "sections_wf S" and "sections_blocks S (relocate rs (entry_addr e)) = Some d"
  shows "entry_addr (entry_relocate rs e) = relocate rs (entry_addr e)"
proof -
  have "unat (of_nat j :: u64) = j" if "relocate rs (entry_addr e) = (unat (section_id e), j)" for j
    using block_index_fits [OF assms(1)] assms(2) that by metis
  then show ?thesis
    by (auto simp: entry_relocate_def relocate_def entry_addr_def map_of_relocations split: option.splits)
qed

text \<open>The cache after its blocks have moved and its entries have followed.\<close>

lemma cache_wf_moved:
  assumes "cache_wf E c" and "sections_wf S" "sx_bytes S = sx_bytes (bc_sections c)" "moved_to rs (bc_sections c) S"
    and "index_wf ix" "\<And>h. index_map ix h = map_option (entry_relocate rs) (index_map (bc_index c) h)"
  shows "cache_wf E (c\<lparr>bc_sections := S, bc_index := ix\<rparr>)"
    and "cache_abs (c\<lparr>bc_sections := S, bc_index := ix\<rparr>) = cache_abs c"
proof -
  note wf = cache_wfD [OF assms(1)]
  have move: "sections_blocks S (entry_addr (entry_relocate rs e)) = Some d"
    if "sections_blocks (bc_sections c) (entry_addr e) = Some d" for e d
  proof -
    have "sections_blocks S (relocate rs (entry_addr e)) = Some d" using that assms(4) unfolding moved_to_def by blast
    then show ?thesis using entry_relocate_addr [OF assms(2)] by simp
  qed
  have ty: "sx_type S = bc_type c"
    using assms(2,3) wf(2,3) block_size_bytes_inj
    by (metis pool_wfD(1) sections_wf_def)
  have "entries_stored (env_blake E) ix S" using wf(5) move by (fastforce simp: entries_stored_def assms(6))
  moreover have "lru_stored ix S (bc_lru c)" using wf(6) move by (fastforce simp: lru_stored_def assms(6))
  ultimately show "cache_wf E (c\<lparr>bc_sections := S, bc_index := ix\<rparr>)"
    using assms(2,5) wf(4) ty by (simp add: cache_wf_def)
  show "cache_abs (c\<lparr>bc_sections := S, bc_index := ix\<rparr>) = cache_abs c"
  proof
    fix h
    show "cache_abs (c\<lparr>bc_sections := S, bc_index := ix\<rparr>) h = cache_abs c h"
      using wf(5) [of h] move by (cases "index_map (bc_index c) h") (auto simp: cache_abs_def cache_blocks_def assms(6))
  qed
qed

lemma entry_modify_fold:
  assumes "\<And>e. hash (f e) = hash e"
  shows "index_wf (bc_index c) \<Longrightarrow> distinct (map hash es) \<Longrightarrow>
    \<exists>ix. fold (\<lambda>e. entry_modify (Live (hash e)) f) es c = c\<lparr>bc_index := ix\<rparr> \<and> index_wf ix \<and>
      index_count ix = index_count (bc_index c) \<and>
      (\<forall>h. index_map ix h = map_option (if h \<in> hash ` set es then f else id) (index_map (bc_index c) h))"
proof (induction es arbitrary: c)
  case Nil
  then show ?case by (intro exI [of _ "bc_index c"]) (simp add: option.map_ident)
next
  case (Cons e es)
  let ?ix = "(bc_index c)\<lparr>root := index_node_update (hash e) f (root (bc_index c))\<rparr>"
  have wf: "index_wf (bc_index (c\<lparr>bc_index := ?ix\<rparr>))" using Cons.prems(1) assms by (simp add: index_update_wf)
  obtain ix where ix: "fold (\<lambda>e. entry_modify (Live (hash e)) f) es (c\<lparr>bc_index := ?ix\<rparr>) = c\<lparr>bc_index := ix\<rparr>"
      "index_wf ix" "index_count ix = index_count ?ix"
      "\<forall>h. index_map ix h = map_option (if h \<in> hash ` set es then f else id) (index_map ?ix h)"
    using Cons.IH [OF wf] Cons.prems(2) by auto
  have step: "entry_modify (Live (hash e)) f c = c\<lparr>bc_index := ?ix\<rparr>" by (simp add: entry_modify.simps)
  show ?case
  proof (intro exI [of _ ix] conjI)
    show "\<forall>h. index_map ix h = map_option (if h \<in> hash ` set (e # es) then f else id) (index_map (bc_index c) h)"
      using Cons.prems(2) by (auto simp: ix(4) index_map_update assms option.map_id)
  qed (use ix in \<open>simp_all add: index_count_root step\<close>)
qed

lemma index_debounce_keeps:
  assumes "libcbor (dep_cbor D) cv" and "index_wf ix"
  shows "\<exists>ix'. index_debounce D written ix = Some ix' \<and> root ix' = root ix \<and> bucket_size ix' = bucket_size ix"
  using index_to_cbor_defined [OF assms]
  by (auto simp: index_debounce_def index_prune_def index_prune_old_snapshots_def index_prune_old_wals_def Let_def
      split: option.split)

lemma index_same_root:
  assumes "root ix' = root ix" and "bucket_size ix' = bucket_size ix"
  shows "index_wf ix' = index_wf ix" and "index_map ix' = index_map ix" and "index_count ix' = index_count ix"
  using assms by (simp_all add: index_wf_def index_map_def index_count_def fun_eq_iff)

lemma index_save_ok:
  assumes "cache_wf E c" and "env_ok E cv"
  shows "\<exists>ix. index_debounce (env_deps E) written (bc_index c) = Some ix \<and> kept E c (c\<lparr>bc_index := ix\<rparr>) \<and>
    cache_abs (c\<lparr>bc_index := ix\<rparr>) = cache_abs c"
proof -
  obtain ix where ix: "index_debounce (env_deps E) written (bc_index c) = Some ix" "root ix = root (bc_index c)"
      "bucket_size ix = bucket_size (bc_index c)"
    using index_debounce_keeps [OF env_okD(4) [OF assms(2)] cache_wfD(1) [OF assms(1)]] by blast
  note same = index_same_root [OF ix(2,3)]
  have wf: "cache_wf E (c\<lparr>bc_index := ix\<rparr>)" "cache_blocks (c\<lparr>bc_index := ix\<rparr>) = cache_blocks c"
    using cache_wf_index [OF assms(1), of ix] cache_wfD(1) [OF assms(1)] same by (simp_all add: same_places_def)
  moreover have "cache_abs (c\<lparr>bc_index := ix\<rparr>) = cache_abs c"
    using wf(2) same(2) by (intro cache_abs_same) simp_all
  moreover have "counted c (c\<lparr>bc_index := ix\<rparr>)" using same(3) by (intro counted_same) simp_all
  ultimately show ?thesis using ix(1) same(3) by (auto simp: kept_def)
qed

lemma block_cache_handle_defragment_ok:
  assumes "cache_wf E c" and "env_ok E cv" and "distinct order"
  shows "\<exists>n k c'. block_cache_handle_defragment E dense order written c = Some ((n, k), c') \<and> kept E c c' \<and>
    cache_abs c' = cache_abs c"
proof -
  note wf = cache_wfD [OF assms(1)]
  obtain n rs S where S: "sections_defragment (env_io E) dense order (bc_sections c) = (n, rs, S)" "sections_wf S"
      "sx_bytes S = sx_bytes (bc_sections c)" "moved_to rs (bc_sections c) S"
    using sections_defragment_ok [OF wf(2) env_okD(2) [OF assms(2)] assms(3)] by blast
  let ?c1 = "c\<lparr>bc_sections := S\<rparr>" and ?es = "index_to_array (bc_index c)"
  have "distinct (map hash ?es)" using wf(1) node_wf_distinct by (auto simp: index_wf_def index_to_array_def)
  with entry_modify_fold [of "entry_relocate rs" ?c1 ?es] wf(1)
  obtain ix where ix: "fold (\<lambda>e. entry_modify (Live (hash e)) (entry_relocate rs)) ?es ?c1 = ?c1\<lparr>bc_index := ix\<rparr>"
      "index_wf ix" "index_count ix = index_count (bc_index c)"
      "\<forall>h. index_map ix h = map_option (if h \<in> hash ` set ?es then entry_relocate rs else id) (index_map (bc_index c) h)"
    by auto
  have map: "index_map ix h = map_option (entry_relocate rs) (index_map (bc_index c) h)" for h
    using index_map_mem [OF wf(1), of h] by (cases "index_map (bc_index c) h") (force simp: ix(4))+
  note moved = cache_wf_moved [OF assms(1) S(2,3,4) ix(2) map]
  have k: "kept E c (?c1\<lparr>bc_index := ix\<rparr>)" using moved(1) ix(3) by (auto simp: kept_def intro: counted_same)
  show ?thesis
  proof (cases "rs = []")
    case True
    have "entry_relocate [] = (\<lambda>e. e)" by (simp add: entry_relocate_def fun_eq_iff)
    then have "cache_wf E ?c1" "cache_abs ?c1 = cache_abs c"
      using cache_wf_moved [OF assms(1) S(2,3,4) wf(1)] True by (simp_all add: option.map_ident)
    then show ?thesis using True S(1) by (auto simp: block_cache_handle_defragment_def kept_def)
  next
    case False
    from index_save_ok [OF moved(1) assms(2), of written]
    obtain ix' where "index_debounce (env_deps E) written ix = Some ix'" "kept E (?c1\<lparr>bc_index := ix\<rparr>) (?c1\<lparr>bc_index := ix'\<rparr>)"
        "cache_abs (?c1\<lparr>bc_index := ix'\<rparr>) = cache_abs c" using moved(2) by auto
    then show ?thesis using False S(1) ix(1) kept_trans [OF k] by (auto simp: block_cache_handle_defragment_def Let_def)
  qed
qed

section \<open>Resizing\<close>

lemma sections_set_max_bytes_keeps:
  "sections_wf (sections_set_max_bytes n S) = sections_wf S" "sections_blocks (sections_set_max_bytes n S) = sections_blocks S"
  "sx_bytes (sections_set_max_bytes n S) = sx_bytes S"
proof -
  have st: "stored (S\<lparr>sx_max_bytes := n\<rparr>) = stored S" by (simp add: stored_def fun_eq_iff split: option.split)
  have cw: "cached_wf (S\<lparr>sx_max_bytes := n\<rparr>) = cached_wf S" by (simp add: cached_wf_def fun_eq_iff)
  show "sections_wf (sections_set_max_bytes n S) = sections_wf S"
    by (simp add: sections_set_max_bytes_def sections_wf_def pool_wf_def robin_ok_def has_room_def st cw)
  show "sections_blocks (sections_set_max_bytes n S) = sections_blocks S" "sx_bytes (sections_set_max_bytes n S) = sx_bytes S"
    by (simp_all add: sections_set_max_bytes_def sections_blocks_def st fun_eq_iff)
qed

text \<open>The counters are exact.\<close>

definition counters_exact :: "block_cache_t \<Rightarrow> bool" where
  "counters_exact c \<longleftrightarrow> bc_entry_count c = of_nat (cache_count c) \<and>
     bc_current_bytes c = of_nat (cache_count c) * bc_type_bytes c"

lemma block_cache_set_max_capacity_ok:
  assumes "cache_wf E c"
  shows "cache_wf E (block_cache_set_max_capacity cap c)" and "cache_abs (block_cache_set_max_capacity cap c) = cache_abs c"
    and "0 < cap \<Longrightarrow> counters_exact (block_cache_set_max_capacity cap c)"
proof -
  let ?S = "sections_set_max_bytes (unat cap) (bc_sections c)"
  have S: "sections_wf ?S" "sections_blocks ?S = sections_blocks (bc_sections c)" "sx_bytes ?S = sx_bytes (bc_sections c)"
    using cache_wfD(2) [OF assms] by (simp_all add: sections_set_max_bytes_keeps)
  have wf: "cache_wf E (c\<lparr>bc_sections := ?S\<rparr>)" "cache_blocks (c\<lparr>bc_sections := ?S\<rparr>) = cache_blocks c"
    using cache_wf_sections [OF assms S(1,3)] S(2) by simp_all
  have "cache_abs (c\<lparr>bc_sections := ?S\<rparr>) = cache_abs c" using wf(2) by (intro cache_abs_same) simp_all
  then show "cache_wf E (block_cache_set_max_capacity cap c)" "cache_abs (block_cache_set_max_capacity cap c) = cache_abs c"
    using wf(1) by (simp_all add: block_cache_set_max_capacity_def Let_def)
  show "0 < cap \<Longrightarrow> counters_exact (block_cache_set_max_capacity cap c)"
    by (simp add: block_cache_set_max_capacity_def counters_exact_def bc_type_bytes_def Let_def)
qed

section \<open>Answers of the sections actor\<close>

lemma remove_first_find:
  assumes "find P xs = Some p"
  shows "filter P (p # remove_first P xs) = filter P xs" and "filter (\<lambda>x. \<not> P x) (p # remove_first P xs) = filter (\<lambda>x. \<not> P x) xs"
    and "set (p # remove_first P xs) = set xs"
proof -
  have "P p" using assms by (auto simp: find_Some_iff)
  then show "filter P (p # remove_first P xs) = filter P xs" "filter (\<lambda>x. \<not> P x) (p # remove_first P xs) = filter (\<lambda>x. \<not> P x) xs"
    "set (p # remove_first P xs) = set xs"
    using assms by (induction xs) (auto split: if_splits)
qed

text \<open>A read that comes back in time: the requests that wait for it still have their entries, and its data
  are those of the place it was read from and not yet in the LRU.\<close>

definition read_result_ok :: "block_cache_t \<Rightarrow> nat \<Rightarrow> nat \<Rightarrow> bytes option \<Rightarrow> bool" where
  "read_result_ok c sid i data \<longleftrightarrow>
     (\<forall>p \<in> set (bc_pending_gets c). pending_matches c sid i p \<longrightarrow> pg_entry p = Live (pg_hash p) \<and>
        (\<forall>d. data = Some d \<longrightarrow> sections_blocks (bc_sections c) (sid, i) = Some d \<and> lru_values (bc_lru c) (pg_hash p) = None))"

definition get_answer :: "(bytes \<Rightarrow> stored_block option) \<Rightarrow> block_t option \<Rightarrow> pending_get_t \<Rightarrow> cache_out" where
  "get_answer m b p =
     CACHE_GET_RESULT (pg_reply_to p) (pg_hash p) b (sb_rank (the (m (pg_hash p)))) True (0 < sb_claims (the (m (pg_hash p)))) False"

lemma pending_matches_Live:
  assumes "cache_wf E c" and "pending_matches c sid i p" and "pg_entry p = Live (pg_hash p)"
  shows "\<exists>e d. index_map (bc_index c) (pg_hash p) = Some e \<and> entry_addr e = (sid, i) \<and>
    sections_blocks (bc_sections c) (sid, i) = Some d \<and> env_blake E d = pg_hash p \<and> cache_abs c (pg_hash p) = Some (entry_view e d)"
proof -
  obtain e where e: "index_map (bc_index c) (pg_hash p) = Some e" "entry_addr e = (sid, i)"
    using assms(2,3) by (auto simp: pending_matches_def entry_addr_def split: option.splits)
  then show ?thesis using cache_abs_Some [OF assms(1) e(1)] by auto
qed

lemma resolve_pending_gets_eq:
  assumes "cache_wf E c" and "\<forall>p \<in> set (bc_pending_gets c). pending_matches c sid i p \<longrightarrow> pg_entry p = Live (pg_hash p)"
  shows "block_cache_resolve_pending_gets sid i b c =
    (map (get_answer (cache_abs c) b) (filter (pending_matches c sid i) (bc_pending_gets c)),
     c\<lparr>bc_pending_gets := filter (\<lambda>p. \<not> pending_matches c sid i p) (bc_pending_gets c)\<rparr>)"
proof -
  have "(case entry_at c (pg_entry p) of
         None \<Rightarrow> CACHE_GET_RESULT (pg_reply_to p) (pg_hash p) b 0 True False False
       | Some e \<Rightarrow> CACHE_GET_RESULT (pg_reply_to p) (pg_hash p) b (fib_level (counter e)) True (0 < ephemeral_count e) False) =
      get_answer (cache_abs c) b p" if "p \<in> set (bc_pending_gets c)" "pending_matches c sid i p" for p
    using pending_matches_Live [OF assms(1) that(2)] assms(2) that by (auto simp: get_answer_def entry_view_def)
  then show ?thesis by (simp add: block_cache_resolve_pending_gets_def)
qed

lemma pending_matches_same:
  assumes "same_entries (bc_index c) (bc_index c')" and "bc_dead c' = bc_dead c"
  shows "pending_matches c' sid i p = pending_matches c sid i p"
proof (cases "pg_entry p")
  case (Live h)
  then show ?thesis
    using same_entries_None [OF assms(1), of h] same_entries_Some [OF assms(1), of h]
    by (cases "index_map (bc_index c) h") (auto simp: pending_matches_def)
qed (simp add: pending_matches_def assms(2))

text \<open>The block that was read goes to the LRU.\<close>

lemma read_result_lru_put:
  assumes "cache_wf E c" and "env_ok E cv" and "pending_matches c sid i p" "pg_entry p = Live (pg_hash p)"
    and "sections_blocks (bc_sections c) (sid, i) = Some d" and "lru_values (bc_lru c) (pg_hash p) = None"
    and "b = \<lparr>block_data = bytes_buffer d, block_hash = bytes_buffer (pg_hash p)\<rparr>"
  shows "Option.bind (entry_at c (pg_entry p)) (\<lambda>e. block_cache_checked (env_blake E) (Some d) (hash e)) = Some b"
    and "\<exists>c'. block_cache_lru_put (env_deps E) now b (pg_entry p) (c\<lparr>bc_pending_gets := ps\<rparr>) = Some c' \<and> kept E c c' \<and>
      cache_abs c' = cache_abs c \<and> same_entries (bc_index c) (bc_index c') \<and> bc_dead c' = bc_dead c \<and> bc_pending_gets c' = ps"
proof -
  obtain e where e: "index_map (bc_index c) (pg_hash p) = Some e" "entry_addr e = (sid, i)" "env_blake E d = pg_hash p"
    using pending_matches_Live [OF assms(1,3,4)] assms(5) by auto
  have len: "length d = block_size_bytes (bc_type c)"
    using sections_blocks_length [OF cache_wfD(2) [OF assms(1)] assms(5)] cache_wfD(3) [OF assms(1)] by simp
  show "Option.bind (entry_at c (pg_entry p)) (\<lambda>e. block_cache_checked (env_blake E) (Some d) (hash e)) = Some b"
    using e block_cache_checked_ok [OF assms(2) len e(3)] index_map_hash [OF e(1)] by (simp add: assms(4,7))
  let ?c = "c\<lparr>bc_pending_gets := ps\<rparr>"
  have "cache_wf E ?c" using assms(1) by simp
  from block_cache_lru_put_ok [OF this, of "pg_hash p" b e "env_deps E" now]
  obtain c' where c': "block_cache_lru_put (env_deps E) now b (Live (pg_hash p)) ?c = Some c'" "cache_wf E c'"
      "cache_blocks c' = cache_blocks c" "same_entries (bc_index c) (bc_index c')" "counted c c'"
      "bc_pending_gets c' = ps" "bc_dead c' = bc_dead c"
    using e assms(5,6,7) by auto
  then show "\<exists>c'. block_cache_lru_put (env_deps E) now b (pg_entry p) ?c = Some c' \<and> kept E c c' \<and>
      cache_abs c' = cache_abs c \<and> same_entries (bc_index c) (bc_index c') \<and> bc_dead c' = bc_dead c \<and> bc_pending_gets c' = ps"
    using cache_abs_cong [OF c'(3,4)] by (auto simp: kept_def assms(4) same_entries_def)
qed

text \<open>Every request that waits for the read is answered, with the block if there is one.\<close>

definition read_answers :: "block_cache_t \<Rightarrow> nat \<Rightarrow> nat \<Rightarrow> bytes option \<Rightarrow> cache_out list \<Rightarrow> bool" where
  "read_answers c sid i data out \<longleftrightarrow>
     (\<exists>b. out = map (get_answer (cache_abs c) b) (filter (pending_matches c sid i) (bc_pending_gets c)) \<and>
       (case data of
          None \<Rightarrow> b = None
        | Some d \<Rightarrow> \<forall>p \<in> set (bc_pending_gets c). pending_matches c sid i p \<longrightarrow>
            (\<exists>blk. b = Some blk \<and> buffer_bytes (block_data blk) = d \<and> buffer_bytes (block_hash blk) = pg_hash p)))"

lemma block_cache_handle_read_result_ok:
  assumes "cache_wf E c" and "env_ok E cv" and "read_result_ok c sid i data"
  shows "\<exists>out c'. block_cache_handle_read_result E now sid i data c = Some (out, c') \<and> kept E c c' \<and>
    cache_abs c' = cache_abs c \<and> read_answers c sid i data out \<and>
    bc_pending_gets c' = filter (\<lambda>p. \<not> pending_matches c sid i p) (bc_pending_gets c)"
proof (cases "if data = None then None else find (pending_matches c sid i) (bc_pending_gets c)")
  case None
  let ?c' = "c\<lparr>bc_pending_gets := filter (\<lambda>p. \<not> pending_matches c sid i p) (bc_pending_gets c)\<rparr>"
  have "block_cache_handle_read_result E now sid i data c =
      Some (map (get_answer (cache_abs c) None) (filter (pending_matches c sid i) (bc_pending_gets c)), ?c')"
    using None resolve_pending_gets_eq [OF assms(1), of sid i None] assms(3)
    by (auto simp: block_cache_handle_read_result_def read_result_ok_def)
  moreover have "read_answers c sid i data (map (get_answer (cache_abs c) None) (filter (pending_matches c sid i) (bc_pending_gets c)))"
    using None by (auto simp: read_answers_def find_None_iff split: option.split if_splits)
  moreover have "kept E c ?c'" using kept_refl [OF assms(1)] by (simp add: kept_def)
  ultimately show ?thesis by simp
next
  case (Some p)
  then obtain d where d: "data = Some d" and p: "find (pending_matches c sid i) (bc_pending_gets c) = Some p"
    by (cases data) auto
  have pm: "p \<in> set (bc_pending_gets c)" "pending_matches c sid i p" using p by (auto simp: find_Some_iff)
  have ok: "pg_entry p = Live (pg_hash p)" "sections_blocks (bc_sections c) (sid, i) = Some d" "lru_values (bc_lru c) (pg_hash p) = None"
    using assms(3) pm d by (auto simp: read_result_ok_def)
  let ?b = "\<lparr>block_data = bytes_buffer d, block_hash = bytes_buffer (pg_hash p)\<rparr>"
  let ?ps = "remove_first (pending_matches c sid i) (bc_pending_gets c)"
  note put = read_result_lru_put [OF assms(1,2) pm(2) ok refl]
  obtain c2 where c2: "block_cache_lru_put (env_deps E) now ?b (pg_entry p) (c\<lparr>bc_pending_gets := ?ps\<rparr>) = Some c2" "kept E c c2"
      "cache_abs c2 = cache_abs c" "same_entries (bc_index c) (bc_index c2)" "bc_dead c2 = bc_dead c" "bc_pending_gets c2 = ?ps"
    using put(2) by blast
  let ?c3 = "c2\<lparr>bc_pending_gets := p # ?ps\<rparr>"
  have m: "pending_matches ?c3 sid i = pending_matches c sid i"
    using pending_matches_same [of c ?c3] c2(4,5) by (simp add: fun_eq_iff)
  note rf = remove_first_find [OF p]
  have live: "\<forall>q \<in> set (bc_pending_gets ?c3). pending_matches ?c3 sid i q \<longrightarrow> pg_entry q = Live (pg_hash q)"
    using assms(3) rf(3) by (auto simp: m read_result_ok_def)
  have wf3: "cache_wf E ?c3" using c2(2) by (simp add: kept_def)
  have "block_cache_handle_read_result E now sid i data c =
      Some (map (get_answer (cache_abs c) (Some ?b)) (filter (pending_matches c sid i) (bc_pending_gets c)),
        ?c3\<lparr>bc_pending_gets := filter (\<lambda>p. \<not> pending_matches c sid i p) (bc_pending_gets c)\<rparr>)"
    using p d put(1) c2(1) resolve_pending_gets_eq [OF wf3 live, of "Some ?b"] rf(1,2)
    by (simp add: block_cache_handle_read_result_def m c2(3,6) Let_def)
  moreover have "pg_hash q = pg_hash p" if "q \<in> set (bc_pending_gets c)" "pending_matches c sid i q" for q
  proof -
    have "pg_entry q = Live (pg_hash q)" using assms(3) that by (auto simp: read_result_ok_def)
    then show ?thesis using pending_matches_Live [OF assms(1) that(2)] pending_matches_Live [OF assms(1) pm(2) ok(1)] by auto
  qed
  then have "read_answers c sid i data (map (get_answer (cache_abs c) (Some ?b)) (filter (pending_matches c sid i) (bc_pending_gets c)))"
    using d by (auto simp: read_answers_def)
  ultimately show ?thesis using c2(2,3) by (simp add: kept_def)
qed

section \<open>The specification of the actor\<close>

type_synonym acache = "bytes \<Rightarrow> stored_block option"

text \<open>What a request needs: blocks and hashes of the right size, no section defragmented twice, reads that
  come back in time.\<close>

fun cache_request_ok :: "('i, 'm) cache_env_scheme \<Rightarrow> block_cache_t \<Rightarrow> cache_msg \<Rightarrow> bool" where
  "cache_request_ok E c (CACHE_PUT now b rank acquire gid) = cache_block E (bc_type c) b"
| "cache_request_ok E c (CACHE_GET now h no_data peer_serve reply_to) = (length h = BLAKE3_OUT_LEN)"
| "cache_request_ok E c (CACHE_REMOVE h force) = (length h = BLAKE3_OUT_LEN)"
| "cache_request_ok E c (CACHE_SECTIONS_READ_RESULT now sid i data) = read_result_ok c sid i data"
| "cache_request_ok E c (CACHE_DEFRAGMENT dense order written) = distinct order"
| "cache_request_ok E c (CACHE_EPHEMERAL h op) = (length h = BLAKE3_OUT_LEN)"
| "cache_request_ok E c (CACHE_PIN h) = (length h = BLAKE3_OUT_LEN)"
| "cache_request_ok E c (CACHE_UNPIN h) = (length h = BLAKE3_OUT_LEN)"
| "cache_request_ok E c _ = True"

text \<open>What a request does to the abstract cache and what it answers. A put may be refused, and an aborted
  group takes some blocks with it; both are nondeterministic here.\<close>

fun cache_spec :: "cache_msg \<Rightarrow> acache \<Rightarrow> cache_reply \<Rightarrow> acache \<Rightarrow> bool" where
  "cache_spec (CACHE_PUT now b rank acquire gid) m r m' = (\<exists>x. r = CACHE_PUT_REPLY x \<and> put_spec b rank acquire m x m')"
| "cache_spec (CACHE_PUT_GROUP_END gid abort) m r m' = (r = CACHE_NO_REPLY \<and> (\<exists>H. m' = m |` (- H) \<and> (\<not> abort \<longrightarrow> H = {})))"
| "cache_spec (CACHE_RESIZE cap) m r m' = ((\<exists>n. r = CACHE_RESIZE_REPLY cap n) \<and> m' = m)"
| "cache_spec (CACHE_GC keep force) m r m' = ((\<exists>x. r = CACHE_GC_REPLY x) \<and> m' = drop_blocks (gc_deletes keep force) m)"
| "cache_spec (CACHE_GET now h no_data peer_serve reply_to) m r m' =
     (m' = m \<and> (\<exists>b out. r = CACHE_GET_REPLY b out \<and> get_spec h no_data peer_serve reply_to m b out))"
| "cache_spec (CACHE_REMOVE h force) m r m' = (\<exists>x. r = CACHE_REMOVE_REPLY x \<and> remove_spec h force m x m')"
| "cache_spec (CACHE_SECTIONS_READ_RESULT now sid i data) m r m' =
     (m' = m \<and> (\<exists>out. r = CACHE_GET_REPLY None out \<and> (\<forall>x \<in> set out. \<exists>p b. x = get_answer m b p \<and> (b = None \<longleftrightarrow> data = None) \<and>
        (\<forall>blk. b = Some blk \<longrightarrow> Some (buffer_bytes (block_data blk)) = map_option sb_data (m (pg_hash p)) \<and>
           buffer_bytes (block_hash blk) = pg_hash p))))"
| "cache_spec (CACHE_DEFRAGMENT dense order written) m r m' = ((\<exists>n k. r = CACHE_DEFRAGMENT_REPLY n k) \<and> m' = m)"
| "cache_spec (INDEX_SAVE written) m r m' = (r = CACHE_NO_REPLY \<and> m' = m)"
| "cache_spec (CACHE_EPHEMERAL h op) m r m' = (\<exists>x y z. r = CACHE_EPHEMERAL_REPLY x y z \<and> ephemeral_spec h op m (x, y, z) m')"
| "cache_spec (CACHE_PIN h) m r m' = (\<exists>x y z. r = CACHE_PIN_REPLY x y z \<and> pin_spec h True m (x, y, z) m')"
| "cache_spec (CACHE_UNPIN h) m r m' = (\<exists>x y z. r = CACHE_PIN_REPLY x y z \<and> pin_spec h False m (x, y, z) m')"
| "cache_spec CACHE_EPHEMERAL_LIST m r m' = (m' = m \<and> (\<exists>l. r = CACHE_EPHEMERAL_LIST_REPLY l \<and>
     set l = {(h, sb_claims x, sb_pins x) | h x. m h = Some x \<and> 0 < sb_claims x}))"
| "cache_spec (CACHE_LIST_SERVABLE k exclude) m r m' = (m' = m \<and> (\<exists>l. r = CACHE_LIST_SERVABLE_REPLY l \<and>
     set l \<subseteq> servable exclude m))"
| "cache_spec CACHE_OTHER m r m' = (r = CACHE_NO_REPLY \<and> m' = m)"

section \<open>The groups of puts and the number of sections\<close>

text \<open>Most handlers touch neither.\<close>

abbreviation same_frame :: "block_cache_t \<Rightarrow> block_cache_t \<Rightarrow> bool" where
  "same_frame c c' \<equiv> bc_put_groups c' = bc_put_groups c \<and> sx_next_id (bc_sections c') = sx_next_id (bc_sections c)"

lemma entry_set_ejection_frame [simp]:
  "bc_put_groups (entry_set_ejection D now r c) = bc_put_groups c" "bc_sections (entry_set_ejection D now r c) = bc_sections c"
  by (simp_all add: entry_set_ejection_def split: option.split entry_ref.split)

lemma lru_put_frame: "block_cache_lru_put D now b r c = Some c' \<Longrightarrow> same_frame c c'"
  by (auto simp: block_cache_lru_put_def split: option.splits prod.splits)

lemma delete_entry_frame: "block_cache_delete_entry E h r c = Some c' \<Longrightarrow> same_frame c c'"
  by (auto simp: block_cache_delete_entry_def Let_def split: bind_splits)

lemma put_group_delete_frame: "put_group_delete E h c = Some c' \<Longrightarrow> same_frame c c'"
  by (auto simp: put_group_delete_def Let_def dest!: delete_entry_frame split: bind_splits option.splits if_splits)

lemma put_group_delete_all_frame: "put_group_delete_all E hs c = Some c' \<Longrightarrow> same_frame c c'"
  by (induction hs arbitrary: c) (fastforce dest!: put_group_delete_frame split: bind_splits)+

lemma gc_loop_frame: "block_cache_gc_loop E keep force es st = Some (r, c') \<Longrightarrow> same_frame (snd st) c'"
proof (induction es arbitrary: st)
  case (Cons e es)
  then show ?case by (fastforce simp: Let_def dest!: delete_entry_frame split: prod.splits if_splits option.splits)
qed simp

lemma groups_ok_cong: "bc_put_groups c' = bc_put_groups c \<Longrightarrow> groups_ok c' = groups_ok c"
  by (simp add: groups_ok_def)

lemma claim_groups [simp]: "bc_put_groups (block_cache_claim D h c) = bc_put_groups c"
  by (simp add: block_cache_claim_def split: option.split)

lemma set_update_first: "x \<in> set (update_first P f xs) \<Longrightarrow> x \<in> set xs \<or> x \<in> f ` set xs"
  by (induction xs) (auto split: if_splits)

lemma put_group_record_groups: "groups_ok c \<Longrightarrow> groups_ok (put_group_record gid h c)"
  by (fastforce simp: groups_ok_def put_group_record_def BLAKE3_OUT_LEN_def dest!: set_update_first split: if_splits)

lemma claim_sections [simp]: "bc_sections (block_cache_claim D h c) = bc_sections c"
  by (simp add: block_cache_claim_def split: option.split)

lemma put_group_record_sections [simp]: "bc_sections (put_group_record gid h c) = bc_sections c"
  by (simp add: put_group_record_def)

lemma store_groups: "block_cache_store E now b rank gid c = Some (r, c') \<Longrightarrow> groups_ok c \<Longrightarrow> groups_ok c'"
  by (auto simp: block_cache_store_def Let_def dest!: lru_put_frame intro!: put_group_record_groups
      split: bind_splits if_splits prod.splits) (simp_all add: groups_ok_def)

lemma handle_put_groups:
  assumes "block_cache_handle_put E now b rank acquire gid c = Some (r, c')" and "groups_ok c"
  shows "groups_ok c'"
  using assms store_groups [of E now b rank gid c]
  by (auto simp: block_cache_handle_put_def Let_def groups_ok_def split: bind_splits option.splits if_splits prod.splits)

text \<open>A put adds at most three sections.\<close>

lemma store_next:
  assumes "block_cache_store E now b rank gid c = Some (r, c')" and "sections_wf (bc_sections c)" "pool_io (env_io E)"
    and "length (buffer_bytes (block_data b)) = sx_bytes (bc_sections c)"
  shows "sx_next_id (bc_sections c') \<le> sx_next_id (bc_sections c) + 3"
  using assms(1) sections_write_ok [OF assms(2-4)]
  by (auto simp: block_cache_store_def Let_def dest!: lru_put_frame split: bind_splits if_splits prod.splits)

lemma handle_put_next:
  assumes "block_cache_handle_put E now b rank acquire gid c = Some (r, c')" and "sections_wf (bc_sections c)" "pool_io (env_io E)"
    and "length (buffer_bytes (block_data b)) = sx_bytes (bc_sections c)"
  shows "sx_next_id (bc_sections c') \<le> sx_next_id (bc_sections c) + 3"
  using assms(1) store_next [OF _ assms(2-4), of now rank gid]
  by (auto simp: block_cache_handle_put_def Let_def split: bind_splits option.splits if_splits prod.splits)

lemma group_end_frame:
  assumes "put_group_end_dispatch E gid abort c = Some c'"
  shows "set (bc_put_groups c') \<subseteq> set (bc_put_groups c) \<and> sx_next_id (bc_sections c') = sx_next_id (bc_sections c)"
proof -
  have "bc_put_groups (put_group_tombstone gid c1) = bc_put_groups c1" "bc_sections (put_group_tombstone gid c1) = bc_sections c1" for c1
    by (simp_all add: put_group_tombstone_def)
  then show ?thesis
    using assms set_remove_first_subset [of "\<lambda>g. pgr_group g = gid" "bc_put_groups c"]
    by (auto simp: put_group_end_dispatch_def dest!: put_group_delete_all_frame split: option.splits if_splits)
qed

lemma handle_get_frame:
  "block_cache_handle_get E now h no_data peer_serve reply_to c = Some (b, out, c') \<Longrightarrow> same_frame c c'"
  by (auto simp: block_cache_handle_get_def block_cache_get_stored_def Let_def dest!: lru_put_frame sections_read_next
      split: bind_splits option.splits if_splits prod.splits)

lemma handle_remove_frame: "block_cache_handle_remove E h force c = Some (r, c') \<Longrightarrow> same_frame c c'"
  by (auto simp: block_cache_handle_remove_def Let_def dest!: delete_entry_frame split: bind_splits option.splits if_splits)

lemma handle_ephemeral_frame: "block_cache_handle_ephemeral E h op c = Some (r, c') \<Longrightarrow> same_frame c c'"
  by (auto simp: block_cache_handle_ephemeral_def Let_def dest!: delete_entry_frame
      split: bind_splits option.splits if_splits cache_ephemeral_op_e.splits)

lemma handle_pin_frame: "block_cache_handle_pin E h pin c = Some (r, c') \<Longrightarrow> same_frame c c'"
  by (auto simp: block_cache_handle_pin_def Let_def split: bind_splits option.splits)

lemma read_result_frame: "block_cache_handle_read_result E now sid i data c = Some (out, c') \<Longrightarrow> same_frame c c'"
  by (auto simp: block_cache_handle_read_result_def block_cache_resolve_pending_gets_def Let_def dest!: lru_put_frame
      split: bind_splits option.splits prod.splits)

lemma entry_modify_fold_frame:
  "bc_put_groups (fold (\<lambda>e. entry_modify (r e) f) es c) = bc_put_groups c"
  "bc_sections (fold (\<lambda>e. entry_modify (r e) f) es c) = bc_sections c"
  by (induction es arbitrary: c) simp_all

lemma defragment_frame: "block_cache_handle_defragment E dense order written c = Some (r, c') \<Longrightarrow> same_frame c c'"
  by (auto simp: block_cache_handle_defragment_def Let_def entry_modify_fold_frame dest!: sections_defragment_next
      split: prod.splits if_splits)

lemma set_max_capacity_frame: "same_frame c (block_cache_set_max_capacity cap c)"
  by (simp add: block_cache_set_max_capacity_def Let_def sections_set_max_bytes_def)

fun is_put :: "cache_msg \<Rightarrow> bool" where
  "is_put (CACHE_PUT now b rank acquire gid) = True"
| "is_put _ = False"

lemma dispatch_frame:
  assumes "block_cache_dispatch E msg c = Some (r, c')" and "\<not> is_put msg"
  shows "set (bc_put_groups c') \<subseteq> set (bc_put_groups c) \<and> sx_next_id (bc_sections c') = sx_next_id (bc_sections c)"
proof (cases msg)
  case (CACHE_PUT_GROUP_END gid abort)
  then show ?thesis using assms group_end_frame by fastforce
next
  case (CACHE_GC keep force)
  then show ?thesis using assms by (auto simp: block_cache_handle_gc_def dest!: gc_loop_frame)
next
  case (CACHE_RESIZE cap)
  then show ?thesis using assms set_max_capacity_frame [where c = c and cap = cap] by (auto simp: Let_def)
qed (use assms in \<open>auto dest!: handle_get_frame handle_remove_frame handle_ephemeral_frame handle_pin_frame
    read_result_frame defragment_frame\<close>)

lemma dispatch_groups:
  assumes "block_cache_dispatch E msg c = Some (r, c')" and "groups_ok c"
  shows "groups_ok c'"
proof (cases "is_put msg")
  case True
  then show ?thesis using assms handle_put_groups by (cases msg) auto
next
  case False
  then show ?thesis using dispatch_frame [OF assms(1)] assms(2) by (auto simp: groups_ok_def)
qed

lemma dispatch_next:
  assumes "block_cache_dispatch E msg c = Some (r, c')" and "cache_wf E c" and "env_ok E cv" and "cache_request_ok E c msg"
  shows "sx_next_id (bc_sections c') \<le> sx_next_id (bc_sections c) + 3"
proof (cases "is_put msg")
  case True
  then show ?thesis
    using assms(1,4) handle_put_next [OF _ cache_wfD(2) [OF assms(2)] env_okD(3) [OF assms(3)]] cache_wfD(3) [OF assms(2)]
    by (cases msg) (auto simp: cache_block_def)
next
  case False
  then show ?thesis using dispatch_frame [OF assms(1)] by simp
qed

end
