(* ===== verification/Block_Cache_Runs.thy ===== *)
theory Block_Cache_Runs
  imports Block_Cache_Spec
begin

text \<open>
  Sequences of requests to the block cache: the dispatch refines \<open>cache_spec\<close> step by step, and what
  follows for whole runs.
\<close>

section \<open>One step\<close>

definition is_resize :: "cache_msg \<Rightarrow> bool" where
  "is_resize msg = (case msg of CACHE_RESIZE cap \<Rightarrow> True | _ \<Rightarrow> False)"

text \<open>Besides refining the specification, a request other than a resize keeps the counters in step with
  the index and adds at most one entry, after a capacity test.\<close>

definition step_ok :: "('i, 'm) cache_env_scheme \<Rightarrow> cache_msg \<Rightarrow> block_cache_t \<Rightarrow> cache_reply \<Rightarrow> block_cache_t \<Rightarrow> bool" where
  "step_ok E msg c r c' \<longleftrightarrow> cache_wf E c' \<and> cache_spec msg (cache_abs c) r (cache_abs c') \<and>
     (\<not> is_resize msg \<longrightarrow> counted c c' \<and> (cache_count c' \<le> cache_count c \<or> cache_count c' = cache_count c + 1 \<and> \<not> put_over c))"

lemma step_ok_kept:
  assumes "kept E c c'" and "cache_spec msg (cache_abs c) r (cache_abs c')"
  shows "step_ok E msg c r c'"
  using assms by (simp add: step_ok_def kept_def)

lemma read_result_step:
  assumes "cache_wf E c" and "env_ok E cv" and "read_result_ok c sid i data"
  shows "\<exists>r c'. block_cache_dispatch E (CACHE_SECTIONS_READ_RESULT now sid i data) c = Some (r, c') \<and>
    step_ok E (CACHE_SECTIONS_READ_RESULT now sid i data) c r c'"
proof -
  obtain out c' where h: "block_cache_handle_read_result E now sid i data c = Some (out, c')" "kept E c c'"
      "cache_abs c' = cache_abs c" "read_answers c sid i data out"
    using block_cache_handle_read_result_ok [OF assms] by blast
  obtain b where b: "out = map (get_answer (cache_abs c) b) (filter (pending_matches c sid i) (bc_pending_gets c))"
      "case data of None \<Rightarrow> b = None
       | Some d \<Rightarrow> \<forall>p \<in> set (bc_pending_gets c). pending_matches c sid i p \<longrightarrow>
           (\<exists>blk. b = Some blk \<and> buffer_bytes (block_data blk) = d \<and> buffer_bytes (block_hash blk) = pg_hash p)"
    using h(4) unfolding read_answers_def by blast
  have "\<exists>q b. get_answer (cache_abs c) b0 p = get_answer (cache_abs c) b q \<and> (b = None \<longleftrightarrow> data = None) \<and>
      (\<forall>blk. b = Some blk \<longrightarrow> Some (buffer_bytes (block_data blk)) = map_option sb_data (cache_abs c (pg_hash q)) \<and>
         buffer_bytes (block_hash blk) = pg_hash q)"
    if p: "p \<in> set (bc_pending_gets c)" "pending_matches c sid i p" "b0 = b" for p b0
  proof (intro exI [of _ p] exI [of _ b0] conjI)
    have live: "pg_entry p = Live (pg_hash p)" and d: "\<And>d. data = Some d \<Longrightarrow> sections_blocks (bc_sections c) (sid, i) = Some d"
      using assms(3) p by (auto simp: read_result_ok_def)
    show "b0 = None \<longleftrightarrow> data = None" using b(2) p by (cases data) auto
    show "\<forall>blk. b0 = Some blk \<longrightarrow> Some (buffer_bytes (block_data blk)) = map_option sb_data (cache_abs c (pg_hash p)) \<and>
        buffer_bytes (block_hash blk) = pg_hash p"
      using b(2) p d pending_matches_Live [OF assms(1) p(2) live] by (cases data) (fastforce simp: entry_view_def)+
  qed simp
  then show ?thesis using h(1-3) b(1) by (auto simp: image_iff intro!: step_ok_kept)
qed

lemma cache_step_put:
  assumes "cache_wf E c" and "env_ok E cv" and "cache_block E (bc_type c) b" and "sx_next_id (bc_sections c) + 3 \<le> 2 ^ 64"
  shows "\<exists>r c'. block_cache_dispatch E (CACHE_PUT now b rank acquire gid) c = Some (r, c') \<and>
    step_ok E (CACHE_PUT now b rank acquire gid) c r c'"
proof -
  obtain r c' where h: "block_cache_handle_put E now b rank acquire gid c = Some (r, c')"
      "cache_small c' \<longrightarrow> cache_wf E c' \<and> put_spec b rank acquire (cache_abs c) r (cache_abs c')" "counted c c'"
      "cache_count c' = cache_count c \<or> cache_count c' = cache_count c + 1 \<and> \<not> put_over c"
    using block_cache_handle_put_ok [OF assms(1-3)] by blast
  have "sx_next_id (bc_sections c') \<le> sx_next_id (bc_sections c) + 3"
    using handle_put_next [OF h(1) cache_wfD(2) [OF assms(1)] env_okD(3) [OF assms(2)]] cache_wfD(3) [OF assms(1)] assms(3)
    by (simp add: cache_block_def)
  then have "cache_small c'" using assms(4) by (simp add: cache_small_def)
  then show ?thesis using h by (cases r) (auto simp: step_ok_def)
qed

lemma cache_step:
  assumes "cache_wf E c" and "env_ok E cv" and "groups_ok c" and "cache_request_ok E c msg"
    and "sx_next_id (bc_sections c) + 3 \<le> 2 ^ 64"
  shows "\<exists>r c'. block_cache_dispatch E msg c = Some (r, c') \<and> step_ok E msg c r c'"
proof (cases msg)
  case (CACHE_PUT now b rank acquire gid)
  then show ?thesis using cache_step_put [OF assms(1,2) _ assms(5)] assms(4) by simp
next
  case (CACHE_PUT_GROUP_END gid abort)
  obtain c' where "put_group_end_dispatch E gid abort c = Some c'" "kept E c c'"
      "cache_abs c' = (cache_abs c) |` (- group_hashes gid abort c)"
    using put_group_end_ok [OF assms(1,3)] by blast
  moreover have "\<not> abort \<longrightarrow> group_hashes gid abort c = {}" by (simp add: group_hashes_def split: option.split)
  ultimately show ?thesis
    using CACHE_PUT_GROUP_END by (auto intro!: step_ok_kept exI [of _ "group_hashes gid abort c"])
next
  case (CACHE_RESIZE cap)
  have "bc_max_capacity_bytes (block_cache_set_max_capacity cap c) = cap"
    by (simp add: block_cache_set_max_capacity_def Let_def)
  then show ?thesis
    using CACHE_RESIZE block_cache_set_max_capacity_ok [OF assms(1), of cap] by (simp add: step_ok_def is_resize_def Let_def)
next
  case (CACHE_GC keep force)
  then show ?thesis using block_cache_handle_gc_ok [OF assms(1), of keep force] by (fastforce intro!: step_ok_kept)
next
  case (CACHE_GET now h no_data peer_serve reply_to)
  then show ?thesis
    using block_cache_handle_get_ok [OF assms(1,2), of h now no_data peer_serve reply_to] assms(4) by (fastforce intro!: step_ok_kept)
next
  case (CACHE_REMOVE h force)
  then show ?thesis using block_cache_handle_remove_ok [OF assms(1), of h force] assms(4) by (fastforce intro!: step_ok_kept)
next
  case (CACHE_SECTIONS_READ_RESULT now sid i data)
  then show ?thesis using read_result_step [OF assms(1,2)] assms(4) by simp
next
  case (CACHE_DEFRAGMENT dense order written)
  then show ?thesis
    using block_cache_handle_defragment_ok [OF assms(1,2), of order dense written] assms(4) by (fastforce intro!: step_ok_kept)
next
  case (INDEX_SAVE written)
  then show ?thesis using index_save_ok [OF assms(1,2), of written] by (fastforce intro!: step_ok_kept)
next
  case (CACHE_EPHEMERAL h op)
  then show ?thesis using block_cache_handle_ephemeral_ok [OF assms(1), of h op] assms(4) by (fastforce intro!: step_ok_kept)
next
  case (CACHE_PIN h)
  then show ?thesis using block_cache_handle_pin_ok [OF assms(1), of h True] assms(4) by (fastforce intro!: step_ok_kept)
next
  case (CACHE_UNPIN h)
  then show ?thesis using block_cache_handle_pin_ok [OF assms(1), of h False] assms(4) by (fastforce intro!: step_ok_kept)
next
  case CACHE_EPHEMERAL_LIST
  then show ?thesis using block_cache_list_ephemeral_set [OF assms(1)] kept_refl [OF assms(1)] by (auto intro!: step_ok_kept)
next
  case (CACHE_LIST_SERVABLE k exclude)
  then show ?thesis using list_servable_subset [OF assms(1), of k exclude] kept_refl [OF assms(1)] by (auto intro!: step_ok_kept)
next
  case CACHE_OTHER
  then show ?thesis using kept_refl [OF assms(1)] by (auto intro!: step_ok_kept)
qed

section \<open>Runs\<close>

primrec cache_run :: "('i, 'm) cache_env_scheme \<Rightarrow> cache_msg list \<Rightarrow> block_cache_t \<Rightarrow> (cache_reply list \<times> block_cache_t) option" where
  "cache_run E [] c = Some ([], c)"
| "cache_run E (msg # msgs) c =
     (case block_cache_dispatch E msg c of
        None \<Rightarrow> None
      | Some (r, c') \<Rightarrow> map_option (map_prod ((#) r) id) (cache_run E msgs c'))"

primrec requests_ok :: "('i, 'm) cache_env_scheme \<Rightarrow> cache_msg list \<Rightarrow> block_cache_t \<Rightarrow> bool" where
  "requests_ok E [] c = True"
| "requests_ok E (msg # msgs) c \<longleftrightarrow> cache_request_ok E c msg \<and>
     (case block_cache_dispatch E msg c of None \<Rightarrow> True | Some (r, c') \<Rightarrow> requests_ok E msgs c')"

text \<open>A cache in service: well formed, with numbers left for the sections of \<open>n\<close> more requests.\<close>

definition cache_ready :: "('i, 'm) cache_env_scheme \<Rightarrow> nat \<Rightarrow> block_cache_t \<Rightarrow> bool" where
  "cache_ready E n c \<longleftrightarrow> cache_wf E c \<and> groups_ok c \<and> sx_next_id (bc_sections c) + 3 * n \<le> 2 ^ 64"

lemma cache_ready_step:
  assumes "cache_ready E (Suc n) c" and "env_ok E cv" and "cache_request_ok E c msg"
  shows "\<exists>r c'. block_cache_dispatch E msg c = Some (r, c') \<and> step_ok E msg c r c' \<and> cache_ready E n c'"
proof -
  have c: "cache_wf E c" "groups_ok c" "sx_next_id (bc_sections c) + 3 \<le> 2 ^ 64"
    using assms(1) by (simp_all add: cache_ready_def)
  obtain r c' where s: "block_cache_dispatch E msg c = Some (r, c')" "step_ok E msg c r c'"
    using cache_step [OF c(1) assms(2) c(2) assms(3) c(3)] by blast
  moreover have "cache_ready E n c'"
    using s(2) dispatch_groups [OF s(1) c(2)] dispatch_next [OF s(1) c(1) assms(2,3)] assms(1)
    by (simp add: cache_ready_def step_ok_def)
  ultimately show ?thesis by blast
qed

text \<open>Every relation that the steps establish holds between the ends of a run: \<open>I\<close> relates the start to
  the current state.\<close>

lemma cache_run_induct:
  assumes "cache_ready E (length msgs) c" and "env_ok E cv" and "requests_ok E msgs c" and "I c"
    and "\<And>msg c r c'. msg \<in> set msgs \<Longrightarrow> I c \<Longrightarrow> cache_wf E c \<Longrightarrow> block_cache_dispatch E msg c = Some (r, c') \<Longrightarrow> step_ok E msg c r c' \<Longrightarrow> I c'"
  shows "\<exists>rs c'. cache_run E msgs c = Some (rs, c') \<and> length rs = length msgs \<and> cache_ready E 0 c' \<and> I c'"
  using assms(1,3,4,5)
proof (induction msgs arbitrary: c)
  case Nil
  then show ?case by simp
next
  case (Cons msg msgs)
  have ok: "cache_request_ok E c msg" using Cons.prems(2) by simp
  obtain r c' where s: "block_cache_dispatch E msg c = Some (r, c')" "step_ok E msg c r c'" "cache_ready E (length msgs) c'"
    using cache_ready_step [of E "length msgs" c cv msg] Cons.prems(1) assms(2) ok by auto
  have "cache_wf E c" using Cons.prems(1) by (simp add: cache_ready_def)
  then have "I c'" using Cons.prems(4) [OF _ Cons.prems(3) _ s(1,2)] by simp
  moreover have "requests_ok E msgs c'" using Cons.prems(2) s(1) by simp
  ultimately obtain rs c'' where "cache_run E msgs c' = Some (rs, c'')" "length rs = length msgs" "cache_ready E 0 c''" "I c''"
    using Cons.IH [OF s(3)] Cons.prems(4) by (metis list.set_intros(2))
  then show ?case using s(1) by simp
qed

text \<open>The runs of the specification.\<close>

primrec cache_spec_run :: "cache_msg list \<Rightarrow> acache \<Rightarrow> cache_reply list \<Rightarrow> acache \<Rightarrow> bool" where
  "cache_spec_run [] m rs m' \<longleftrightarrow> rs = [] \<and> m' = m"
| "cache_spec_run (msg # msgs) m rs m' \<longleftrightarrow>
     (\<exists>r rs' m1. rs = r # rs' \<and> cache_spec msg m r m1 \<and> cache_spec_run msgs m1 rs' m')"

lemma unat_of_nat_small: "n < 2 ^ 64 \<Longrightarrow> unat (of_nat n :: u64) = n"
  by (simp add: unat_of_nat)

text \<open>The bytes of the stored blocks are within the capacity and the counters say so exactly.\<close>

definition within_capacity :: "block_cache_t \<Rightarrow> bool" where
  "within_capacity c \<longleftrightarrow> counters_exact c \<and> cache_count c * block_size_bytes (bc_type c) \<le> unat (bc_max_capacity_bytes c)"

section \<open>A concrete cache\<close>

definition example_env :: "(nat \<times> cval) cache_env" where
  "example_env = \<lparr>env_deps = example_deps, env_blake = (\<lambda>d. take 32 (d @ replicate 32 0)), env_io = pool_ok\<rparr>"

lemma example_env_ok: "env_ok example_env snd"
  using example_deps_libcbor by (auto simp: env_ok_def example_env_def BLAKE3_OUT_LEN_def min_def)

lemma sections_top_up_next: "sections_top_up n io S = Some S' \<Longrightarrow> sx_next_id S' = sx_next_id S + n"
proof (induction n arbitrary: S)
  case (Suc n)
  have "sx_next_id S1 = sx_next_id S2" if "sections_open io sid S2 = Some (s, S1)" for sid S1 S2 s
    using that by (auto simp: sections_open_def sections_store_def sections_cache_def split: option.splits prod.splits)
  then show ?case using Suc by (fastforce split: option.splits prod.splits)
qed simp

lemma block_cache_create_wf:
  assumes "index_wf ix" and "sections_wf S" and "sx_type S = type" and "entries_stored (env_blake E) ix S"
  shows "cache_wf E (block_cache_create n type del cap ix S)"
  using assms sections_set_max_bytes_keeps [of "unat cap" S] lru_ok_create [of n]
  by (simp add: cache_wf_def block_cache_create_def entries_stored_def lru_stored_def)
    (simp add: sections_set_max_bytes_def)

text \<open>An empty cache for 136-byte blocks with room for 1000 bytes, that is, for seven blocks.\<close>

abbreviation example_cache :: "nat \<Rightarrow> sections_t \<Rightarrow> block_cache_t" where
  "example_cache n S \<equiv> block_cache_create n nano True 1000 (index_new_empty 2 ([], \<lambda>_. None) 0 3 3) S"

lemma example_ready:
  "\<exists>S. sections_wf S \<and> (\<forall>k \<le> 100. cache_ready example_env k (example_cache n S)) \<and> cache_abs (example_cache n S) = Map.empty \<and>
     within_capacity (example_cache n S) \<and> cache_count (example_cache n S) = 0"
proof -
  obtain S where S: "sections_create rfc8949_api pool_ok (\<lambda>_. (None, None, None)) None None 2 2 2 nano False = Some S"
      "sections_wf S" "sx_bytes S = 136" using example_pool by blast
  have nid: "sx_next_id S = 2"
    using S(1) by (auto simp: sections_create_def sections_load_robin_def dest!: sections_top_up_next)
  have type: "sx_type S = nano" using S(3) block_size_bytes_inj [of "sx_type S" nano] by simp
  let ?ix = "index_new_empty 2 ([], \<lambda>_. None) 0 3 3"
  have ix: "index_wf ?ix" "index_map ?ix = Map.empty" "index_count ?ix = 0"
    by (simp_all add: index_new_empty_def index_node_create_def index_wf_def index_map_def index_count_def fun_eq_iff)
  then have "cache_wf example_env (example_cache n S)"
    using S(2) type by (intro block_cache_create_wf) (simp_all add: entries_stored_def)
  then show ?thesis
    using S(2) nid ix by (intro exI [of _ S]) (simp add: cache_ready_def groups_ok_def block_cache_create_def cache_abs_def
        sections_set_max_bytes_def within_capacity_def counters_exact_def fun_eq_iff)
qed

lemma block_cache_create_simps [simp]:
  "bc_type (block_cache_create n type del cap ix S) = type" "bc_max_capacity_bytes (block_cache_create n type del cap ix S) = cap"
  "bc_lru (block_cache_create n type del cap ix S) = lru_cache_create n"
  "bc_pending_gets (block_cache_create n type del cap ix S) = []" "bc_ended_put_groups (block_cache_create n type del cap ix S) = []"
  "bc_put_groups (block_cache_create n type del cap ix S) = []" "bc_delete_blocks_on_put_failure (block_cache_create n type del cap ix S) = del"
  by (simp_all add: block_cache_create_def)

definition example_block :: block_t where
  "example_block = \<lparr>block_data = bytes_buffer (replicate 136 7), block_hash = bytes_buffer (replicate 32 7)\<rparr>"

lemma example_block_ok: "cache_block example_env nano example_block"
  by (simp add: cache_block_def example_block_def example_env_def)

text \<open>The cache with one block.\<close>

lemma example_stored:
  "\<exists>S c. block_cache_handle_put example_env 0 example_block 3 acquire gid (example_cache n S) = Some ((0, False, 3), c) \<and>
     sections_wf S \<and> (\<forall>k \<le> 90. cache_ready example_env k c) \<and>
     cache_abs c = [replicate 32 7 \<mapsto> \<lparr>sb_data = replicate 136 7, sb_rank = 3, sb_claims = (if acquire then 1 else 0), sb_pins = 0\<rparr>]"
proof -
  obtain S where S: "sections_wf S" "\<forall>k \<le> 100. cache_ready example_env k (example_cache n S)"
      "cache_abs (example_cache n S) = Map.empty" "within_capacity (example_cache n S)" "cache_count (example_cache n S) = 0"
    using example_ready by blast
  let ?c = "example_cache n S" and ?msg = "CACHE_PUT 0 example_block 3 acquire gid"
  have wf: "cache_wf example_env ?c" using S(2) by (auto simp: cache_ready_def)
  have "cache_request_ok example_env ?c ?msg" using example_block_ok by simp
  from cache_ready_step [OF S(2) [rule_format, of "Suc 90"] example_env_ok this]
  obtain r c where c: "block_cache_dispatch example_env ?msg ?c = Some (r, c)" "step_ok example_env ?msg ?c r c"
      "cache_ready example_env 90 c" by auto
  have "\<not> put_over ?c" using S(4,5)
    by (simp add: put_over_def within_capacity_def counters_exact_def bc_type_bytes_def)
  moreover have "index_map (bc_index ?c) (replicate 32 7) = None" using cache_abs_None [OF wf] S(3) by simp
  ultimately obtain c' where c': "block_cache_handle_put example_env 0 example_block 3 acquire gid ?c = Some ((0, False, 3), c')"
    using block_cache_put_new [OF wf example_env_ok _ refl, of example_block gid 0 3 acquire] example_block_ok
    by (fastforce simp: example_block_def put_group_ended_def)
  then have eq: "c' = c" "r = CACHE_PUT_REPLY (0, False, 3)" using c(1) by simp_all
  moreover have "cache_abs c = [replicate 32 7 \<mapsto> \<lparr>sb_data = replicate 136 7, sb_rank = 3, sb_claims = (if acquire then 1 else 0), sb_pins = 0\<rparr>]"
    using c(2) S(3) eq(2) by (simp add: step_ok_def put_spec_def example_block_def put_claim_def)
  moreover have "\<forall>k \<le> 90. cache_ready example_env k c" using c(3) by (simp add: cache_ready_def)
  ultimately show ?thesis using S(1) c' by blast
qed

section \<open>Refinement\<close>

lemma cache_run_refines:
  assumes "cache_ready E (length msgs) c" and "env_ok E cv" and "requests_ok E msgs c"
  shows "\<exists>rs c'. cache_run E msgs c = Some (rs, c') \<and> cache_wf E c' \<and> cache_spec_run msgs (cache_abs c) rs (cache_abs c')"
  using assms(1,3)
proof (induction msgs arbitrary: c)
  case Nil
  then show ?case by (simp add: cache_ready_def)
next
  case (Cons msg msgs)
  then obtain r c' where s: "block_cache_dispatch E msg c = Some (r, c')" "step_ok E msg c r c'" "cache_ready E (length msgs) c'"
    using cache_ready_step [of E "length msgs" c cv msg] assms(2) by auto
  moreover have "requests_ok E msgs c'" using Cons.prems(2) s(1) by simp
  ultimately obtain rs c'' where "cache_run E msgs c' = Some (rs, c'')" "cache_wf E c''"
      "cache_spec_run msgs (cache_abs c') rs (cache_abs c'')"
    using Cons.IH by blast
  moreover have "cache_spec msg (cache_abs c) r (cache_abs c')" using s(2) by (simp add: step_ok_def)
  ultimately show ?case using s(1) by auto
qed

text \<open>C1. The block cache refines a map from hashes to blocks with rank, claims and pins. In a well-formed
  cache, every sequence of admissible requests to the actor (puts, gets, removals, claims, pins, sweeps,
  groups of puts, resizing, defragmentation, snapshots, lists, and the reads that come back) is served without
  undefined behaviour, its answers and its effect on the map are those of \<open>cache_spec\<close>, and the index, the LRU
  and the sections stay consistent.\<close>

theorem block_cache_refines_map:
  assumes "cache_ready E (length msgs) c" and "env_ok E cv" and "requests_ok E msgs c"
  shows "\<exists>rs c'. cache_run E msgs c = Some (rs, c') \<and> cache_wf E c' \<and> cache_spec_run msgs (cache_abs c) rs (cache_abs c')"
  by (rule cache_run_refines [OF assms])

definition example_msgs :: "cache_msg list" where
  "example_msgs = [CACHE_PUT 0 example_block 3 False 0, CACHE_GET 1 (replicate 32 7) False False None,
     CACHE_REMOVE (replicate 32 7) False]"

lemma example_requests: "bc_type c = nano \<Longrightarrow> requests_ok example_env example_msgs c"
  by (simp add: example_msgs_def example_block_ok BLAKE3_OUT_LEN_def split: option.split)

theorem block_cache_refines_map_witness:
  "\<exists>c rs c'. cache_abs c = Map.empty \<and> cache_run example_env example_msgs c = Some (rs, c') \<and> cache_wf example_env c' \<and>
     cache_spec_run example_msgs Map.empty rs (cache_abs c')"
proof -
  obtain S where S: "\<forall>k \<le> 100. cache_ready example_env k (example_cache 2 S)" "cache_abs (example_cache 2 S) = Map.empty"
    using example_ready by blast
  have "cache_ready example_env (length example_msgs) (example_cache 2 S)" using S(1) by (simp add: example_msgs_def)
  from block_cache_refines_map [OF this example_env_ok example_requests] S(2) show ?thesis by (metis block_cache_create_simps(1))
qed

section \<open>Capacity\<close>

lemma put_within:
  fixes n bytes :: nat and cur cap :: u64
  assumes "cur = of_nat n * of_nat bytes" and "n * bytes \<le> unat cap" and "unat cap + bytes < 2 ^ 64" and "\<not> cap < cur + of_nat bytes"
  shows "(n + 1) * bytes \<le> unat cap"
proof -
  have "cur + of_nat bytes = of_nat ((n + 1) * bytes)" using assms(1) by (simp add: algebra_simps)
  moreover have "unat (of_nat ((n + 1) * bytes) :: u64) = (n + 1) * bytes"
    using assms(2,3) by (intro unat_of_nat_small) (simp add: algebra_simps)
  ultimately show ?thesis using assms(4) unfolding word_less_nat_alt not_less by metis
qed

lemma within_capacity_step:
  assumes "within_capacity c" and "0 < bc_max_capacity_bytes c"
    and "unat (bc_max_capacity_bytes c) + block_size_bytes (bc_type c) < 2 ^ 64"
    and "step_ok E msg c r c'" and "\<not> is_resize msg"
  shows "within_capacity c' \<and> bc_max_capacity_bytes c' = bc_max_capacity_bytes c \<and> bc_type c' = bc_type c"
proof -
  have s: "bc_type c' = bc_type c" "bc_max_capacity_bytes c' = bc_max_capacity_bytes c"
      "bc_entry_count c' - of_nat (cache_count c') = bc_entry_count c - of_nat (cache_count c)"
      "bc_current_bytes c' - of_nat (cache_count c') * bc_type_bytes c' = bc_current_bytes c - of_nat (cache_count c) * bc_type_bytes c"
      "cache_count c' \<le> cache_count c \<or> cache_count c' = cache_count c + 1 \<and> \<not> put_over c"
    using assms(4,5) by (auto simp: step_ok_def counted_def)
  have ex: "counters_exact c'" using s(3,4) assms(1) by (simp add: within_capacity_def counters_exact_def)
  have "cache_count c' * block_size_bytes (bc_type c) \<le> unat (bc_max_capacity_bytes c)"
    using s(5)
  proof
    assume "cache_count c' \<le> cache_count c"
    then have "cache_count c' * block_size_bytes (bc_type c) \<le> cache_count c * block_size_bytes (bc_type c)" by (rule mult_le_mono1)
    then show ?thesis using assms(1) unfolding within_capacity_def by linarith
  next
    assume "cache_count c' = cache_count c + 1 \<and> \<not> put_over c"
    then show ?thesis
      using put_within [of "bc_current_bytes c" "cache_count c" "block_size_bytes (bc_type c)" "bc_max_capacity_bytes c"] assms(1-3)
      by (simp add: within_capacity_def counters_exact_def put_over_def bc_type_bytes_def)
  qed
  then show ?thesis using ex s(1,2) by (simp add: within_capacity_def)
qed



end
