(* ===== verification/Block_Cache_Guarantees.thy ===== *)
theory Block_Cache_Guarantees
  imports Block_Cache_Runs
begin

text \<open>
  What the block cache guarantees over sequences of requests: claimed and pinned blocks stay, an asynchronous
  get is answered when its read comes back, an aborted group of puts leaves nothing behind. The last section
  is about what deletion does not do.
\<close>

section \<open>Claims and pins\<close>

text \<open>The requests that may take a claimed or pinned block away.\<close>

fun releases :: "bytes \<Rightarrow> cache_msg \<Rightarrow> bool" where
  "releases h (CACHE_REMOVE k force) = (k = h \<and> force)"
| "releases h (CACHE_EPHEMERAL k op) = (k = h \<and> op \<noteq> CACHE_EPHEMERAL_ACQUIRE)"
| "releases h (CACHE_UNPIN k) = (k = h)"
| "releases h (CACHE_GC keep force) = force"
| "releases h (CACHE_PUT_GROUP_END gid abort) = abort"
| "releases h _ = False"

definition held :: "bytes \<Rightarrow> stored_block \<Rightarrow> acache \<Rightarrow> bool" where
  "held h x m \<longleftrightarrow> (0 < sb_claims x \<or> 0 < sb_pins x) \<and>
     (\<exists>y. m h = Some y \<and> sb_data y = sb_data x \<and> sb_claims x \<le> sb_claims y \<and> sb_pins x \<le> sb_pins y)"

lemma u16_le_Suc:
  assumes "(a :: u16) \<le> n" and "n \<noteq> 65535"
  shows "a \<le> n + 1"
proof -
  have "unat n < 65536" by (rule less_le_trans [OF unsigned_less]) simp
  moreover have "unat n \<noteq> 65535" using assms(2) by (simp add: word_unat_eq_iff)
  ultimately have "Suc (unat n) < 65536" by linarith
  then show ?thesis using assms(1) by (simp add: word_le_nat_alt unat_word_ariths)
qed

lemma u32_le_Suc:
  assumes "(a :: u32) \<le> n" and "n \<noteq> 4294967295"
  shows "a \<le> n + 1"
proof -
  have "unat n < 4294967296" by (rule less_le_trans [OF unsigned_less]) simp
  moreover have "unat n \<noteq> 4294967295" using assms(2) by (simp add: word_unat_eq_iff)
  ultimately have "Suc (unat n) < 4294967296" by linarith
  then show ?thesis using assms(1) by (simp add: word_le_nat_alt unat_word_ariths)
qed

lemma held_put_claim: "held h x (m(h \<mapsto> y)) \<Longrightarrow> held h x (m(h \<mapsto> put_claim acquire (y\<lparr>sb_rank := r\<rparr>)))"
  using u16_le_Suc [of "sb_claims x" "sb_claims y"] by (auto simp: held_def put_claim_def)

lemma held_upd: "held h x m \<Longrightarrow> k \<noteq> h \<Longrightarrow> held h x (m(k := v))"
  by (simp add: held_def)

lemma put_spec_held:
  assumes "put_spec b rank acquire m r m'" and "held h x m"
  shows "held h x m'"
proof (cases "buffer_bytes (block_hash b) = h")
  case True
  then obtain y where y: "m h = Some y" using assms(2) by (auto simp: held_def)
  then have "m(h \<mapsto> y) = m" by auto
  then show ?thesis using assms True y held_put_claim [of h x m y acquire] by (auto simp: put_spec_def)
next
  case False
  then show ?thesis using assms held_upd [OF assms(2) False] by (auto simp: put_spec_def Let_def split: option.splits)
qed

lemma remove_spec_held:
  assumes "remove_spec k force m r m'" and "held h x m" and "\<not> (k = h \<and> force)"
  shows "held h x m'"
proof (cases "k = h")
  case True
  obtain y where y: "m h = Some y" "sb_claims x \<le> sb_claims y" "sb_pins x \<le> sb_pins y" "0 < sb_claims x \<or> 0 < sb_pins x"
    using assms(2) by (auto simp: held_def)
  then have "0 < sb_claims y \<or> 0 < sb_pins y" by (auto intro: less_le_trans)
  then show ?thesis using assms True y(1) by (auto simp: remove_spec_def split: if_splits)
next
  case False
  then show ?thesis using assms held_upd [OF assms(2) False] by (auto simp: remove_spec_def split: option.splits if_splits)
qed

lemma ephemeral_spec_held:
  assumes "ephemeral_spec k op m r m'" and "held h x m" and "\<not> (k = h \<and> op \<noteq> CACHE_EPHEMERAL_ACQUIRE)"
  shows "held h x m'"
proof (cases "k = h")
  case True
  then have "op = CACHE_EPHEMERAL_ACQUIRE" using assms(3) by simp
  then show ?thesis using assms(1,2) True
    by (auto simp: ephemeral_spec_def held_def Let_def split: if_splits option.splits intro: u16_le_Suc u32_le_Suc)
next
  case False
  then show ?thesis using assms held_upd [OF assms(2) False]
    by (auto simp: ephemeral_spec_def Let_def split: option.splits if_splits cache_ephemeral_op_e.splits)
qed

lemma pin_spec_held:
  assumes "pin_spec k pin m r m'" and "held h x m" and "\<not> (k = h \<and> \<not> pin)"
  shows "held h x m'"
proof (cases "k = h")
  case True
  then show ?thesis using assms
    by (auto simp: pin_spec_def held_def Let_def split: if_splits option.splits intro: u16_le_Suc u32_le_Suc)
next
  case False
  then show ?thesis using assms held_upd [OF assms(2) False] by (auto simp: pin_spec_def Let_def split: option.splits)
qed

lemma gc_held:
  assumes "held h x m" and "m' = drop_blocks (gc_deletes keep False) m"
  shows "held h x m'"
proof -
  obtain y where y: "m h = Some y" "sb_claims x \<le> sb_claims y" "sb_pins x \<le> sb_pins y" "0 < sb_claims x \<or> 0 < sb_pins x"
    using assms(1) by (auto simp: held_def)
  then have "0 < sb_claims y \<or> 0 < sb_pins y" by (auto intro: less_le_trans)
  then show ?thesis using assms y(1) by (auto simp: held_def drop_blocks_def gc_deletes_def)
qed

lemma cache_spec_held:
  assumes "cache_spec msg m r m'" and "held h x m" and "\<not> releases h msg"
  shows "held h x m'"
proof (cases msg)
  case (CACHE_PUT_GROUP_END gid abort)
  then show ?thesis using assms by (auto simp: held_def)
next
  case (CACHE_GC keep force)
  then show ?thesis using assms gc_held [OF assms(2)] by auto
qed (use assms put_spec_held remove_spec_held ephemeral_spec_held pin_spec_held in \<open>auto split: if_splits\<close>)

text \<open>C8. A claimed or pinned block is not lost: no sequence of admissible requests takes it away, moves it
  out of reach or changes it, unless one of them forces its removal, releases or clears its claims, unpins it,
  forces a sweep or aborts a group of puts. Its claims and pins do not go down, and it is read back unchanged.\<close>

theorem block_cache_held_block_survives:
  assumes "cache_ready E (length msgs) c" and "env_ok E cv" and "requests_ok E msgs c"
    and "cache_abs c h = Some x" and "0 < sb_claims x \<or> 0 < sb_pins x" and "\<forall>msg \<in> set msgs. \<not> releases h msg"
    and "length h = BLAKE3_OUT_LEN"
  shows "\<exists>rs c' y. cache_run E msgs c = Some (rs, c') \<and> cache_abs c' h = Some y \<and> sb_claims x \<le> sb_claims y \<and> sb_pins x \<le> sb_pins y \<and>
    (\<exists>b c''. block_cache_handle_get E now h False False None c' = Some (Some b, [], c'') \<and> buffer_bytes (block_data b) = sb_data x)"
proof -
  have "held h x (cache_abs c)" using assms(4,5) by (simp add: held_def)
  moreover have "held h x (cache_abs c')" if "msg \<in> set msgs" "held h x (cache_abs c0)" "step_ok E msg c0 r c'" for msg c0 r c'
    using cache_spec_held [of msg "cache_abs c0" r "cache_abs c'" h x] that assms(6) by (simp add: step_ok_def)
  ultimately obtain rs c' where r: "cache_run E msgs c = Some (rs, c')" "cache_ready E 0 c'" "held h x (cache_abs c')"
    using cache_run_induct [OF assms(1-3), of "\<lambda>c. held h x (cache_abs c)"] by blast
  then obtain y where y: "cache_abs c' h = Some y" "sb_data y = sb_data x" "sb_claims x \<le> sb_claims y" "sb_pins x \<le> sb_pins y"
    by (auto simp: held_def)
  have "cache_wf E c'" using r(2) by (simp add: cache_ready_def)
  from block_cache_handle_get_ok [OF this assms(2,7), of now False False None] y(1,2)
  have "\<exists>b c''. block_cache_handle_get E now h False False None c' = Some (Some b, [], c'') \<and> buffer_bytes (block_data b) = sb_data x"
    by (auto simp: get_spec_def Let_def)
  then show ?thesis using r(1) y by blast
qed

definition example_sweep :: "cache_msg list" where
  "example_sweep = [CACHE_GC None False, CACHE_REMOVE (replicate 32 7) False, CACHE_DEFRAGMENT (\<lambda>_ _. False) [0, 1] None]"

lemma example_sweep_ok: "requests_ok example_env example_sweep c" "\<forall>msg \<in> set example_sweep. \<not> releases h msg"
  by (simp_all add: example_sweep_def BLAKE3_OUT_LEN_def split: option.split)

theorem block_cache_held_block_survives_witness:
  "\<exists>c x rs c' y. cache_abs c (replicate 32 7) = Some x \<and> sb_claims x = 1 \<and> cache_run example_env example_sweep c = Some (rs, c') \<and>
     cache_abs c' (replicate 32 7) = Some y \<and> sb_claims x \<le> sb_claims y \<and>
     (\<exists>b c''. block_cache_handle_get example_env 8 (replicate 32 7) False False None c' = Some (Some b, [], c'') \<and>
        buffer_bytes (block_data b) = replicate 136 7)"
proof -
  obtain c where c: "\<forall>k \<le> 90. cache_ready example_env k c"
      "cache_abs c = [replicate 32 7 \<mapsto> \<lparr>sb_data = replicate 136 7, sb_rank = 3, sb_claims = 1, sb_pins = 0\<rparr>]"
    using example_stored [of True 0 2] by auto
  define x where "x = \<lparr>sb_data = replicate 136 7, sb_rank = 3, sb_claims = 1, sb_pins = 0\<rparr>"
  have x: "cache_abs c (replicate 32 7) = Some x" "sb_claims x = 1" "sb_data x = replicate 136 7"
    using c(2) by (simp_all only: x_def fun_upd_same stored_block.select_convs)
  have "cache_ready example_env (length example_sweep) c" "length (replicate 32 7 :: bytes) = BLAKE3_OUT_LEN" "0 < sb_claims x \<or> 0 < sb_pins x"
    using c(1) x(2) by (simp_all only: length_replicate) (simp_all add: example_sweep_def BLAKE3_OUT_LEN_def)
  from block_cache_held_block_survives [OF this(1) example_env_ok example_sweep_ok(1) x(1) this(3) example_sweep_ok(2) this(2), of 8]
  show ?thesis unfolding x(3) using x(1,2) by blast
qed

section \<open>Asynchronous gets\<close>

text \<open>The request waits for its read.\<close>

lemma handle_get_async:
  assumes "cache_wf E c" and "length h = BLAKE3_OUT_LEN" and "index_map (bc_index c) h = Some e" and "lru_values (bc_lru c) h = None"
  shows "\<exists>lru. block_cache_handle_get E now h False False (Some a) c =
      Some (None, [CACHE_SECTIONS_READ (unat (section_id e)) (unat (section_index e))],
        c\<lparr>bc_lru := lru, bc_pending_gets := \<lparr>pg_hash = h, pg_entry = Live h, pg_reply_to = a\<rparr> # bc_pending_gets c\<rparr>) \<and>
    lru_ok lru \<and> lru_values lru = lru_values (bc_lru c)"
proof -
  obtain lru where "lru_cache_get (bc_lru c) h = (lru_values (bc_lru c) h, lru)" "lru_ok lru" "lru_values lru = lru_values (bc_lru c)"
    by (rule lru_ok_get [OF cache_wfD(4) [OF assms(1)], of h])
  then show ?thesis
    using cache_peek_eq [OF assms(1,2)] assms(3,4) by (auto simp: block_cache_handle_get_def block_cache_get_stored_def Let_def)
qed

text \<open>C19. The two halves of an asynchronous get fit together: a get of a stored block that is not in the LRU asks the
  sections actor for the place of the block; the sections actor reads the block there, and when the cache gets the
  result, the client that asked is sent the stored block with its hash, its rank and its claim status. The
  contents of the cache do not change.\<close>

theorem block_cache_async_get:
  assumes "cache_wf E c" and "env_ok E cv" and "length h = BLAKE3_OUT_LEN" and "cache_abs c h = Some x"
    and "lru_values (bc_lru c) h = None"
    and "\<forall>p \<in> set (bc_pending_gets c). pg_entry p = Live (pg_hash p) \<and> lru_values (bc_lru c) (pg_hash p) = None"
  shows "\<exists>sid i c1 d S out c2 b.
    block_cache_handle_get E now h False False (Some a) c = Some (None, [CACHE_SECTIONS_READ sid i], c1) \<and>
    sections_dispatch (dep_cbor (env_deps E)) (env_io E) (sections_msg.SECTIONS_READ sid i) (bc_sections c1) =
      Some (sections_reply.SECTIONS_READ_RESULT (Some d), S) \<and>
    block_cache_handle_read_result E later sid i (Some d) (c1\<lparr>bc_sections := S\<rparr>) = Some (out, c2) \<and>
    CACHE_GET_RESULT a h (Some b) (sb_rank x) True (0 < sb_claims x) False \<in> set out \<and>
    buffer_bytes (block_data b) = sb_data x \<and> buffer_bytes (block_hash b) = h \<and> cache_abs c2 = cache_abs c"
proof -
  obtain e where e: "index_map (bc_index c) h = Some e" "x = entry_view e (sb_data x)"
    using cache_abs_SomeD [OF assms(1,4)] by blast
  let ?sid = "unat (section_id e)" and ?i = "unat (section_index e)" and ?p = "\<lparr>pg_hash = h, pg_entry = Live h, pg_reply_to = a\<rparr>"
  have d: "sections_blocks (bc_sections c) (?sid, ?i) = Some (sb_data x)"
    using cache_abs_Some [OF assms(1) e(1)] assms(4) e(2) by (auto simp: entry_addr_def entry_view_def)
  obtain lru where g: "block_cache_handle_get E now h False False (Some a) c = Some (None, [CACHE_SECTIONS_READ ?sid ?i],
      c\<lparr>bc_lru := lru, bc_pending_gets := ?p # bc_pending_gets c\<rparr>)" "lru_ok lru" "lru_values lru = lru_values (bc_lru c)"
    using handle_get_async [OF assms(1,3) e(1) assms(5)] by blast
  obtain S where S: "sections_read (env_io E) ?sid ?i (bc_sections c) = Some (Some (sb_data x), S)" "sections_wf S"
      "sx_bytes S = sx_bytes (bc_sections c)" "sections_blocks S = sections_blocks (bc_sections c)"
    using sections_read_ok [OF cache_wfD(2) [OF assms(1)] env_okD(3) [OF assms(2)] d] by blast
  let ?c = "c\<lparr>bc_lru := lru, bc_pending_gets := ?p # bc_pending_gets c, bc_sections := S\<rparr>"
  have wf1: "cache_wf E (c\<lparr>bc_lru := lru\<rparr>)" using cache_wf_lru [OF assms(1) g(2)] g(3) by simp
  then have "cache_wf E (c\<lparr>bc_lru := lru, bc_pending_gets := ?p # bc_pending_gets c\<rparr>)" by simp
  note wf = cache_wf_sections(1,2) [OF this, of S]
  have wf: "cache_wf E ?c" "cache_abs ?c = cache_abs c"
    using wf S(2-4) by (simp, intro cache_abs_same) simp_all
  have "read_result_ok ?c ?sid ?i (Some (sb_data x))"
    using assms(5,6) g(3) d S(4) by (auto simp: read_result_ok_def)
  from block_cache_handle_read_result_ok [OF wf(1) assms(2) this, of later]
  obtain out c2 where r: "block_cache_handle_read_result E later ?sid ?i (Some (sb_data x)) ?c = Some (out, c2)" "cache_abs c2 = cache_abs ?c"
      "read_answers ?c ?sid ?i (Some (sb_data x)) out" by blast
  have m: "pending_matches ?c ?sid ?i ?p" using e(1) by (simp add: pending_matches_def)
  then obtain b where "buffer_bytes (block_data b) = sb_data x" "buffer_bytes (block_hash b) = h" "get_answer (cache_abs c) (Some b) ?p \<in> set out"
    using r(3) wf(2) by (auto simp: read_answers_def)
  then show ?thesis using g(1) S(1) r(1,2) wf(2) assms(4) by (fastforce simp: get_answer_def)
qed

lemma lru_put_none: "lru_size (bc_lru c) = 0 \<Longrightarrow> block_cache_lru_put D now b r c = Some c"
  by (simp add: block_cache_lru_put_def block_lru_cache_put_def)

lemma claim_lru [simp]:
  "bc_lru (block_cache_claim D h c) = bc_lru c" "bc_pending_gets (block_cache_claim D h c) = bc_pending_gets c"
  by (simp_all add: block_cache_claim_def split: option.split)

lemma handle_put_no_lru:
  assumes "block_cache_handle_put E now b rank acquire gid c = Some (r, c')" and "lru_size (bc_lru c) = 0"
  shows "bc_lru c' = bc_lru c \<and> bc_pending_gets c' = bc_pending_gets c"
  using assms
  by (auto simp: block_cache_handle_put_def block_cache_store_def Let_def lru_put_none put_group_record_def
      split: bind_splits option.splits if_splits prod.splits)

theorem block_cache_async_get_witness:
  "\<exists>c sid i c1 d S out c2 b.
    block_cache_handle_get example_env 1 (replicate 32 7) False False (Some 4) c = Some (None, [CACHE_SECTIONS_READ sid i], c1) \<and>
    sections_dispatch (dep_cbor (env_deps example_env)) (env_io example_env) (sections_msg.SECTIONS_READ sid i) (bc_sections c1) =
      Some (sections_reply.SECTIONS_READ_RESULT (Some d), S) \<and>
    block_cache_handle_read_result example_env 2 sid i (Some d) (c1\<lparr>bc_sections := S\<rparr>) = Some (out, c2) \<and>
    CACHE_GET_RESULT 4 (replicate 32 7) (Some b) 3 True False False \<in> set out \<and> buffer_bytes (block_data b) = replicate 136 7"
proof -
  obtain S0 c where c: "block_cache_handle_put example_env 0 example_block 3 False 0 (example_cache 0 S0) = Some ((0, False, 3), c)"
      "\<forall>k \<le> 90. cache_ready example_env k c"
      "cache_abs c = [replicate 32 7 \<mapsto> \<lparr>sb_data = replicate 136 7, sb_rank = 3, sb_claims = 0, sb_pins = 0\<rparr>]"
    using example_stored [of False 0 0] by auto
  define x where "x = \<lparr>sb_data = replicate 136 7, sb_rank = 3, sb_claims = 0 :: u16, sb_pins = 0\<rparr>"
  have x: "cache_abs c (replicate 32 7) = Some x" "sb_claims x = 0" "sb_rank x = 3" "sb_data x = replicate 136 7"
    using c(3) by (simp_all only: x_def fun_upd_same stored_block.select_convs)
  have wf: "cache_wf example_env c" using c(2) by (auto simp: cache_ready_def)
  have "bc_lru c = lru_cache_create 0" "bc_pending_gets c = []"
    using handle_put_no_lru [OF c(1)] by simp_all
  then have l: "lru_values (bc_lru c) (replicate 32 7) = None"
      "\<forall>p \<in> set (bc_pending_gets c). pg_entry p = Live (pg_hash p) \<and> lru_values (bc_lru c) (pg_hash p) = None"
    by (simp_all only: lru_values_create) simp
  have "length (replicate 32 7 :: bytes) = BLAKE3_OUT_LEN" by (simp only: length_replicate BLAKE3_OUT_LEN_def)
  from block_cache_async_get [OF wf example_env_ok this x(1) l, of 1 4 2]
  show ?thesis unfolding x by (simp only: less_irrefl) blast
qed

section \<open>Groups of puts\<close>

text \<open>What a put does to the groups.\<close>

lemma delete_flag_simps [simp]:
  "bc_delete_blocks_on_put_failure (entry_set_ejection D now r c) = bc_delete_blocks_on_put_failure c"
  "bc_delete_blocks_on_put_failure (block_cache_claim D h c) = bc_delete_blocks_on_put_failure c"
  by (simp_all add: entry_set_ejection_def block_cache_claim_def split: option.split entry_ref.split)

lemma lru_put_delete_flag:
  "block_cache_lru_put D now b r c = Some c' \<Longrightarrow> bc_delete_blocks_on_put_failure c' = bc_delete_blocks_on_put_failure c"
  by (auto simp: block_cache_lru_put_def split: option.splits prod.splits)

lemma put_group_record_groups_eq:
  "bc_put_groups c' = bc_put_groups c \<Longrightarrow> bc_put_groups (put_group_record gid h c') = bc_put_groups (put_group_record gid h c)"
  by (simp add: put_group_record_def)

lemma put_group_record_flag [simp]:
  "bc_delete_blocks_on_put_failure (put_group_record gid h c) = bc_delete_blocks_on_put_failure c"
  by (simp add: put_group_record_def)

lemma store_records:
  assumes "block_cache_store E now b rank gid c = Some ((r, p, k), c')"
  shows "bc_put_groups c' = (if r = 0 then bc_put_groups (put_group_record gid (buffer_bytes (block_hash b)) c) else bc_put_groups c) \<and>
    bc_delete_blocks_on_put_failure c' = bc_delete_blocks_on_put_failure c"
  using assms
  by (auto simp: block_cache_store_def Let_def split: bind_splits if_splits prod.splits
      dest: lru_put_frame lru_put_delete_flag intro!: put_group_record_groups_eq)

lemma handle_put_records:
  assumes "block_cache_handle_put E now b rank acquire gid c = Some ((r, p, k), c')"
  shows "bc_put_groups c' = (if r = 0 then bc_put_groups (put_group_record gid (buffer_bytes (block_hash b)) c) else bc_put_groups c) \<and>
    bc_delete_blocks_on_put_failure c' = bc_delete_blocks_on_put_failure c"
  using assms
  by (auto simp: block_cache_handle_put_def Let_def split: bind_splits option.splits if_splits dest!: store_records)

text \<open>The hashes recorded for a group.\<close>

definition group_record :: "u32 \<Rightarrow> block_cache_t \<Rightarrow> bytes list" where
  "group_record gid c = (case find (\<lambda>g. pgr_group g = gid) (bc_put_groups c) of None \<Rightarrow> [] | Some g \<Rightarrow> pgr_hashes g)"

lemma group_record_cong: "bc_put_groups c' = bc_put_groups c \<Longrightarrow> group_record gid c' = group_record gid c"
  by (simp add: group_record_def)

lemma find_update_first:
  "(\<And>x. P x \<Longrightarrow> P (f x)) \<Longrightarrow> find P (update_first P f xs) = map_option f (find P xs)"
  by (induction xs) auto

lemma group_record_put:
  assumes "gid \<noteq> 0" and "length h = BLAKE3_OUT_LEN"
  shows "group_record gid (put_group_record gid h c) = group_record gid c @ [h]"
proof (cases "gid \<in> pgr_group ` set (bc_put_groups c)")
  case True
  then have "find (\<lambda>g. pgr_group g = gid) (bc_put_groups c) \<noteq> None" by (auto simp: find_None_iff)
  then show ?thesis using True assms by (auto simp: group_record_def put_group_record_def BLAKE3_OUT_LEN_def find_update_first)
next
  case False
  then have "find (\<lambda>g. pgr_group g = gid) (bc_put_groups c) = None" by (auto simp: find_None_iff)
  then show ?thesis using False assms
    by (auto simp: group_record_def put_group_record_def BLAKE3_OUT_LEN_def find_append split: option.split)
qed

text \<open>Since state \<open>m\<close>, only the blocks recorded for the group are new.\<close>

definition only_group_new :: "u32 \<Rightarrow> acache \<Rightarrow> block_cache_t \<Rightarrow> bool" where
  "only_group_new gid m c \<longleftrightarrow> (\<forall>h \<in> set (group_record gid c). m h = None) \<and>
     (\<forall>h. h \<notin> set (group_record gid c) \<longrightarrow> map_option sb_data (cache_abs c h) = map_option sb_data (m h))"

lemma only_group_new_put:
  assumes "only_group_new gid m c" and "put_spec b rank acquire (cache_abs c) (r, p, k) (cache_abs c')"
    and "group_record gid c' = (if r = 0 then group_record gid c @ [buffer_bytes (block_hash b)] else group_record gid c)"
  shows "only_group_new gid m c'"
proof -
  let ?h = "buffer_bytes (block_hash b)"
  have cl: "sb_data (put_claim acquire x) = sb_data x" for x by (simp add: put_claim_def)
  show ?thesis
  proof (cases "cache_abs c ?h")
    case (Some x)
    then have "r = 1" "cache_abs c' = (cache_abs c)(?h \<mapsto> put_claim acquire (x\<lparr>sb_rank := max (sb_rank x) rank\<rparr>))"
      using assms(2) by (simp_all add: put_spec_def)
    moreover have "map_option sb_data (m ?h) = Some (sb_data x)" if "?h \<notin> set (group_record gid c)"
      using assms(1) that Some unfolding only_group_new_def by (metis option.simps(9))
    ultimately show ?thesis using assms(1,3) by (auto simp: only_group_new_def cl)
  next
    case None
    then have h: "m ?h = None" using assms(1) unfolding only_group_new_def by (metis option.map_disc_iff)
    have "r = - 2 \<and> cache_abs c' = cache_abs c \<or> r = 0 \<and> (\<exists>y. cache_abs c' = (cache_abs c)(?h \<mapsto> y))"
      using None assms(2) by (auto simp: put_spec_def Let_def)
    then show ?thesis using assms(1,3) h by (auto simp: only_group_new_def)
  qed
qed

text \<open>Puts of a group, with clock, block, rank and claim.\<close>

fun group_put :: "u32 \<Rightarrow> u64 \<times> block_t \<times> u32 \<times> bool \<Rightarrow> cache_msg" where
  "group_put gid (now, b, rank, acquire) = CACHE_PUT now b rank acquire gid"

lemma group_put_step:
  assumes "cache_ready E (Suc n) c" and "env_ok E cv" and "gid \<noteq> 0" and "cache_block E (bc_type c) b" and "only_group_new gid m c"
  shows "\<exists>r c'. block_cache_dispatch E (CACHE_PUT now b rank acquire gid) c = Some (r, c') \<and> cache_ready E n c' \<and>
    only_group_new gid m c' \<and> bc_type c' = bc_type c \<and>
    bc_delete_blocks_on_put_failure c' = bc_delete_blocks_on_put_failure c"
proof -
  have "cache_request_ok E c (CACHE_PUT now b rank acquire gid)" using assms(4) by simp
  from cache_ready_step [OF assms(1,2) this]
  obtain r c' where s: "block_cache_dispatch E (CACHE_PUT now b rank acquire gid) c = Some (r, c')"
      "step_ok E (CACHE_PUT now b rank acquire gid) c r c'" "cache_ready E n c'" by blast
  obtain x p k where r: "r = CACHE_PUT_REPLY (x, p, k)" "put_spec b rank acquire (cache_abs c) (x, p, k) (cache_abs c')"
    using s(2) by (auto simp: step_ok_def)
  have "block_cache_handle_put E now b rank acquire gid c = Some ((x, p, k), c')" using s(1) r(1) by auto
  note rec = handle_put_records [OF this]
  have "length (buffer_bytes (block_hash b)) = BLAKE3_OUT_LEN" using assms(4) env_okD(1) [OF assms(2)] by (metis cache_block_def)
  then have "group_record gid c' = (if x = 0 then group_record gid c @ [buffer_bytes (block_hash b)] else group_record gid c)"
    using rec group_record_put [OF assms(3)] group_record_cong by metis
  then have "only_group_new gid m c'" using only_group_new_put [OF assms(5) r(2)] by blast
  moreover have "bc_type c' = bc_type c" using s(2) by (simp add: step_ok_def is_resize_def counted_def)
  ultimately show ?thesis using s(1,3) rec by blast
qed

lemma group_puts_run:
  assumes "env_ok E cv" and "gid \<noteq> 0"
  shows "cache_ready E (Suc (length puts)) c \<Longrightarrow> only_group_new gid m c \<Longrightarrow>
    \<forall>p \<in> set puts. cache_block E (bc_type c) (fst (snd p)) \<Longrightarrow> bc_delete_blocks_on_put_failure c \<Longrightarrow>
    \<exists>rs c'. cache_run E (map (group_put gid) puts @ [CACHE_PUT_GROUP_END gid True]) c = Some (rs, c') \<and>
      (\<forall>h. map_option sb_data (cache_abs c' h) = map_option sb_data (m h))"
proof (induction puts arbitrary: c)
  case Nil
  have "cache_wf E c" "groups_ok c" using Nil.prems(1) by (simp_all add: cache_ready_def)
  from put_group_end_ok [OF this, of gid True]
  obtain c' where c': "put_group_end_dispatch E gid True c = Some c'" "cache_abs c' = (cache_abs c) |` (- group_hashes gid True c)" by blast
  have "group_hashes gid True c = set (group_record gid c)"
    using Nil.prems(4) by (simp add: group_hashes_def group_record_def split: option.split)
  then have "\<forall>h. map_option sb_data (cache_abs c' h) = map_option sb_data (m h)"
    using Nil.prems(2) c'(2) by (auto simp: only_group_new_def restrict_map_def)
  then show ?case using c'(1) by simp
next
  case (Cons p puts)
  obtain now b rank acquire where p: "p = (now, b, rank, acquire)" by (cases p)
  have "cache_ready E (Suc (Suc (length puts))) c" "cache_block E (bc_type c) b" using Cons.prems(1,3) p by simp_all
  from group_put_step [OF this(1) assms(1,2) this(2) Cons.prems(2), of now rank acquire]
  obtain r c' where s: "block_cache_dispatch E (CACHE_PUT now b rank acquire gid) c = Some (r, c')" "cache_ready E (Suc (length puts)) c'"
      "only_group_new gid m c'" "bc_type c' = bc_type c" "bc_delete_blocks_on_put_failure c' = bc_delete_blocks_on_put_failure c" by blast
  have "\<forall>p \<in> set puts. cache_block E (bc_type c') (fst (snd p))" using Cons.prems(3) s(4) by simp
  from Cons.IH [OF s(2,3) this] s(5) Cons.prems(4)
  obtain rs c'' where "cache_run E (map (group_put gid) puts @ [CACHE_PUT_GROUP_END gid True]) c' = Some (rs, c'')"
      "\<forall>h. map_option sb_data (cache_abs c'' h) = map_option sb_data (m h)" by blast
  then show ?case using s(1) p by (simp del: block_cache_dispatch.simps)
qed

text \<open>C10. An aborted group of puts leaves nothing behind: whatever blocks are put under a group, new ones and ones that
  were already stored, accepted or refused, the end of the group with \<open>abort\<close> takes exactly the new ones away, so
  that the cache holds the same blocks with the same data as before the group.\<close>

theorem put_group_abort_rolls_back:
  assumes "cache_ready E (Suc (length puts)) c" and "env_ok E cv" and "gid \<noteq> 0" and "gid \<notin> pgr_group ` set (bc_put_groups c)"
    and "bc_delete_blocks_on_put_failure c" and "\<forall>p \<in> set puts. cache_block E (bc_type c) (fst (snd p))"
  shows "\<exists>rs c'. cache_run E (map (group_put gid) puts @ [CACHE_PUT_GROUP_END gid True]) c = Some (rs, c') \<and>
    (\<forall>h. map_option sb_data (cache_abs c' h) = map_option sb_data (cache_abs c h))"
proof -
  have "find (\<lambda>g. pgr_group g = gid) (bc_put_groups c) = None" using assms(4) by (auto simp: find_None_iff)
  then have "only_group_new gid (cache_abs c) c" by (simp add: only_group_new_def group_record_def)
  from group_puts_run [OF assms(2,3,1) this assms(6,5)] show ?thesis .
qed

theorem put_group_abort_rolls_back_witness:
  "\<exists>c rs c'. cache_abs c = Map.empty \<and>
     cache_run example_env (map (group_put 9) [(0, example_block, 3, False), (1, example_block, 5, True)] @ [CACHE_PUT_GROUP_END 9 True]) c =
       Some (rs, c') \<and> cache_abs c' = Map.empty"
proof -
  obtain S where S: "\<forall>k \<le> 100. cache_ready example_env k (example_cache 2 S)" "cache_abs (example_cache 2 S) = Map.empty"
    using example_ready by blast
  let ?puts = "[(0, example_block, 3, False), (1, example_block, 5, True)]"
  have "cache_ready example_env (Suc (length ?puts)) (example_cache 2 S)" using S(1) by simp
  from put_group_abort_rolls_back [OF this example_env_ok, of 9] S(2) example_block_ok
  obtain rs c' where "cache_run example_env (map (group_put 9) ?puts @ [CACHE_PUT_GROUP_END 9 True]) (example_cache 2 S) = Some (rs, c')"
      "\<forall>h. cache_abs c' h = None"
    by (auto simp del: cache_run.simps)
  then show ?thesis using S(2) by blast
qed

section \<open>Offers\<close>

text \<open>C20. The answer to \<open>CACHE_LIST_SERVABLE\<close>: offers of distinct blocks that are stored, carry no claim and
  are not excluded, in descending rank; there are as many as were asked for unless there are fewer servable
  blocks, and a servable block that is left out has no higher rank than any that is offered.\<close>

theorem block_cache_list_servable_top:
  assumes "cache_wf E c"
  shows "distinct (map fst (block_cache_list_servable k exclude c)) \<and>
    set (block_cache_list_servable k exclude c) \<subseteq> servable exclude (cache_abs c) \<and>
    sorted_wrt (\<lambda>x y. snd y \<le> snd x) (block_cache_list_servable k exclude c) \<and>
    length (block_cache_list_servable k exclude c) = min k (card (servable exclude (cache_abs c))) \<and>
    (\<forall>x \<in> servable exclude (cache_abs c) - set (block_cache_list_servable k exclude c).
       \<forall>y \<in> set (block_cache_list_servable k exclude c). snd x \<le> snd y)"
proof -
  let ?es = "filter (\<lambda>e. index_entry_is_servable (Some e) \<and> hash e \<notin> set exclude) (index_to_array (bc_index c))"
  let ?f = "\<lambda>e. (hash e, entry_rank e)"
  have "distinct (map hash (index_to_array (bc_index c)))"
    using cache_wfD(1) [OF assms] node_wf_distinct by (auto simp: index_wf_def index_to_array_def)
  then have dist: "distinct (map hash ?es)" by (rule distinct_map_filter)
  have l: "block_cache_list_servable k exclude c = map ?f (take k (offer_sort ?es))" by (simp add: block_cache_list_servable_def)
  have srv: "servable exclude (cache_abs c) = ?f ` set ?es" using servable_array [OF assms, of exclude] by simp
  show ?thesis unfolding l srv using offers_top [OF dist] by blast
qed

lemma servable_single: "sb_claims x = 0 \<Longrightarrow> servable [] [h \<mapsto> x] = {(h, sb_rank x)}"
  by (auto simp: servable_def split: if_splits)

theorem block_cache_list_servable_top_witness:
  "\<exists>c. servable [] (cache_abs c) = {(replicate 32 7, 3)} \<and> set (block_cache_list_servable 5 [] c) \<subseteq> {(replicate 32 7, 3)} \<and>
     length (block_cache_list_servable 5 [] c) = 1"
proof -
  obtain c where c: "\<forall>k \<le> 90. cache_ready example_env k c"
      "cache_abs c = [replicate 32 7 \<mapsto> \<lparr>sb_data = replicate 136 7, sb_rank = 3, sb_claims = 0, sb_pins = 0\<rparr>]"
    using example_stored [of False 0 2] by auto
  have srv: "servable [] (cache_abs c) = {(replicate 32 7, 3)}" unfolding c(2) by (subst servable_single) (simp_all only: stored_block.simps)
  have "cache_wf example_env c" using c(1) by (auto simp: cache_ready_def)
  from block_cache_list_servable_top [OF this, of 5 "[]"] srv
  have "set (block_cache_list_servable 5 [] c) \<subseteq> {(replicate 32 7, 3)}"
      "length (block_cache_list_servable 5 [] c) = min 5 (card {(replicate 32 7 :: bytes, 3 :: u32)})"
    by (simp_all only:)
  then show ?thesis using srv by auto
qed

section \<open>What deletion leaves behind\<close>

lemma handle_remove_plain:
  assumes "cache_wf E c" and "length h = BLAKE3_OUT_LEN" and "index_map (bc_index c) h = Some e"
    and "ephemeral_count e = 0" and "pin_count e = 0"
  shows "\<exists>c'. block_cache_handle_remove E h force c = Some (0, c') \<and> cache_abs c' = (cache_abs c)(h := None) \<and>
    bc_sections c' = bc_sections c \<and> counted c c' \<and> cache_count c = Suc (cache_count c')"
proof -
  obtain c' where c': "block_cache_delete_entry E h (Live h) c = Some c'" "cache_blocks c' = (cache_blocks c)(h := None)"
      "index_map (bc_index c') = (index_map (bc_index c))(h := None)" "bc_sections c' = bc_sections c" "counted c c'"
      "cache_count c = Suc (cache_count c')"
    using block_cache_delete_entry_ok [OF assms(1,3)] by blast
  have "block_cache_handle_remove E h force c = Some (0, c')"
    using block_cache_peek_eq [OF assms(1,2)] assms(3-5) c'(1) by (simp add: block_cache_handle_remove_def)
  then show ?thesis using c'(4-6) cache_abs_delete [OF c'(2,3)] by blast
qed

text \<open>C34. Deleting a block does not give its slot back: \<open>_block_cache_delete_entry\<close> sends the sections actor
  \<open>SECTION_DEALLOCATE\<close>, which \<open>sections_dispatch\<close> does not handle (its request is \<open>SECTIONS_DEALLOCATE\<close>). After the
  removal of an unclaimed and unpinned block the cache no longer has the block, but the pool still holds its
  bytes in the same slot, and no slot has become free.\<close>

theorem block_cache_delete_keeps_slot:
  assumes "cache_wf E c" and "length h = BLAKE3_OUT_LEN" and "index_map (bc_index c) h = Some e"
    and "ephemeral_count e = 0" and "pin_count e = 0"
  shows "\<exists>d c'. cache_blocks c h = Some d \<and> block_cache_handle_remove E h force c = Some (0, c') \<and> cache_abs c' h = None \<and>
    sections_blocks (bc_sections c') (entry_addr e) = Some d \<and> sections_blocks (bc_sections c') = sections_blocks (bc_sections c)"
proof -
  obtain d where "cache_blocks c h = Some d" "sections_blocks (bc_sections c) (entry_addr e) = Some d"
    using cache_abs_Some [OF assms(1,3)] by blast
  moreover obtain c' where "block_cache_handle_remove E h force c = Some (0, c')" "cache_abs c' = (cache_abs c)(h := None)"
      "bc_sections c' = bc_sections c"
    using handle_remove_plain [OF assms] by blast
  ultimately show ?thesis by auto
qed

lemma example_entry:
  "\<exists>c e. cache_wf example_env c \<and> index_map (bc_index c) (replicate 32 7) = Some e \<and> ephemeral_count e = 0 \<and> pin_count e = 0 \<and>
     cache_blocks c (replicate 32 7) = Some (replicate 136 7)"
proof -
  obtain c where c: "\<forall>k \<le> 90. cache_ready example_env k c"
      "cache_abs c = [replicate 32 7 \<mapsto> \<lparr>sb_data = replicate 136 7, sb_rank = 3, sb_claims = 0, sb_pins = 0\<rparr>]"
    using example_stored [of False 0 2] by auto
  have wf: "cache_wf example_env c" using c(1) by (auto simp: cache_ready_def)
  have "cache_abs c (replicate 32 7) = Some \<lparr>sb_data = replicate 136 7, sb_rank = 3, sb_claims = 0, sb_pins = 0\<rparr>"
    by (simp only: c(2) fun_upd_same)
  from cache_abs_SomeD [OF wf this]
  obtain e where e: "index_map (bc_index c) (replicate 32 7) = Some e" "0 = ephemeral_count e" "0 = pin_count e"
      "cache_blocks c (replicate 32 7) = Some (replicate 136 7)"
    by (auto simp only: entry_view_def stored_block.simps)
  show ?thesis using wf e(1,4) e(2,3) [symmetric] by blast
qed

theorem block_cache_delete_keeps_slot_witness:
  "\<exists>c e c'. block_cache_handle_remove example_env (replicate 32 7) False c = Some (0, c') \<and> cache_abs c' (replicate 32 7) = None \<and>
     sections_blocks (bc_sections c') (entry_addr e) = Some (replicate 136 7)"
proof -
  obtain c e where c: "cache_wf example_env c" "index_map (bc_index c) (replicate 32 7) = Some e" "ephemeral_count e = 0" "pin_count e = 0"
      "cache_blocks c (replicate 32 7) = Some (replicate 136 7)"
    using example_entry by blast
  have "length (replicate 32 7 :: bytes) = BLAKE3_OUT_LEN" by (simp only: length_replicate BLAKE3_OUT_LEN_def)
  from block_cache_delete_keeps_slot [OF c(1) this c(2-4), of False] c(5) show ?thesis by (metis option.inject)
qed

text \<open>C35. Without a capacity the counters start at zero whatever the index holds (\<open>block_cache_create\<close> sets them only
  when \<open>max_capacity_bytes > 0\<close>), so the first removal of a block that was in the index at start wraps
  \<open>entry_count\<close>: \<open>block_cache_count\<close> then says \<open>2 ^ 64 - 1\<close> blocks.\<close>

theorem block_cache_count_wraps:
  assumes "cache_wf E (block_cache_create n type del 0 ix S)" and "length h = BLAKE3_OUT_LEN" and "index_map ix h = Some e"
    and "ephemeral_count e = 0" and "pin_count e = 0"
  shows "\<exists>c'. block_cache_handle_remove E h force (block_cache_create n type del 0 ix S) = Some (0, c') \<and>
    block_cache_count c' = 18446744073709551615 \<and> cache_count c' = index_count ix - 1"
proof -
  let ?c = "block_cache_create n type del 0 ix S"
  have b: "bc_index ?c = ix" "bc_entry_count ?c = 0" by (simp_all add: block_cache_create_def)
  obtain c' where c': "block_cache_handle_remove E h force ?c = Some (0, c')" "counted ?c c'" "cache_count ?c = Suc (cache_count c')"
    using handle_remove_plain [OF assms(1,2), of e force] assms(3-5) b(1) by auto
  have "bc_entry_count c' - of_nat (cache_count c') = - of_nat (Suc (cache_count c'))"
    using c'(2,3) b by (simp add: counted_def)
  then have "bc_entry_count c' = - 1" by (simp add: algebra_simps)
  then show ?thesis using c'(1,3) b(1) by (simp add: block_cache_count_def)
qed

theorem block_cache_count_wraps_witness:
  "\<exists>type ix S c'. block_cache_handle_remove example_env (replicate 32 7) False (block_cache_create 2 type True 0 ix S) = Some (0, c') \<and>
     block_cache_count c' = 18446744073709551615"
proof -
  obtain c e where c: "cache_wf example_env c" "index_map (bc_index c) (replicate 32 7) = Some e" "ephemeral_count e = 0" "pin_count e = 0"
    using example_entry by blast
  have len: "length (replicate 32 7 :: bytes) = BLAKE3_OUT_LEN" by (simp only: length_replicate BLAKE3_OUT_LEN_def)
  have "cache_wf example_env (block_cache_create 2 (bc_type c) True 0 (bc_index c) (bc_sections c))"
    using c(1) by (intro block_cache_create_wf) (simp_all add: cache_wf_def)
  from block_cache_count_wraps [OF this len c(2-4), of False] show ?thesis by blast
qed

end
