(* ===== verification/Spec2Isabelle.thy ===== *)
theory Spec2Isabelle
  imports Index_Durability Block_Cache_Guarantees
begin

text \<open>
  A verification development for liboffs, a C implementation of the owner-free file system.

  The theories and the code they model (paths under \<open>src/src/\<close>):

  \<^item> \<open>Prelude\<close>: machine words, byte strings, list lemmas.
  \<^item> \<open>Cbor\<close>: the part of libcbor the code calls, as a parameter with its documented laws
    (locale \<open>libcbor\<close>) and an RFC 8949 codec that satisfies them.
  \<^item> \<open>Buffer\<close>: \<open>Buffer/buffer.c\<close>.
  \<^item> \<open>Fibonacci\<close>: \<open>BlockCache/fibonacci.c\<close>, the hit counter of index entries.
  \<^item> \<open>Wal\<close>: \<open>BlockCache/wal.c\<close>, the framed write-ahead log and its replay loop.
  \<^item> \<open>Index\<close>, \<open>Index_Trie\<close>, \<open>Index_Map\<close>, \<open>Index_Codec\<close>, \<open>Index_Recovery\<close>, \<open>Index_Durability\<close>:
    \<open>BlockCache/index.c\<close>, the bit trie of block entries, its snapshots and its recovery.
\<close>

end
